(* ===== verification/Zb_Prelude.thy ===== *)
theory Zb_Prelude
  imports Main "HOL-Library.Word"
begin

text \<open>
  Shared vocabulary of the ZettaBridge development: the machine integers of the C++ code, the
  readings of its bit operations as arithmetic on natural numbers, the vector operations of the
  standard library that the components use, and the lemma collections the component proofs
  rest on.

  A C++ \<open>std::uintN_t\<close> is an \<open>N word\<close> (addition and subtraction wrap); a
  \<open>std::vector\<close> is a list; a \<open>std::size_t\<close> that counts elements of such a list is a
  \<open>nat\<close>.
\<close>

unbundle bit_operations_syntax

type_synonym u8 = "8 word"
type_synonym u16 = "16 word"
type_synonym u32 = "32 word"
type_synonym u64 = "64 word"

named_theorems word_nat \<open>readings of word operations as natural-number arithmetic\<close>
named_theorems vec_simps \<open>facts about the vector operations\<close>

section \<open>Words as numbers\<close>

lemma unat_ucast_up [word_nat]:
  "LENGTH('a::len) \<le> LENGTH('b::len) \<Longrightarrow> unat (ucast (x :: 'a word) :: 'b word) = unat x"
proof -
  assume "LENGTH('a) \<le> LENGTH('b)"
  then have "(2 :: nat) ^ LENGTH('a) \<le> 2 ^ LENGTH('b)" by (rule power_increasing) simp
  with unsigned_less [of x] have "unat x < 2 ^ LENGTH('b)" by (rule less_le_trans)
  then show ?thesis by (simp add: unsigned_ucast_eq take_bit_nat_eq_self)
qed

lemma unat_drop_bit [word_nat]: "unat (drop_bit n (x :: 'a::len word)) = unat x div 2 ^ n"
  by (metis drop_bit_eq_div unat_drop_bit_eq)

lemma unat_and_mask [word_nat]: "unat (x AND mask n :: 'a::len word) = unat x mod 2 ^ n"
  by (metis take_bit_eq_mask take_bit_eq_mod unsigned_take_bit_eq)

lemma and_not_mask_eq: "x AND NOT (mask n) = push_bit n (drop_bit n (x :: 'a::len word))"
  by (rule bit_word_eqI) (auto simp: bit_simps)

lemma unat_and_not_mask [word_nat]:
  "unat (x AND NOT (mask n) :: 'a::len word) = unat x div 2 ^ n * 2 ^ n"
proof -
  have "unat x div 2 ^ n * 2 ^ n \<le> unat x" by simp
  then have "unat x div 2 ^ n * 2 ^ n < 2 ^ LENGTH('a)" using unsigned_less [of x] by (rule le_less_trans)
  then show ?thesis
    unfolding and_not_mask_eq unsigned_push_bit_eq unat_drop_bit
    by (simp add: push_bit_eq_mult take_bit_nat_eq_self)
qed

lemma unat_less_u32: "unat (x :: u32) < 4294967296"
  using unsigned_less [of x] by simp

lemma unat_less_u64: "unat (x :: u64) < 18446744073709551616"
  using unsigned_less [of x] by simp

lemma unat_eq_of_nat: "n < 2 ^ LENGTH('a) \<Longrightarrow> unat (of_nat n :: 'a::len word) = n"
  by (simp add: unat_of_nat take_bit_nat_eq_self)

lemma unat_Suc_less: "(x :: 'a::len word) < y \<Longrightarrow> unat (x + 1) = Suc (unat x)"
  by unat_arith

lemma mask_2: "(3 :: 'a::len word) = mask 2"
  by (simp add: mask_eq_exp_minus_1)

lemma mask_12: "(4095 :: 'a::len word) = mask 12"
  by (simp add: mask_eq_exp_minus_1)

lemma bit_less_power:
  assumes "unat (w :: 'a::len word) < 2 ^ m" and "bit w n"
  shows "n < m"
proof -
  have "unat (take_bit m w) = unat w"
    using assms(1) by (simp add: unsigned_take_bit_eq take_bit_nat_eq_self)
  then have "take_bit m w = w" by (rule word_unat_eq_iff [THEN iffD2])
  with assms(2) show ?thesis by (metis bit_take_bit_iff)
qed

section \<open>Vectors\<close>

text \<open>\<open>std::vector::resize(n)\<close>: cut to \<open>n\<close> elements or extend with \<open>x\<close>.\<close>

definition vec_resize :: "nat \<Rightarrow> 'a \<Rightarrow> 'a list \<Rightarrow> 'a list" where
  "vec_resize n x xs = take n xs @ replicate (n - length xs) x"

lemma length_vec_resize [simp, vec_simps]: "length (vec_resize n x xs) = n"
  by (simp add: vec_resize_def)

lemma nth_vec_resize [vec_simps]:
  "i < n \<Longrightarrow> vec_resize n x xs ! i = (if i < length xs then xs ! i else x)"
  by (auto simp: vec_resize_def nth_append min_def)

lemma in_set_drop_iff:
  "r \<in> set (drop n xs) \<longleftrightarrow> (\<exists>i. n \<le> i \<and> i < length xs \<and> xs ! i = r)"
proof
  assume "r \<in> set (drop n xs)"
  then obtain j where "j < length (drop n xs)" "drop n xs ! j = r" by (auto simp: in_set_conv_nth)
  then show "\<exists>i. n \<le> i \<and> i < length xs \<and> xs ! i = r" by (intro exI [of _ "n + j"]) auto
next
  assume "\<exists>i. n \<le> i \<and> i < length xs \<and> xs ! i = r"
  then obtain i where "n \<le> i" "i < length xs" "xs ! i = r" by blast
  then show "r \<in> set (drop n xs)"
    by (auto simp: in_set_conv_nth intro: exI [of _ "i - n"])
qed

end
