(* ===== verification/Jni_Handles.thy ===== *)
theory Jni_Handles
  imports Zb_Prelude
begin

text \<open>
  The JNI handle tables of \<open>core/include/zb/jni_handles.h\<close> and
  \<open>core/src/jni/handles.cpp\<close>: the 32-bit handles the guest sees, the per-thread table of
  local references with its stack of frames (\<open>LocalHandles\<close>), the process-wide table of
  global references (\<open>GlobalHandles\<close>) and the table of method and field ids
  (\<open>IdTable\<close>).  The locale \<open>handle_table\<close> states what the bridge relies on (a handle
  that has died never resolves again, and a live one never changes its referent) and is
  interpreted on both tables.
\<close>

section \<open>Handles\<close>

datatype HandleKind = Local | Global | WeakGlobal

definition kind_bits :: "HandleKind \<Rightarrow> u32" where
  "kind_bits k = (case k of Local \<Rightarrow> 1 | Global \<Rightarrow> 2 | WeakGlobal \<Rightarrow> 3)"

definition kMaxSlots :: nat where
  "kMaxSlots = 2 ^ 18"

definition kRetiredSerial :: u16 where
  "kRetiredSerial = 4096"

definition make_handle :: "HandleKind \<Rightarrow> u32 \<Rightarrow> u32 \<Rightarrow> u32" where
  "make_handle kind slot serial =
     push_bit 14 slot OR push_bit 2 (serial AND 4095) OR kind_bits kind"

definition handle_index :: "u32 \<Rightarrow> u32" where
  "handle_index handle = drop_bit 14 handle"

definition handle_serial :: "u32 \<Rightarrow> u32" where
  "handle_serial handle = drop_bit 2 handle AND 4095"

definition handle_kind :: "u32 \<Rightarrow> HandleKind option" where
  "handle_kind handle =
     (let bits = handle AND 3
      in if bits = 0 then None
         else if bits = 1 then Some Local
         else if bits = 2 then Some Global
         else Some WeakGlobal)"

section \<open>Local references\<close>

record local_handles =
  refs :: "u64 list"
  serials :: "u16 list"
  frame_starts :: "nat list"
  retired_prefix :: nat

definition local_init :: local_handles where
  "local_init = \<lparr>refs = [], serials = [], frame_starts = [], retired_prefix = 0\<rparr>"

text \<open>The loop \<open>while (i < serials_.size() && serials_[i] == kRetiredSerial) ++i\<close>, used by
  \<open>pop_frame\<close> and by \<open>add\<close>.\<close>

function skip_retired :: "u16 list \<Rightarrow> nat \<Rightarrow> nat" where
  "skip_retired ss i =
     (if i < length ss \<and> ss ! i = kRetiredSerial then skip_retired ss (Suc i) else i)"
  by pat_completeness auto
termination
  by (relation "measure (\<lambda>(ss, i). length ss - i)") auto

declare skip_retired.simps [simp del]

definition bump_serial :: "nat \<Rightarrow> u16 list \<Rightarrow> u16 list" where
  "bump_serial i ss = (if ss ! i < kRetiredSerial then ss[i := ss ! i + 1] else ss)"

definition push_frame :: "local_handles \<Rightarrow> local_handles" where
  "push_frame lh = lh\<lparr>frame_starts := frame_starts lh @ [length (refs lh)]\<rparr>"

definition pop_frame :: "local_handles \<Rightarrow> u64 list \<times> local_handles" where
  "pop_frame lh =
     (if frame_starts lh = [] then ([], lh)
      else let start = last (frame_starts lh);
               released = filter (\<lambda>r. r \<noteq> 0) (drop start (refs lh));
               ss = fold bump_serial [start..<length (refs lh)] (serials lh)
           in (released,
               lh\<lparr>refs := vec_resize start 0 (refs lh), serials := ss,
                  frame_starts := butlast (frame_starts lh),
                  retired_prefix := skip_retired ss (retired_prefix lh)\<rparr>))"

text \<open>\<open>add\<close> aborts the process when every slot is taken: the result is then \<open>None\<close>.\<close>

definition local_add :: "u64 \<Rightarrow> local_handles \<Rightarrow> (u32 \<times> local_handles) option" where
  "local_add host_ref lh =
     (if host_ref = 0 then Some (0, lh)
      else let lh1 = (if frame_starts lh = [] then push_frame lh else lh);
               index = skip_retired (serials lh1) (max (length (refs lh1)) (retired_prefix lh1))
           in if index \<ge> kMaxSlots then None
              else let serial = (if index < length (serials lh1) then serials lh1 ! index else 0);
                       ss = (if index < length (serials lh1) then serials lh1
                             else serials lh1 @ [0])
                   in Some (make_handle Local (of_nat index) (ucast serial),
                            lh1\<lparr>refs := (vec_resize (Suc index) 0 (refs lh1))[index := host_ref],
                                serials := ss\<rparr>))"

definition local_get :: "local_handles \<Rightarrow> u32 \<Rightarrow> u64 option" where
  "local_get lh handle =
     (if handle = 0 then Some 0
      else if handle_kind handle \<noteq> Some Local then None
      else let index = unat (handle_index handle)
           in if index \<ge> length (refs lh) \<or> refs lh ! index = 0 then None
              else if handle_serial handle \<noteq> ucast (serials lh ! index) then None
              else Some (refs lh ! index))"

text \<open>The loop \<open>while (refs_.size() > floor && refs_.back() == 0) refs_.pop_back()\<close>.\<close>

function pop_zeros :: "nat \<Rightarrow> u64 list \<Rightarrow> u64 list" where
  "pop_zeros bottom rs =
     (if length rs > bottom \<and> last rs = 0 then pop_zeros bottom (butlast rs) else rs)"
  by pat_completeness auto
termination
  by (relation "measure (\<lambda>(bottom, rs). length rs)") auto

declare pop_zeros.simps [simp del]

definition local_remove :: "u32 \<Rightarrow> local_handles \<Rightarrow> u64 option \<times> local_handles" where
  "local_remove handle lh =
     (if handle = 0 then (Some 0, lh)
      else case local_get lh handle of
          None \<Rightarrow> (None, lh)
        | Some ref \<Rightarrow>
            (let index = unat (handle_index handle);
                 rs = (refs lh)[index := 0];
                 bottom = (if frame_starts lh = [] then 0 else last (frame_starts lh))
             in (Some ref, lh\<lparr>refs := pop_zeros bottom rs,
                              serials := bump_serial index (serials lh)\<rparr>)))"

section \<open>Global references\<close>

record global_handles =
  gkind :: HandleKind
  grefs :: "u64 list"
  gserials :: "u16 list"
  gfree :: "u32 list"

definition global_init :: "HandleKind \<Rightarrow> global_handles" where
  "global_init k = \<lparr>gkind = k, grefs = [], gserials = [], gfree = []\<rparr>"

definition global_add :: "u64 \<Rightarrow> global_handles \<Rightarrow> (u32 \<times> global_handles) option" where
  "global_add host_ref gh =
     (if host_ref = 0 then Some (0, gh)
      else if gfree gh \<noteq> [] then
        (let index = last (gfree gh)
         in Some (make_handle (gkind gh) index (ucast (gserials gh ! unat index)),
                  gh\<lparr>gfree := butlast (gfree gh),
                     grefs := (grefs gh)[unat index := host_ref]\<rparr>))
      else if length (grefs gh) \<ge> kMaxSlots then None
      else Some (make_handle (gkind gh) (of_nat (length (grefs gh))) 0,
                 gh\<lparr>grefs := grefs gh @ [host_ref], gserials := gserials gh @ [0]\<rparr>))"

definition global_get :: "global_handles \<Rightarrow> u32 \<Rightarrow> u64 option" where
  "global_get gh handle =
     (if handle = 0 then Some 0
      else if handle_kind handle \<noteq> Some (gkind gh) then None
      else let index = unat (handle_index handle)
           in if index \<ge> length (grefs gh) \<or> grefs gh ! index = 0 then None
              else if handle_serial handle \<noteq> ucast (gserials gh ! index) then None
              else Some (grefs gh ! index))"

definition global_remove :: "u32 \<Rightarrow> global_handles \<Rightarrow> u64 option \<times> global_handles" where
  "global_remove handle gh =
     (if handle = 0 then (Some 0, gh)
      else if handle_kind handle \<noteq> Some (gkind gh) then (None, gh)
      else let index = unat (handle_index handle)
           in if index \<ge> length (grefs gh) \<or> grefs gh ! index = 0 then (None, gh)
              else if handle_serial handle \<noteq> ucast (gserials gh ! index) then (None, gh)
              else let serial = gserials gh ! index + 1
                   in (Some (grefs gh ! index),
                       gh\<lparr>grefs := (grefs gh)[index := 0],
                          gserials := (gserials gh)[index := serial],
                          gfree := (if serial < kRetiredSerial then gfree gh @ [of_nat index]
                                    else gfree gh)\<rparr>))"

section \<open>Method and field ids\<close>

record id_table =
  ids :: "u64 list"
  id_index :: "u64 \<rightharpoonup> u32"

definition id_init :: id_table where
  "id_init = \<lparr>ids = [], id_index = Map.empty\<rparr>"

definition intern :: "u64 \<Rightarrow> id_table \<Rightarrow> u32 \<times> id_table" where
  "intern host_id t =
     (if host_id = 0 then (0, t)
      else case id_index t host_id of
          Some i \<Rightarrow> (i, t)
        | None \<Rightarrow>
            (let i = of_nat (Suc (length (ids t)))
             in (i, t\<lparr>ids := ids t @ [host_id], id_index := (id_index t)(host_id \<mapsto> i)\<rparr>)))"

definition id_get :: "id_table \<Rightarrow> u32 \<Rightarrow> u64 option" where
  "id_get t i =
     (if i = 0 then Some 0
      else if unat i > length (ids t) then None
      else Some (ids t ! (unat i - 1)))"

section \<open>The bit fields of a handle\<close>

lemma unat_handle_serial: "unat (handle_serial h) = unat h div 4 mod 4096"
  by (simp only: handle_serial_def mask_12 word_nat) simp

lemma bit_kind_bits:
  "bit (kind_bits k) n \<longleftrightarrow> (n = 0 \<and> k \<noteq> Global) \<or> (n = 1 \<and> k \<noteq> Local)"
  by (cases k; cases n) (auto simp: kind_bits_def mask_2 bit_simps bit_1_iff split: nat.splits)

lemma handle_kind_make [simp]: "handle_kind (make_handle k i s) = Some k"
proof -
  have "make_handle k i s AND 3 = kind_bits k"
    by (rule bit_word_eqI) (auto simp: make_handle_def mask_2 bit_simps bit_kind_bits)
  then show ?thesis by (cases k) (simp_all add: handle_kind_def kind_bits_def)
qed

lemma handle_serial_make: "handle_serial (make_handle k i s) = s AND 4095"
  by (rule bit_word_eqI)
    (auto simp: handle_serial_def make_handle_def mask_12 bit_simps bit_kind_bits)

lemma handle_index_make:
  assumes "unat i < kMaxSlots"
  shows "handle_index (make_handle k i s) = i"
proof -
  have "bit i n \<Longrightarrow> n < 18" for n
    using assms bit_less_power [of i 18 n] by (simp add: kMaxSlots_def)
  then show ?thesis
    by (intro bit_word_eqI)
      (auto simp: handle_index_def make_handle_def mask_12 bit_simps bit_kind_bits)
qed

lemma handle_kind_bits:
  assumes "handle_kind h = Some k"
  shows "h AND 3 = kind_bits k"
proof -
  have "unat (h AND 3) = unat h mod 4" by (simp only: mask_2 word_nat) simp
  then have "h AND 3 < 4" by unat_arith
  then have "h AND 3 = 0 \<or> h AND 3 = 1 \<or> h AND 3 = 2 \<or> h AND 3 = 3"
    by unat_arith
  with assms show ?thesis
    by (auto simp: handle_kind_def kind_bits_def Let_def split: if_splits)
qed

lemma make_handle_of:
  assumes "handle_kind h = Some k"
  shows "make_handle k (handle_index h) (handle_serial h) = h"
proof (rule bit_word_eqI)
  have kb: "bit (h AND 3) n = bit (kind_bits k) n" for n
    by (simp add: handle_kind_bits [OF assms])
  have low: "bit h 0 = (k \<noteq> Global)" "bit h (Suc 0) = (k \<noteq> Local)"
    using kb [of 0] kb [of 1] by (simp_all add: mask_2 bit_simps bit_kind_bits)
  fix n assume "n < LENGTH(32)"
  then consider "n = 0" | "n = 1" | "2 \<le> n" "n < 14" "2 + (n - 2) = n"
    | "14 \<le> n" "14 + (n - 14) = n" "n < 32" by fastforce
  then show "bit (make_handle k (handle_index h) (handle_serial h)) n = bit h n"
    by cases (auto simp: handle_index_def handle_serial_def make_handle_def mask_12 bit_simps
        bit_kind_bits low)
qed

lemma handle_eqI:
  assumes "handle_kind h = handle_kind h'" and "handle_kind h \<noteq> None"
    and "handle_index h = handle_index h'" and "handle_serial h = handle_serial h'"
  shows "h = h'"
  using assms make_handle_of [of h] make_handle_of [of h'] by force

lemma handle_nonzero: "handle_kind h = Some k \<Longrightarrow> h \<noteq> 0"
  by (auto simp: handle_kind_def)

lemma ucast_serial_less:
  "(s :: u16) < kRetiredSerial \<Longrightarrow> (ucast s AND 4095 :: u32) = ucast s"
proof -
  assume "s < kRetiredSerial"
  then have "unat s < 4096" by (simp add: kRetiredSerial_def) unat_arith
  then have "unat (ucast s AND 4095 :: u32) = unat (ucast s :: u32)"
    by (simp add: mask_12 word_nat)
  then show ?thesis by (rule word_unat_eq_iff [THEN iffD2])
qed

section \<open>The handle table contract\<close>

text \<open>
  What the bridge relies on.  A table has an invariant, a step relation (one step per
  operation), a lookup, and a predicate that marks the handles whose slot has moved past them.
\<close>

locale handle_table =
  fixes inv :: "'s \<Rightarrow> bool"
    and step :: "'s \<Rightarrow> 's \<Rightarrow> bool"
    and lookup :: "'s \<Rightarrow> u32 \<Rightarrow> u64 option"
    and spent :: "'s \<Rightarrow> u32 \<Rightarrow> bool"
  assumes inv_step: "inv s \<Longrightarrow> step s t \<Longrightarrow> inv t"
    and spent_step: "inv s \<Longrightarrow> step s t \<Longrightarrow> spent s h \<Longrightarrow> spent t h"
    and spent_lookup: "spent s h \<Longrightarrow> lookup s h = None"
    and live_step: "inv s \<Longrightarrow> step s t \<Longrightarrow> h \<noteq> 0 \<Longrightarrow> lookup s h = Some r \<Longrightarrow>
          lookup t h = Some r \<or> spent t h"
begin

lemma inv_steps: "step\<^sup>*\<^sup>* s t \<Longrightarrow> inv s \<Longrightarrow> inv t"
  by (induction rule: rtranclp_induct) (auto intro: inv_step)

lemma spent_steps: "step\<^sup>*\<^sup>* s t \<Longrightarrow> inv s \<Longrightarrow> spent s h \<Longrightarrow> spent t h"
  by (induction rule: rtranclp_induct) (auto intro: spent_step inv_steps)

lemma live_steps:
  assumes "step\<^sup>*\<^sup>* s t" and "inv s" and "h \<noteq> 0" and "lookup s h = Some r"
  shows "lookup t h = Some r \<or> spent t h"
  using assms(1)
proof (induction rule: rtranclp_induct)
  case base
  show ?case using assms(4) by simp
next
  case (step t u)
  then have "inv t" using assms(2) inv_steps by blast
  with step show ?case using assms(3) live_step spent_step by blast
qed

lemma no_revival:
  assumes "inv s" and "h \<noteq> 0" and "lookup s h = Some r" and "step\<^sup>*\<^sup>* s t" and "lookup t h \<noteq> Some r"
    and "step\<^sup>*\<^sup>* t u"
  shows "lookup u h = None"
proof -
  have "spent t h" using live_steps assms(1-5) by blast
  then have "spent u h" using spent_steps inv_steps assms(1,4,6) by blast
  then show ?thesis by (rule spent_lookup)
qed

end

section \<open>Local references: the loops\<close>

lemma skip_retired_bounds:
  "i \<le> length ss \<Longrightarrow> i \<le> skip_retired ss i \<and> skip_retired ss i \<le> length ss"
proof (induction ss i rule: skip_retired.induct)
  case (1 ss i)
  then show ?case by (auto simp: skip_retired.simps [of ss i])
qed

lemma skip_retired_stops:
  "skip_retired ss i < length ss \<Longrightarrow> ss ! skip_retired ss i \<noteq> kRetiredSerial"
proof (induction ss i rule: skip_retired.induct)
  case (1 ss i)
  then show ?case by (auto simp: skip_retired.simps [of ss i] split: if_splits)
qed

lemma skip_retired_skips:
  "i \<le> j \<Longrightarrow> j < skip_retired ss i \<Longrightarrow> ss ! j = kRetiredSerial"
proof (induction ss i rule: skip_retired.induct)
  case (1 ss i)
  then show ?case
    by (cases "i = j")
      (auto simp: skip_retired.simps [of ss i] skip_retired.simps [of ss j] split: if_splits)
qed

lemma pop_zeros_take:
  "\<exists>k. pop_zeros b rs = take k rs \<and> k \<le> length rs \<and> (b \<le> length rs \<longrightarrow> b \<le> k) \<and>
       (\<forall>j. k \<le> j \<and> j < length rs \<longrightarrow> rs ! j = 0)"
proof (induction b rs rule: pop_zeros.induct)
  case (1 b rs)
  show ?case
  proof (cases "length rs > b \<and> last rs = 0")
    case True
    with "1.IH" obtain k where k: "pop_zeros b (butlast rs) = take k (butlast rs)"
      "k \<le> length (butlast rs)" "b \<le> length (butlast rs) \<longrightarrow> b \<le> k"
      "\<forall>j. k \<le> j \<and> j < length (butlast rs) \<longrightarrow> butlast rs ! j = 0"
      by blast
    have "rs \<noteq> []" using True by auto
    have "rs ! j = 0" if "k \<le> j" "j < length rs" for j
    proof (cases "j = length rs - 1")
      case True
      with \<open>length rs > b \<and> last rs = 0\<close> \<open>rs \<noteq> []\<close> show ?thesis
        by (simp add: last_conv_nth)
    next
      case False
      with that k(4) show ?thesis by (simp add: nth_butlast)
    qed
    moreover have "k < length rs" using True k(2) by auto
    then have "pop_zeros b rs = take k rs"
      using True k(1) by (simp add: pop_zeros.simps [of b rs] take_butlast)
    moreover have "k \<le> length rs" "b \<le> k" using True k(2,3) by auto
    ultimately show ?thesis by blast
  next
    case False
    then show ?thesis by (intro exI [of _ "length rs"]) (auto simp: pop_zeros.simps [of b rs])
  qed
qed

definition next_serial :: "u16 \<Rightarrow> u16" where
  "next_serial s = (if s < kRetiredSerial then s + 1 else s)"

lemma bump_serial_alt: "i < length ss \<Longrightarrow> bump_serial i ss = ss[i := next_serial (ss ! i)]"
  by (simp add: bump_serial_def next_serial_def)

lemma length_bump_serial [simp]: "length (bump_serial i ss) = length ss"
  by (simp add: bump_serial_def)

lemma length_fold_bump [simp]: "length (fold bump_serial is ss) = length ss"
  by (induction "is" arbitrary: ss) auto

lemma nth_fold_bump:
  "a \<le> b \<Longrightarrow> b \<le> length ss \<Longrightarrow> j < length ss \<Longrightarrow>
   fold bump_serial [a..<b] ss ! j = (if a \<le> j \<and> j < b then next_serial (ss ! j) else ss ! j)"
proof (induction b arbitrary: j)
  case 0
  then show ?case by simp
next
  case (Suc b)
  show ?case
  proof (cases "a = Suc b")
    case True
    then show ?thesis by auto
  next
    case False
    with Suc have IH: "fold bump_serial [a..<b] ss ! i =
        (if a \<le> i \<and> i < b then next_serial (ss ! i) else ss ! i)" if "i < length ss" for i
      using that by simp
    show ?thesis
      using False Suc.prems by (simp add: bump_serial_alt IH nth_list_update)
  qed
qed

lemma next_serial_le: "s \<le> kRetiredSerial \<Longrightarrow> next_serial s \<le> kRetiredSerial"
  by (simp add: next_serial_def kRetiredSerial_def) unat_arith

lemma unat_next_serial: "s < kRetiredSerial \<Longrightarrow> unat (next_serial s) = Suc (unat s)"
  by (simp add: next_serial_def unat_Suc_less)

lemma next_serial_ge: "unat s \<le> unat (next_serial s)"
  by (cases "s < kRetiredSerial") (auto simp: unat_next_serial, simp add: next_serial_def)

section \<open>Local references: invariant\<close>

definition local_inv :: "local_handles \<Rightarrow> bool" where
  "local_inv lh \<longleftrightarrow>
     length (refs lh) \<le> length (serials lh) \<and> length (serials lh) \<le> kMaxSlots \<and>
     retired_prefix lh \<le> length (serials lh) \<and>
     (\<forall>i < retired_prefix lh. serials lh ! i = kRetiredSerial) \<and>
     (\<forall>i < length (serials lh). serials lh ! i \<le> kRetiredSerial) \<and>
     (\<forall>i < length (refs lh). refs lh ! i \<noteq> 0 \<longrightarrow> serials lh ! i < kRetiredSerial) \<and>
     sorted (frame_starts lh) \<and> (\<forall>s \<in> set (frame_starts lh). s \<le> length (refs lh)) \<and>
     (frame_starts lh = [] \<longrightarrow> refs lh = []) \<and>
     (frame_starts lh \<noteq> [] \<longrightarrow> hd (frame_starts lh) = 0)"

lemma local_get_iff:
  "h \<noteq> 0 \<Longrightarrow> local_get lh h = Some r \<longleftrightarrow>
     handle_kind h = Some Local \<and> unat (handle_index h) < length (refs lh) \<and>
     refs lh ! unat (handle_index h) = r \<and> r \<noteq> 0 \<and>
     handle_serial h = ucast (serials lh ! unat (handle_index h))"
  by (auto simp: local_get_def Let_def)

lemma local_inv_init: "local_inv local_init"
  by (simp add: local_inv_def local_init_def)

lemma push_frame_inv: "local_inv lh \<Longrightarrow> local_inv (push_frame lh)"
  by (cases "frame_starts lh") (auto simp: local_inv_def push_frame_def sorted_append)

lemma push_frame_get [simp]: "local_get (push_frame lh) h = local_get lh h"
  by (simp add: local_get_def push_frame_def Let_def)

lemma local_inv_last_start:
  "local_inv lh \<Longrightarrow> frame_starts lh \<noteq> [] \<Longrightarrow> last (frame_starts lh) \<le> length (refs lh)"
  by (simp add: local_inv_def)

lemma next_serial_retired [simp]: "next_serial kRetiredSerial = kRetiredSerial"
  by (simp add: next_serial_def)

lemma sorted_le_last: "sorted xs \<Longrightarrow> x \<in> set xs \<Longrightarrow> x \<le> last xs"
  by (induction xs rule: rev_induct) (auto simp: sorted_append)

lemma pop_frame_inv:
  assumes "local_inv lh"
  shows "local_inv (snd (pop_frame lh))"
proof (cases "frame_starts lh = []")
  case True
  then show ?thesis using assms by (simp add: pop_frame_def)
next
  case False
  define start where "start = last (frame_starts lh)"
  define ss where "ss = fold bump_serial [start..<length (refs lh)] (serials lh)"
  have le: "start \<le> length (refs lh)" "length (refs lh) \<le> length (serials lh)"
    using assms False by (simp_all add: local_inv_def start_def)
  have nth: "ss ! j = (if start \<le> j \<and> j < length (refs lh) then next_serial (serials lh ! j)
      else serials lh ! j)" if "j < length (serials lh)" for j
    using nth_fold_bump le that by (simp add: ss_def)
  have len: "length ss = length (serials lh)" by (simp add: ss_def)
  have eq: "snd (pop_frame lh) = lh\<lparr>refs := take start (refs lh), serials := ss,
      frame_starts := butlast (frame_starts lh), retired_prefix := skip_retired ss (retired_prefix lh)\<rparr>"
    using False le by (simp add: pop_frame_def Let_def start_def ss_def vec_resize_def)
  have pre: "retired_prefix lh \<le> length ss" using assms len by (simp add: local_inv_def)
  have skip: "ss ! i = kRetiredSerial" if "i < skip_retired ss (retired_prefix lh)" for i
  proof (cases "i < retired_prefix lh")
    case True
    with assms show ?thesis by (auto simp: local_inv_def nth)
  next
    case False
    with that show ?thesis by (intro skip_retired_skips) auto
  qed
  have srt: "\<forall>s \<in> set (butlast (frame_starts lh)). s \<le> start"
    using assms sorted_le_last by (auto simp: local_inv_def start_def dest: in_set_butlastD)
  have srt2: "sorted (butlast (frame_starts lh))"
    using assms by (auto simp: local_inv_def butlast_conv_take)
  have st0: "butlast (frame_starts lh) = [] \<Longrightarrow> start = 0"
    using assms False by (cases "frame_starts lh") (auto simp: local_inv_def start_def split: if_splits)
  have hd0: "butlast (frame_starts lh) \<noteq> [] \<Longrightarrow> hd (butlast (frame_starts lh)) = 0"
    using assms False by (cases "frame_starts lh") (auto simp: local_inv_def split: if_splits)
  show ?thesis unfolding eq local_inv_def
    using assms len nth pre skip srt srt2 le st0 hd0 skip_retired_bounds [OF pre]
    by (auto simp: local_inv_def next_serial_le)
qed

lemma pop_frame_get:
  assumes "local_inv lh" and "frame_starts lh \<noteq> []" and "h \<noteq> 0"
  shows "local_get (snd (pop_frame lh)) h =
    (if unat (handle_index h) < last (frame_starts lh) then local_get lh h else None)"
proof -
  have le: "last (frame_starts lh) \<le> length (refs lh)" "length (refs lh) \<le> length (serials lh)"
    using assms by (simp_all add: local_inv_def)
  then show ?thesis
    using assms(2,3)
    by (auto simp: pop_frame_def local_get_def Let_def vec_resize_def nth_fold_bump)
qed

lemma pop_frame_released:
  "frame_starts lh \<noteq> [] \<Longrightarrow>
   fst (pop_frame lh) = filter (\<lambda>r. r \<noteq> 0) (drop (last (frame_starts lh)) (refs lh))"
  by (simp add: pop_frame_def Let_def)

lemma local_addE:
  assumes "local_inv lh" and "local_add r lh = Some (h, lh')" and "r \<noteq> 0"
  obtains index lh1 where
    "local_inv lh1" "\<And>h. local_get lh1 h = local_get lh h" "frame_starts lh1 \<noteq> []"
    "serials lh1 = serials lh" "refs lh1 = refs lh"
    "index < kMaxSlots" "length (refs lh1) \<le> index" "index \<le> length (serials lh1)"
    "index < length (serials lh1) \<Longrightarrow> serials lh1 ! index < kRetiredSerial"
    "h = make_handle Local (of_nat index)
       (ucast (if index < length (serials lh1) then serials lh1 ! index else 0))"
    "lh' = lh1\<lparr>refs := (vec_resize (Suc index) 0 (refs lh1))[index := r],
       serials := (if index < length (serials lh1) then serials lh1 else serials lh1 @ [0])\<rparr>"
proof -
  define lh1 where "lh1 = (if frame_starts lh = [] then push_frame lh else lh)"
  define m where "m = max (length (refs lh1)) (retired_prefix lh1)"
  define index where "index = skip_retired (serials lh1) m"
  have inv1: "local_inv lh1" using assms(1) by (simp add: lh1_def push_frame_inv)
  then have m: "m \<le> length (serials lh1)" by (simp add: local_inv_def m_def)
  have ib: "m \<le> index" "index \<le> length (serials lh1)"
    using skip_retired_bounds [OF m] by (simp_all add: index_def)
  have live: "serials lh1 ! index < kRetiredSerial" if "index < length (serials lh1)"
    using that inv1 skip_retired_stops [of "serials lh1" m]
    by (auto simp: local_inv_def index_def order.strict_iff_order)
  from assms(2,3) have "index < kMaxSlots"
    and "h = make_handle Local (of_nat index)
       (ucast (if index < length (serials lh1) then serials lh1 ! index else 0))"
    and "lh' = lh1\<lparr>refs := (vec_resize (Suc index) 0 (refs lh1))[index := r],
       serials := (if index < length (serials lh1) then serials lh1 else serials lh1 @ [0])\<rparr>"
    by (auto simp: local_add_def Let_def lh1_def [symmetric] m_def [symmetric] index_def [symmetric]
        split: if_splits)
  moreover have "length (refs lh1) \<le> index" using ib(1) by (simp add: m_def)
  moreover have "frame_starts lh1 \<noteq> []" "serials lh1 = serials lh" "refs lh1 = refs lh"
    by (simp_all add: lh1_def push_frame_def)
  moreover have "local_get lh1 h = local_get lh h" for h by (simp add: lh1_def)
  ultimately show ?thesis using that inv1 ib live by blast
qed

lemma kMaxSlots_less: "i < kMaxSlots \<Longrightarrow> unat (of_nat i :: u32) = i"
  by (rule unat_eq_of_nat) (simp add: kMaxSlots_def)

lemma local_add_inv:
  assumes "local_inv lh" and "local_add r lh = Some (h, lh')"
  shows "local_inv lh'"
proof (cases "r = 0")
  case True
  with assms show ?thesis by (simp add: local_add_def)
next
  case False
  from assms False show ?thesis
    by (rule local_addE)
      (auto simp: local_inv_def nth_list_update nth_vec_resize nth_append less_Suc_eq
        kRetiredSerial_def)
qed

lemma other_handle_serial:
  assumes "handle_kind k = handle_kind h" and "handle_kind h \<noteq> None"
    and "unat (handle_index k) = unat (handle_index h)" and "k \<noteq> h"
  shows "handle_serial k \<noteq> handle_serial h"
  using assms handle_eqI [of k h] by (auto simp: word_unat_eq_iff)

lemma local_add_slot:
  assumes "local_inv lh" and "local_add r lh = Some (h, lh')" and "r \<noteq> 0"
  obtains index where "handle_kind h = Some Local" "unat (handle_index h) = index"
    "length (refs lh) \<le> index" "length (refs lh') = Suc index" "index \<le> length (serials lh)"
    "handle_serial h = ucast (serials lh' ! index)"
    "\<And>i. i < length (refs lh') \<Longrightarrow>
       refs lh' ! i = (if i = index then r else if i < length (refs lh) then refs lh ! i else 0)"
    "length (serials lh) \<le> length (serials lh')"
    "\<And>i. i < length (serials lh) \<Longrightarrow> serials lh' ! i = serials lh ! i"
proof -
  from assms obtain index lh1 where *:
    "serials lh1 = serials lh" "refs lh1 = refs lh"
    "index < kMaxSlots" "length (refs lh1) \<le> index" "index \<le> length (serials lh1)"
    "index < length (serials lh1) \<Longrightarrow> serials lh1 ! index < kRetiredSerial"
    "h = make_handle Local (of_nat index)
       (ucast (if index < length (serials lh1) then serials lh1 ! index else 0))"
    "lh' = lh1\<lparr>refs := (vec_resize (Suc index) 0 (refs lh1))[index := r],
       serials := (if index < length (serials lh1) then serials lh1 else serials lh1 @ [0])\<rparr>"
    by (rule local_addE) blast
  have ser: "serials lh' ! index = (if index < length (serials lh) then serials lh ! index else 0)"
    using * by (auto simp: nth_append)
  then have "serials lh' ! index < kRetiredSerial" using * by (auto simp: kRetiredSerial_def)
  then have "handle_serial h = ucast (serials lh' ! index)"
    using * ser by (simp add: handle_serial_make ucast_serial_less)
  moreover have "unat (handle_index h) = index" "handle_kind h = Some Local"
    using * by (simp_all add: handle_index_make kMaxSlots_less)
  ultimately show ?thesis
    using that [of index] * by (simp add: nth_append nth_list_update nth_vec_resize)
qed

lemma local_add_get:
  assumes "local_inv lh" and "local_add r lh = Some (h, lh')" and "r \<noteq> 0"
  shows "local_get lh h = None"
    and "local_get lh' k = (if k = h then Some r else local_get lh k)"
proof -
  from assms obtain index where *: "handle_kind h = Some Local" "unat (handle_index h) = index"
    "length (refs lh) \<le> index" "length (refs lh') = Suc index" "index \<le> length (serials lh)"
    "handle_serial h = ucast (serials lh' ! index)"
    "\<And>i. i < length (refs lh') \<Longrightarrow>
       refs lh' ! i = (if i = index then r else if i < length (refs lh) then refs lh ! i else 0)"
    "\<And>i. i < length (serials lh) \<Longrightarrow> serials lh' ! i = serials lh ! i"
    by (rule local_add_slot) blast
  have nz: "h \<noteq> 0" using *(1) by (rule handle_nonzero)
  then show "local_get lh h = None" using * by (simp add: local_get_def)
  have "local_get lh' h = Some r" using nz * assms(3) by (simp add: local_get_def)
  moreover have "local_get lh' k = local_get lh k"
    if "k \<noteq> h" and "handle_kind k = Some Local" and "unat (handle_index k) = index"
  proof -
    have "handle_serial k \<noteq> handle_serial h" using that *(1,2) by (intro other_handle_serial) auto
    then show ?thesis using that * handle_nonzero [OF that(2)] by (simp add: local_get_def)
  qed
  moreover have "local_get lh' k = local_get lh k"
    if "handle_kind k \<noteq> Some Local \<or> unat (handle_index k) \<noteq> index"
    using that * by (auto simp: local_get_def Let_def split: if_splits)
  ultimately show "local_get lh' k = (if k = h then Some r else local_get lh k)" by metis
qed

lemma local_removeE:
  assumes "local_inv lh" and "h \<noteq> 0" and "local_get lh h = Some r"
  obtains index n where "unat (handle_index h) = index" "index < length (refs lh)"
    "n \<le> length (refs lh)" "frame_starts lh \<noteq> []" "last (frame_starts lh) \<le> n"
    "\<And>i. n \<le> i \<Longrightarrow> i < length (refs lh) \<Longrightarrow> i \<noteq> index \<Longrightarrow> refs lh ! i = 0"
    "serials lh ! index < kRetiredSerial" "index < length (serials lh)"
    "local_remove h lh = (Some r, lh\<lparr>refs := take n ((refs lh)[index := 0]),
       serials := (serials lh)[index := next_serial (serials lh ! index)]\<rparr>)"
proof -
  let ?i = "unat (handle_index h)"
  have i: "?i < length (refs lh)" "refs lh ! ?i = r" "r \<noteq> 0"
    using assms(2,3) by (simp_all add: local_get_iff)
  then have fs: "frame_starts lh \<noteq> []" using assms(1) by (auto simp: local_inv_def)
  obtain n where n: "pop_zeros (last (frame_starts lh)) ((refs lh)[?i := 0]) = take n ((refs lh)[?i := 0])"
    "n \<le> length (refs lh)" "last (frame_starts lh) \<le> length (refs lh) \<longrightarrow> last (frame_starts lh) \<le> n"
    "\<forall>j. n \<le> j \<and> j < length (refs lh) \<longrightarrow> (refs lh)[?i := 0] ! j = 0"
    using pop_zeros_take [of "last (frame_starts lh)" "(refs lh)[?i := 0]"] by auto
  have s: "?i < length (serials lh)" "serials lh ! ?i < kRetiredSerial"
    using assms(1) i by (auto simp: local_inv_def)
  have "local_remove h lh = (Some r, lh\<lparr>refs := take n ((refs lh)[?i := 0]),
       serials := (serials lh)[?i := next_serial (serials lh ! ?i)]\<rparr>)"
    using assms(2,3) fs n(1) s(1) by (simp add: local_remove_def Let_def bump_serial_alt)
  moreover have "last (frame_starts lh) \<le> n" using n(3) local_inv_last_start [OF assms(1) fs] by simp
  moreover have "refs lh ! j = 0" if "n \<le> j" "j < length (refs lh)" "j \<noteq> ?i" for j
    using n(4) that by (metis nth_list_update_neq)
  ultimately show ?thesis using that i(1) s n(2) fs by blast
qed

lemma local_remove_none:
  "h \<noteq> 0 \<Longrightarrow> local_get lh h = None \<Longrightarrow> local_remove h lh = (None, lh)"
  by (simp add: local_remove_def)

lemma local_remove_inv:
  assumes "local_inv lh"
  shows "local_inv (snd (local_remove h lh))"
proof (cases "h = 0 \<or> local_get lh h = None")
  case True
  then show ?thesis using assms by (auto simp: local_remove_def)
next
  case False
  then obtain r where "h \<noteq> 0" "local_get lh h = Some r" by auto
  then obtain index n where *: "unat (handle_index h) = index" "index < length (refs lh)"
    "n \<le> length (refs lh)" "frame_starts lh \<noteq> []" "last (frame_starts lh) \<le> n"
    "serials lh ! index < kRetiredSerial" "index < length (serials lh)"
    "local_remove h lh = (Some r, lh\<lparr>refs := take n ((refs lh)[index := 0]),
       serials := (serials lh)[index := next_serial (serials lh ! index)]\<rparr>)"
    using local_removeE [OF assms] by metis
  have "\<forall>s \<in> set (frame_starts lh). s \<le> n"
    using *(5) assms sorted_le_last by (fastforce simp: local_inv_def)
  moreover have "next_serial (serials lh ! index) \<le> kRetiredSerial"
    using *(6) by (simp add: next_serial_le)
  ultimately show ?thesis using assms * by (auto simp: local_inv_def nth_list_update)
qed

lemma local_remove_get:
  assumes "local_inv lh" and "h \<noteq> 0" and "local_get lh h = Some r"
  shows "fst (local_remove h lh) = Some r"
    and "local_get (snd (local_remove h lh)) k = (if k = h then None else local_get lh k)"
proof -
  from assms obtain index n where *: "unat (handle_index h) = index" "index < length (refs lh)"
    "n \<le> length (refs lh)"
    "\<And>i. n \<le> i \<Longrightarrow> i < length (refs lh) \<Longrightarrow> i \<noteq> index \<Longrightarrow> refs lh ! i = 0"
    "local_remove h lh = (Some r, lh\<lparr>refs := take n ((refs lh)[index := 0]),
       serials := (serials lh)[index := next_serial (serials lh ! index)]\<rparr>)"
    by (rule local_removeE) blast
  have kind: "handle_kind h = Some Local" "handle_serial h = ucast (serials lh ! index)"
    using assms(2,3) * by (simp_all add: local_get_iff)
  show "fst (local_remove h lh) = Some r" using * by simp
  have "local_get (snd (local_remove h lh)) k = None"
    if "handle_kind k = Some Local" "unat (handle_index k) = index"
    using that * handle_nonzero [OF that(1)] by (auto simp: local_get_def not_le)
  moreover have "local_get lh k = None"
    if "k \<noteq> h" "handle_kind k = Some Local" "unat (handle_index k) = index"
  proof -
    have "handle_serial k \<noteq> handle_serial h" using that kind *(1) by (intro other_handle_serial) auto
    then show ?thesis using that kind handle_nonzero [OF that(2)] by (simp add: local_get_def)
  qed
  moreover have "local_get (snd (local_remove h lh)) k = local_get lh k"
    if "handle_kind k \<noteq> Some Local \<or> unat (handle_index k) \<noteq> index"
    using that * by (cases "unat (handle_index k) < n") (auto simp: local_get_def Let_def)
  ultimately show "local_get (snd (local_remove h lh)) k = (if k = h then None else local_get lh k)"
    using kind *(1) by metis
qed

section \<open>Local references never come back\<close>

inductive local_step :: "local_handles \<Rightarrow> local_handles \<Rightarrow> bool" where
  step_push: "local_step lh (push_frame lh)"
| step_pop: "local_step lh (snd (pop_frame lh))"
| step_add: "local_add r lh = Some (h, lh') \<Longrightarrow> local_step lh lh'"
| step_remove: "local_step lh (snd (local_remove h lh))"

definition local_spent :: "local_handles \<Rightarrow> u32 \<Rightarrow> bool" where
  "local_spent lh h \<longleftrightarrow> handle_kind h = Some Local \<and> unat (handle_index h) < length (serials lh) \<and>
     unat (handle_serial h) < unat (serials lh ! unat (handle_index h))"

definition serials_grow :: "u16 list \<Rightarrow> u16 list \<Rightarrow> bool" where
  "serials_grow ss ts \<longleftrightarrow> length ss \<le> length ts \<and> (\<forall>i < length ss. unat (ss ! i) \<le> unat (ts ! i))"

lemma serials_grow_refl [simp]: "serials_grow ss ss"
  by (simp add: serials_grow_def)

lemma pop_frame_serials:
  assumes "local_inv lh" and "i < length (serials lh)" and "frame_starts lh \<noteq> []"
  shows "serials (snd (pop_frame lh)) ! i =
    (if last (frame_starts lh) \<le> i \<and> i < length (refs lh) then next_serial (serials lh ! i)
     else serials lh ! i)"
    and "length (serials (snd (pop_frame lh))) = length (serials lh)"
  using assms nth_fold_bump [of "last (frame_starts lh)" "length (refs lh)" "serials lh" i]
  by (simp_all add: pop_frame_def Let_def local_inv_def)

lemma local_step_inv: "local_inv lh \<Longrightarrow> local_step lh lh' \<Longrightarrow> local_inv lh'"
  by (erule local_step.cases) (auto intro: push_frame_inv pop_frame_inv local_add_inv local_remove_inv)

lemma local_step_serials:
  assumes "local_step lh lh'" and "local_inv lh"
  shows "serials_grow (serials lh) (serials lh')"
  using assms
proof cases
  case step_push
  then show ?thesis by (simp add: push_frame_def)
next
  case step_pop
  then show ?thesis
    using pop_frame_serials [OF assms(2)]
    by (cases "frame_starts lh = []")
      (auto simp: serials_grow_def next_serial_ge pop_frame_def Let_def)
next
  case (step_add r h)
  then show ?thesis
  proof (cases "r = 0")
    case False
    from assms(2) step_add False show ?thesis by (rule local_add_slot) (simp add: serials_grow_def)
  qed (simp add: local_add_def)
next
  case (step_remove h)
  show ?thesis
  proof (cases "h = 0 \<or> local_get lh h = None")
    case True
    then show ?thesis using step_remove by (auto simp: local_remove_def)
  next
    case False
    then obtain r where "h \<noteq> 0" "local_get lh h = Some r" by auto
    with assms(2) show ?thesis
      by (rule local_removeE)
        (auto simp: step_remove serials_grow_def nth_list_update next_serial_ge)
  qed
qed

lemma local_spent_grow:
  "serials_grow (serials lh) (serials lh') \<Longrightarrow> local_spent lh h \<Longrightarrow> local_spent lh' h"
  by (fastforce simp: serials_grow_def local_spent_def)

lemma local_spent_get: "local_spent lh h \<Longrightarrow> local_get lh h = None"
proof -
  assume a: "local_spent lh h"
  then have "handle_serial h \<noteq> ucast (serials lh ! unat (handle_index h))"
    by (auto simp: local_spent_def word_nat)
  moreover have "h \<noteq> 0" using a handle_nonzero by (auto simp: local_spent_def)
  ultimately show ?thesis by (simp add: local_get_def Let_def)
qed

text \<open>A live handle whose slot's serial moves on has been spent.\<close>

lemma local_spentI:
  assumes "local_inv lh" and "h \<noteq> 0" and "local_get lh h = Some r"
    and "length (serials lh') = length (serials lh)"
    and "serials lh' ! unat (handle_index h) = next_serial (serials lh ! unat (handle_index h))"
  shows "local_spent lh' h"
proof -
  let ?i = "unat (handle_index h)"
  have *: "handle_kind h = Some Local" "?i < length (refs lh)" "refs lh ! ?i \<noteq> 0"
    "handle_serial h = ucast (serials lh ! ?i)"
    using assms(2,3) by (auto simp: local_get_iff)
  then have "serials lh ! ?i < kRetiredSerial" "?i < length (serials lh)"
    using assms(1) by (auto simp: local_inv_def)
  then show ?thesis
    using * assms(4,5) by (simp add: local_spent_def unat_next_serial word_nat)
qed

lemma local_live_step:
  assumes "local_inv lh" and "local_step lh lh'" and "h \<noteq> 0" and "local_get lh h = Some r"
  shows "local_get lh' h = Some r \<or> local_spent lh' h"
  using assms(2)
proof cases
  case step_push
  then show ?thesis using assms by simp
next
  case step_pop
  let ?i = "unat (handle_index h)"
  have i: "?i < length (refs lh)" "?i < length (serials lh)"
    using assms by (auto simp: local_get_iff local_inv_def)
  show ?thesis
  proof (cases "frame_starts lh = [] \<or> ?i < last (frame_starts lh)")
    case True
    then have "local_get lh' h = local_get lh h"
      using assms step_pop pop_frame_get [OF assms(1) _ assms(3)]
      by (cases "frame_starts lh = []") (simp_all add: pop_frame_def)
    then show ?thesis using assms(4) by simp
  next
    case False
    then have "local_spent lh' h"
      using i pop_frame_serials [OF assms(1) i(2)] step_pop assms
      by (intro local_spentI [OF assms(1,3,4)]) auto
    then show ?thesis ..
  qed
next
  case (step_add r' k)
  then show ?thesis using assms local_add_get [OF assms(1) step_add]
    by (cases "r' = 0") (auto simp: local_add_def)
next
  case (step_remove k)
  show ?thesis
  proof (cases "k = 0 \<or> local_get lh k = None")
    case True
    then show ?thesis using step_remove assms by (auto simp: local_remove_def)
  next
    case False
    then obtain r' where k: "k \<noteq> 0" "local_get lh k = Some r'" by auto
    show ?thesis
    proof (cases "k = h")
      case True
      from assms(1) k have "local_spent lh' h"
        by (rule local_removeE) (intro local_spentI [OF assms(1,3,4)], auto simp: step_remove True)
      then show ?thesis ..
    next
      case False
      then show ?thesis using local_remove_get(2) [OF assms(1) k] step_remove assms by simp
    qed
  qed
qed

interpretation lt: handle_table local_inv local_step local_get local_spent
  by unfold_locales
    (blast intro: local_step_inv local_step_serials local_spent_grow local_spent_get
      dest: local_live_step)+

section \<open>Global references\<close>

definition global_inv :: "global_handles \<Rightarrow> bool" where
  "global_inv gh \<longleftrightarrow>
     length (grefs gh) = length (gserials gh) \<and> length (gserials gh) \<le> kMaxSlots \<and>
     distinct (gfree gh) \<and>
     (\<forall>i \<in> set (gfree gh). unat i < length (grefs gh) \<and> grefs gh ! unat i = 0 \<and>
        gserials gh ! unat i < kRetiredSerial) \<and>
     (\<forall>i < length (grefs gh). gserials gh ! i \<le> kRetiredSerial) \<and>
     (\<forall>i < length (grefs gh). grefs gh ! i \<noteq> 0 \<longrightarrow> gserials gh ! i < kRetiredSerial) \<and>
     (\<forall>i < length (grefs gh). grefs gh ! i = 0 \<longrightarrow>
        of_nat i \<in> set (gfree gh) \<or> gserials gh ! i = kRetiredSerial)"

lemma global_inv_init: "global_inv (global_init k)"
  by (simp add: global_inv_def global_init_def)

lemma global_get_iff:
  "h \<noteq> 0 \<Longrightarrow> global_get gh h = Some r \<longleftrightarrow>
     handle_kind h = Some (gkind gh) \<and> unat (handle_index h) < length (grefs gh) \<and>
     grefs gh ! unat (handle_index h) = r \<and> r \<noteq> 0 \<and>
     handle_serial h = ucast (gserials gh ! unat (handle_index h))"
  by (auto simp: global_get_def Let_def)

text \<open>Where \<open>add\<close> puts a reference: the last freed slot, or a new one at the end.\<close>

lemma global_addE:
  assumes "global_inv gh" and "global_add r gh = Some (h, gh')" and "r \<noteq> 0"
  obtains index where "handle_kind h = Some (gkind gh)" "unat (handle_index h) = index"
    "gkind gh' = gkind gh" "index < kMaxSlots"
    "handle_serial h = ucast (gserials gh' ! index)" "gserials gh' ! index < kRetiredSerial"
    "index < length (grefs gh) \<and> grefs gh ! index = 0 \<and> grefs gh' = (grefs gh)[index := r] \<and>
       gserials gh' = gserials gh \<and> gfree gh = gfree gh' @ [of_nat index] \<or>
     index = length (grefs gh) \<and> grefs gh' = grefs gh @ [r] \<and> gserials gh' = gserials gh @ [0] \<and>
       gfree gh = [] \<and> gfree gh' = []"
proof (cases "gfree gh = []")
  case False
  let ?i = "last (gfree gh)"
  have "?i \<in> set (gfree gh)" using False by simp
  then have i: "unat ?i < length (grefs gh)" "grefs gh ! unat ?i = 0"
    "gserials gh ! unat ?i < kRetiredSerial" "unat ?i < kMaxSlots"
    using assms(1) by (auto simp: global_inv_def)
  have eq: "h = make_handle (gkind gh) ?i (ucast (gserials gh ! unat ?i))"
    "gh' = gh\<lparr>gfree := butlast (gfree gh), grefs := (grefs gh)[unat ?i := r]\<rparr>"
    using assms(2,3) False by (auto simp: global_add_def Let_def)
  show ?thesis
    using that [of "unat ?i"] False i
    by (simp add: eq handle_index_make handle_serial_make ucast_serial_less)
next
  case True
  let ?n = "length (grefs gh)"
  have n: "?n < kMaxSlots"
    and eq: "h = make_handle (gkind gh) (of_nat ?n) 0"
    "gh' = gh\<lparr>grefs := grefs gh @ [r], gserials := gserials gh @ [0]\<rparr>"
    using assms(2,3) True by (auto simp: global_add_def split: if_splits)
  show ?thesis
    using that [of ?n] True n assms(1)
    by (simp add: eq handle_index_make handle_serial_make kMaxSlots_less global_inv_def
        kRetiredSerial_def nth_append)
qed

lemma of_nat_slot_eq: "i < kMaxSlots \<Longrightarrow> (of_nat i = (w :: u32)) = (i = unat w)"
  by (auto simp: kMaxSlots_less)

lemma global_add_inv:
  assumes "global_inv gh" and "global_add r gh = Some (h, gh')"
  shows "global_inv gh'"
proof (cases "r = 0")
  case True
  with assms show ?thesis by (simp add: global_add_def)
next
  case False
  from assms False obtain index where *: "index < kMaxSlots" "gserials gh' ! index < kRetiredSerial"
    "index < length (grefs gh) \<and> grefs gh ! index = 0 \<and> grefs gh' = (grefs gh)[index := r] \<and>
       gserials gh' = gserials gh \<and> gfree gh = gfree gh' @ [of_nat index] \<or>
     index = length (grefs gh) \<and> grefs gh' = grefs gh @ [r] \<and> gserials gh' = gserials gh @ [0] \<and>
       gfree gh = [] \<and> gfree gh' = []"
    by (rule global_addE) blast
  from *(3) show ?thesis
  proof
    assume a: "index < length (grefs gh) \<and> grefs gh ! index = 0 \<and> grefs gh' = (grefs gh)[index := r] \<and>
       gserials gh' = gserials gh \<and> gfree gh = gfree gh' @ [of_nat index]"
    have "unat i \<noteq> index" if "i \<in> set (gfree gh')" for i
      using a assms(1) that by (auto simp: global_inv_def)
    then show ?thesis using a assms(1) *(1,2) False
      by (auto simp: global_inv_def nth_list_update of_nat_slot_eq kMaxSlots_less)
  next
    assume "index = length (grefs gh) \<and> grefs gh' = grefs gh @ [r] \<and> gserials gh' = gserials gh @ [0] \<and>
       gfree gh = [] \<and> gfree gh' = []"
    then show ?thesis using assms(1) * False
      by (auto simp: global_inv_def nth_append kRetiredSerial_def less_Suc_eq)
  qed
qed

lemma global_add_get:
  assumes "global_inv gh" and "global_add r gh = Some (h, gh')" and "r \<noteq> 0"
  shows "global_get gh h = None"
    and "global_get gh' k = (if k = h then Some r else global_get gh k)"
proof -
  from assms obtain index where *: "handle_kind h = Some (gkind gh)" "unat (handle_index h) = index"
    "gkind gh' = gkind gh" "handle_serial h = ucast (gserials gh' ! index)"
    and cs: "index < length (grefs gh) \<and> grefs gh ! index = 0 \<and> grefs gh' = (grefs gh)[index := r] \<and>
       gserials gh' = gserials gh \<and> gfree gh = gfree gh' @ [of_nat index] \<or>
     index = length (grefs gh) \<and> grefs gh' = grefs gh @ [r] \<and> gserials gh' = gserials gh @ [0] \<and>
       gfree gh = [] \<and> gfree gh' = []"
    by (rule global_addE) blast
  have len: "length (grefs gh) = length (gserials gh)" using assms(1) by (simp add: global_inv_def)
  have nz: "h \<noteq> 0" using *(1) by (rule handle_nonzero)
  then show "global_get gh h = None" using * cs by (auto simp: global_get_def)
  have "global_get gh' h = Some r" using nz * cs len assms(3) by (auto simp: global_get_def nth_append)
  moreover have "global_get gh' k = global_get gh k"
    if "k \<noteq> h" and "handle_kind k = Some (gkind gh)" and "unat (handle_index k) = index"
  proof -
    have "handle_serial k \<noteq> handle_serial h" using that *(1,2) by (intro other_handle_serial) auto
    then show ?thesis using that * cs handle_nonzero [OF that(2)] by (auto simp: global_get_def)
  qed
  moreover have "global_get gh' k = global_get gh k"
    if "handle_kind k \<noteq> Some (gkind gh) \<or> unat (handle_index k) \<noteq> index"
    using that * cs len by (auto simp: global_get_def Let_def nth_append split: if_splits)
  ultimately show "global_get gh' k = (if k = h then Some r else global_get gh k)" by metis
qed

lemma global_removeE:
  assumes "global_inv gh" and "h \<noteq> 0" and "global_get gh h = Some r"
  obtains index where "unat (handle_index h) = index" "index < length (grefs gh)"
    "grefs gh ! index = r" "r \<noteq> 0" "gserials gh ! index < kRetiredSerial"
    "index < length (gserials gh)" "index < kMaxSlots"
    "global_remove h gh = (Some r, gh\<lparr>grefs := (grefs gh)[index := 0],
       gserials := (gserials gh)[index := next_serial (gserials gh ! index)],
       gfree := (if next_serial (gserials gh ! index) < kRetiredSerial
                 then gfree gh @ [of_nat index] else gfree gh)\<rparr>)"
proof -
  let ?i = "unat (handle_index h)"
  have i: "handle_kind h = Some (gkind gh)" "?i < length (grefs gh)" "grefs gh ! ?i = r" "r \<noteq> 0"
    "handle_serial h = ucast (gserials gh ! ?i)"
    using assms(2,3) by (simp_all add: global_get_iff)
  have s: "gserials gh ! ?i < kRetiredSerial" "?i < length (gserials gh)" "?i < kMaxSlots"
    using assms(1) i by (auto simp: global_inv_def)
  show ?thesis
    using that [of ?i] i s assms(2) by (simp add: global_remove_def Let_def next_serial_def)
qed

lemma global_remove_none:
  "h \<noteq> 0 \<Longrightarrow> global_get gh h = None \<Longrightarrow> global_remove h gh = (None, gh)"
  by (auto simp: global_remove_def global_get_def Let_def split: if_splits)

lemma global_remove_idle:
  "h = 0 \<or> global_get gh h = None \<Longrightarrow> snd (global_remove h gh) = gh"
  using global_remove_none [of h gh] by (cases "h = 0") (simp_all add: global_remove_def)

lemma global_remove_inv:
  assumes "global_inv gh"
  shows "global_inv (snd (global_remove h gh))"
proof (cases "h = 0 \<or> global_get gh h = None")
  case True
  then show ?thesis using assms by (simp add: global_remove_idle)
next
  case False
  then obtain r where "h \<noteq> 0" "global_get gh h = Some r" by auto
  with assms obtain index where *: "index < length (grefs gh)"
    "grefs gh ! index = r" "r \<noteq> 0" "gserials gh ! index < kRetiredSerial"
    "index < length (gserials gh)" "index < kMaxSlots"
    "global_remove h gh = (Some r, gh\<lparr>grefs := (grefs gh)[index := 0],
       gserials := (gserials gh)[index := next_serial (gserials gh ! index)],
       gfree := (if next_serial (gserials gh ! index) < kRetiredSerial
                 then gfree gh @ [of_nat index] else gfree gh)\<rparr>)"
    by (rule global_removeE) blast
  have "next_serial (gserials gh ! index) \<le> kRetiredSerial"
    using *(4) by (simp add: next_serial_le)
  moreover have "of_nat index \<notin> set (gfree gh)"
    using assms * by (auto simp: global_inv_def kMaxSlots_less)
  ultimately show ?thesis using assms *
    by (auto simp: global_inv_def nth_list_update kMaxSlots_less of_nat_slot_eq)
qed

lemma global_remove_get:
  assumes "global_inv gh" and "h \<noteq> 0" and "global_get gh h = Some r"
  shows "fst (global_remove h gh) = Some r"
    and "global_get (snd (global_remove h gh)) k = (if k = h then None else global_get gh k)"
proof -
  from assms obtain index where *: "unat (handle_index h) = index" "index < length (grefs gh)"
    "global_remove h gh = (Some r, gh\<lparr>grefs := (grefs gh)[index := 0],
       gserials := (gserials gh)[index := next_serial (gserials gh ! index)],
       gfree := (if next_serial (gserials gh ! index) < kRetiredSerial
                 then gfree gh @ [of_nat index] else gfree gh)\<rparr>)"
    by (rule global_removeE) blast
  have kind: "handle_kind h = Some (gkind gh)" "handle_serial h = ucast (gserials gh ! index)"
    using assms(2,3) * by (simp_all add: global_get_iff)
  show "fst (global_remove h gh) = Some r" using * by simp
  have gone: "global_get (snd (global_remove h gh)) k = None"
    if "handle_kind k = Some (gkind gh)" "unat (handle_index k) = index"
    using that * handle_nonzero [OF that(1)] by (simp add: global_get_def)
  have none: "global_get gh k = None"
    if "k \<noteq> h" "handle_kind k = Some (gkind gh)" "unat (handle_index k) = index"
  proof -
    have "handle_serial k \<noteq> handle_serial h" using that kind *(1) by (intro other_handle_serial) auto
    then show ?thesis using that kind handle_nonzero [OF that(2)] by (simp add: global_get_def)
  qed
  have other: "global_get (snd (global_remove h gh)) k = global_get gh k"
    if "handle_kind k \<noteq> Some (gkind gh) \<or> unat (handle_index k) \<noteq> index"
    using that * by (cases "handle_kind k = Some (gkind gh)") (simp_all add: global_get_def Let_def)
  show "global_get (snd (global_remove h gh)) k = (if k = h then None else global_get gh k)"
  proof (cases "handle_kind k = Some (gkind gh) \<and> unat (handle_index k) = index")
    case True
    then show ?thesis using gone none by simp
  next
    case False
    then show ?thesis using other kind(1) *(1) by auto
  qed
qed

inductive global_step :: "global_handles \<Rightarrow> global_handles \<Rightarrow> bool" where
  gstep_add: "global_add r gh = Some (h, gh') \<Longrightarrow> global_step gh gh'"
| gstep_remove: "global_step gh (snd (global_remove h gh))"

definition global_spent :: "global_handles \<Rightarrow> u32 \<Rightarrow> bool" where
  "global_spent gh h \<longleftrightarrow> handle_kind h = Some (gkind gh) \<and>
     unat (handle_index h) < length (gserials gh) \<and>
     unat (handle_serial h) < unat (gserials gh ! unat (handle_index h))"

lemma global_step_inv: "global_inv gh \<Longrightarrow> global_step gh gh' \<Longrightarrow> global_inv gh'"
  by (erule global_step.cases) (auto intro: global_add_inv global_remove_inv)

lemma global_step_serials:
  assumes "global_step gh gh'" and "global_inv gh"
  shows "serials_grow (gserials gh) (gserials gh') \<and> gkind gh' = gkind gh"
  using assms
proof cases
  case (gstep_add r h)
  then show ?thesis
  proof (cases "r = 0")
    case False
    from assms(2) gstep_add False show ?thesis
      by (rule global_addE) (auto simp: serials_grow_def nth_append)
  qed (simp add: global_add_def)
next
  case (gstep_remove h)
  show ?thesis
  proof (cases "h = 0 \<or> global_get gh h = None")
    case True
    then show ?thesis using gstep_remove by (simp add: global_remove_idle)
  next
    case False
    then obtain r where "h \<noteq> 0" "global_get gh h = Some r" by auto
    with assms(2) show ?thesis
      by (rule global_removeE)
        (auto simp: gstep_remove serials_grow_def nth_list_update next_serial_ge)
  qed
qed

lemma global_spent_step:
  assumes "global_step gh gh'" and "global_inv gh" and "global_spent gh h"
  shows "global_spent gh' h"
  using global_step_serials [OF assms(1,2)] assms(3)
  by (fastforce simp: serials_grow_def global_spent_def)

lemma global_spent_get:
  assumes "global_spent gh h"
  shows "global_get gh h = None"
proof -
  have "handle_serial h \<noteq> ucast (gserials gh ! unat (handle_index h))"
    using assms by (auto simp: global_spent_def word_nat)
  moreover have "h \<noteq> 0" using assms handle_nonzero by (auto simp: global_spent_def)
  ultimately show ?thesis by (simp add: global_get_def Let_def)
qed

lemma global_live_step:
  assumes "global_inv gh" and "global_step gh gh'" and "h \<noteq> 0" and "global_get gh h = Some r"
  shows "global_get gh' h = Some r \<or> global_spent gh' h"
  using assms(2)
proof cases
  case (gstep_add r' k)
  then show ?thesis using assms global_add_get [OF assms(1) gstep_add]
    by (cases "r' = 0") (auto simp: global_add_def)
next
  case (gstep_remove k)
  consider "k = 0 \<or> global_get gh k = None" | "k = h"
    | r' where "k \<noteq> 0" "global_get gh k = Some r'" "k \<noteq> h" by auto
  then show ?thesis
  proof cases
    case 1
    then show ?thesis using gstep_remove assms by (simp add: global_remove_idle)
  next
    case 2
    from assms(1,3,4) have "global_spent gh' h"
      by (rule global_removeE)
        (use assms(3,4) in \<open>auto simp: gstep_remove 2 global_spent_def global_get_iff word_nat
          unat_next_serial\<close>)
    then show ?thesis ..
  next
    case 3
    then show ?thesis using global_remove_get(2) [OF assms(1) 3(1,2)] gstep_remove assms by simp
  qed
qed

interpretation gt: handle_table global_inv global_step global_get global_spent
  by unfold_locales
    (blast intro: global_step_inv global_spent_step global_spent_get dest: global_live_step)+

section \<open>Method and field ids\<close>

definition id_inv :: "id_table \<Rightarrow> bool" where
  "id_inv t \<longleftrightarrow> length (ids t) < 2 ^ 32 \<and> 0 \<notin> set (ids t) \<and> distinct (ids t) \<and>
     (\<forall>k i. id_index t k = Some i \<longleftrightarrow> 0 < unat i \<and> unat i \<le> length (ids t) \<and> ids t ! (unat i - 1) = k)"

lemma id_inv_init: "id_inv id_init"
  by (auto simp: id_inv_def id_init_def)

lemma id_index_None: "id_inv t \<Longrightarrow> id_index t k = None \<Longrightarrow> k \<notin> set (ids t)"
proof
  assume inv: "id_inv t" and none: "id_index t k = None" and "k \<in> set (ids t)"
  then obtain j where j: "j < length (ids t)" "ids t ! j = k" by (auto simp: in_set_conv_nth)
  with inv have "unat (of_nat (Suc j) :: u32) = Suc j"
    by (intro unat_eq_of_nat) (simp add: id_inv_def)
  with inv j have "id_index t k = Some (of_nat (Suc j))" by (simp add: id_inv_def)
  with none show False by simp
qed

lemma unat_next_id: "length (ids t) < 2 ^ 32 - 1 \<Longrightarrow> unat (of_nat (Suc (length (ids t))) :: u32) = Suc (length (ids t))"
  by (rule unat_eq_of_nat) simp

lemma intern_inv:
  assumes "id_inv t" and "length (ids t) < 2 ^ 32 - 1"
  shows "id_inv (snd (intern k t))"
proof (cases "k = 0 \<or> id_index t k \<noteq> None")
  case True
  then show ?thesis using assms by (auto simp: intern_def)
next
  case False
  then have new: "k \<notin> set (ids t)" "k \<noteq> 0" "id_index t k = None" using assms id_index_None by auto
  have eq: "(of_nat (Suc (length (ids t))) = (i :: u32)) = (unat i = Suc (length (ids t)))" for i
    using unat_next_id [OF assms(2)] by (auto simp: word_unat_eq_iff)
  have "((id_index t)(k \<mapsto> of_nat (Suc (length (ids t))))) k' = Some i \<longleftrightarrow>
      0 < unat i \<and> unat i \<le> Suc (length (ids t)) \<and> (ids t @ [k]) ! (unat i - 1) = k'" for k' i
  proof (cases "unat i = Suc (length (ids t))")
    case True
    then show ?thesis using new assms(1) eq by (auto simp: id_inv_def)
  next
    case False
    then show ?thesis using new assms(1) eq [of i]
      by (auto simp: id_inv_def nth_append)
  qed
  then show ?thesis using new assms by (simp add: intern_def id_inv_def Let_def)
qed

lemma intern_get:
  assumes "id_inv t" and "length (ids t) < 2 ^ 32 - 1"
  shows "id_get (snd (intern k t)) (fst (intern k t)) = Some k"
    and "id_get t i = Some v \<Longrightarrow> id_get (snd (intern k t)) i = Some v"
    and "intern k (snd (intern k t)) = (fst (intern k t), snd (intern k t))"
proof -
  note n = unat_next_id [OF assms(2)]
  show "id_get (snd (intern k t)) (fst (intern k t)) = Some k"
    using assms n
    by (auto simp: intern_def id_get_def id_inv_def Let_def nth_append word_unat_eq_iff split: option.splits)
  show "id_get t i = Some v \<Longrightarrow> id_get (snd (intern k t)) i = Some v"
    using unat_gt_0 [of i]
    by (auto simp: intern_def id_get_def Let_def nth_append split: option.splits if_splits)
  show "intern k (snd (intern k t)) = (fst (intern k t), snd (intern k t))"
    by (auto simp: intern_def Let_def split: option.splits)
qed
section \<open>Properties\<close>

lemmas local_reachable_inv = lt.inv_steps [OF _ local_inv_init]
lemmas global_reachable_inv = gt.inv_steps [OF _ global_inv_init]

lemmas local_eval = local_add_def local_remove_def local_get_def pop_frame_def push_frame_def
  local_init_def make_handle_def kind_bits_def handle_kind_def handle_index_def handle_serial_def
  kMaxSlots_def kRetiredSerial_def skip_retired.simps pop_zeros.simps bump_serial_def vec_resize_def
  Let_def

text \<open>
  C4: a local reference handle that has resolved to a host reference and then stopped doing so
  (its frame was popped or it was deleted) never resolves again, whatever the thread does
  afterwards; the slot is retired before its serial number can repeat.
\<close>

theorem local_handle_never_revives:
  assumes "local_step\<^sup>*\<^sup>* local_init s" and "h \<noteq> 0" and "local_get s h = Some r"
    and "local_step\<^sup>*\<^sup>* s t" and "local_get t h \<noteq> Some r" and "local_step\<^sup>*\<^sup>* t u"
  shows "local_get u h = None"
  using lt.no_revival [OF local_reachable_inv [OF assms(1)] assms(2-6)] .

definition local_w1 :: local_handles where
  "local_w1 = \<lparr>refs = [7], serials = [0], frame_starts = [0], retired_prefix = 0\<rparr>"

definition local_w2 :: local_handles where
  "local_w2 = \<lparr>refs = [], serials = [1], frame_starts = [], retired_prefix = 0\<rparr>"

definition local_w3 :: local_handles where
  "local_w3 = \<lparr>refs = [9], serials = [1], frame_starts = [0], retired_prefix = 0\<rparr>"

lemma local_w_add: "local_add 7 local_init = Some (1, local_w1)"
  by (simp add: local_eval local_w1_def)

lemma local_w_pop: "pop_frame local_w1 = ([7], local_w2)"
  by (simp add: local_eval local_w1_def local_w2_def)

lemma local_w_add2: "local_add 9 local_w2 = Some (5, local_w3)"
  by (simp add: local_eval local_w2_def local_w3_def)

lemma local_w_steps: "local_step local_init local_w1" "local_step local_w1 local_w2"
  "local_step local_w2 local_w3"
  using step_add [OF local_w_add] step_pop [of local_w1] step_add [OF local_w_add2]
  by (simp_all add: local_w_pop)

theorem local_handle_never_revives_witness:
  "local_get local_w1 1 = Some 7 \<and> local_get local_w3 1 = None"
proof -
  have a: "local_get local_w1 1 = Some 7" by (simp add: local_eval local_w1_def)
  have b: "local_get local_w2 1 \<noteq> Some 7" by (simp add: local_eval local_w2_def)
  show ?thesis
    using local_handle_never_revives [OF _ _ a _ b] local_w_steps a by auto
qed

text \<open>
  Popping a frame invalidates exactly the handles created in it, leaves the handles of the
  outer frames alone, and returns exactly the host references that were still live in the frame,
  so the caller releases each of them on the host.
\<close>

lemma pop_frame_contract:
  assumes inv: "local_inv s" and "frame_starts s \<noteq> []" and "pop_frame s = (released, t)"
  shows "(\<forall>h. h \<noteq> 0 \<longrightarrow> local_get t h =
            (if unat (handle_index h) < last (frame_starts s) then local_get s h else None)) \<and>
         set released = {r. \<exists>h. h \<noteq> 0 \<and> last (frame_starts s) \<le> unat (handle_index h) \<and>
            local_get s h = Some r}"
proof -
  have rel: "released = filter (\<lambda>r. r \<noteq> 0) (drop (last (frame_starts s)) (refs s))"
    using pop_frame_released [OF assms(2)] assms(3) by simp
  have "\<exists>h. h \<noteq> 0 \<and> last (frame_starts s) \<le> unat (handle_index h) \<and> local_get s h = Some r"
    if "r \<in> set released" for r
  proof -
    from that rel obtain i where i: "last (frame_starts s) \<le> i" "i < length (refs s)" "refs s ! i = r" "r \<noteq> 0"
      by (auto simp: in_set_drop_iff)
    define h where "h = make_handle Local (of_nat i) (ucast (serials s ! i))"
    have "i < kMaxSlots" "serials s ! i < kRetiredSerial" using inv i by (auto simp: local_inv_def)
    then have "unat (handle_index h) = i" "handle_serial h = ucast (serials s ! i)"
      "handle_kind h = Some Local"
      by (simp_all add: h_def handle_index_make handle_serial_make kMaxSlots_less ucast_serial_less)
    then show ?thesis using i handle_nonzero [of h] by (intro exI [of _ h]) (simp add: local_get_def)
  qed
  moreover have "r \<in> set released"
    if "h \<noteq> 0" "last (frame_starts s) \<le> unat (handle_index h)" "local_get s h = Some r" for h r
    using that rel by (auto simp: local_get_iff in_set_drop_iff)
  ultimately show ?thesis using pop_frame_get [OF inv assms(2)] assms(3) by force
qed

text \<open>
  C6: a global (or weak global) reference handle that has been deleted never resolves again,
  although its slot is reused; while it lives it always resolves to the same host reference.
\<close>

theorem global_handle_never_revives:
  assumes "global_step\<^sup>*\<^sup>* (global_init k) s" and "h \<noteq> 0" and "global_get s h = Some r"
    and "global_step\<^sup>*\<^sup>* s t" and "global_get t h \<noteq> Some r" and "global_step\<^sup>*\<^sup>* t u"
  shows "global_get u h = None"
  using gt.no_revival [OF global_reachable_inv [OF assms(1)] assms(2-6)] .

lemmas global_eval = global_add_def global_remove_def global_get_def global_init_def
  make_handle_def kind_bits_def handle_kind_def handle_index_def handle_serial_def
  kMaxSlots_def kRetiredSerial_def Let_def

definition global_w1 :: global_handles where
  "global_w1 = \<lparr>gkind = Global, grefs = [7], gserials = [0], gfree = []\<rparr>"

definition global_w2 :: global_handles where
  "global_w2 = \<lparr>gkind = Global, grefs = [0], gserials = [1], gfree = [0]\<rparr>"

definition global_w3 :: global_handles where
  "global_w3 = \<lparr>gkind = Global, grefs = [9], gserials = [1], gfree = []\<rparr>"

lemma global_w_add: "global_add 7 (global_init Global) = Some (2, global_w1)"
  by (simp add: global_eval global_w1_def)

lemma global_w_remove: "global_remove 2 global_w1 = (Some 7, global_w2)"
  by (simp add: global_eval global_w1_def global_w2_def)

lemma global_w_add2: "global_add 9 global_w2 = Some (6, global_w3)"
  by (simp add: global_eval global_w2_def global_w3_def)

lemma global_w_steps: "global_step (global_init Global) global_w1" "global_step global_w1 global_w2"
  "global_step global_w2 global_w3"
  using gstep_add [OF global_w_add] gstep_remove [of global_w1 2] gstep_add [OF global_w_add2]
  by (simp_all add: global_w_remove)

theorem global_handle_never_revives_witness:
  "global_get global_w1 2 = Some 7 \<and> global_get global_w3 2 = None"
proof -
  have a: "global_get global_w1 2 = Some 7" by (simp add: global_eval global_w1_def)
  have b: "global_get global_w2 2 \<noteq> Some 7" by (simp add: global_eval global_w2_def)
  show ?thesis
    using global_handle_never_revives [OF _ _ a _ b] global_w_steps a by auto
qed

text \<open>
  C17: interning a host method or field id is a round trip: the guest id resolves to the host
  id, interning the same host id again returns the same guest id and changes nothing, and ids
  interned earlier keep resolving to the same host ids.
\<close>

theorem intern_round_trip:
  assumes "id_inv t" and "length (ids t) < 2 ^ 32 - 1" and "intern k t = (i, t')"
  shows "id_inv t' \<and> id_get t' i = Some k \<and> intern k t' = (i, t') \<and>
         (\<forall>j v. id_get t j = Some v \<longrightarrow> id_get t' j = Some v)"
  using intern_inv [OF assms(1,2), of k] intern_get [OF assms(1,2), where k = k] assms(3) by simp

theorem intern_round_trip_witness:
  "intern 77 id_init = (1, \<lparr>ids = [77], id_index = [77 \<mapsto> 1]\<rparr>) \<and>
   id_get \<lparr>ids = [77], id_index = [77 \<mapsto> 1]\<rparr> 1 = Some 77"
proof -
  have a: "intern 77 id_init = (1, \<lparr>ids = [77], id_index = [77 \<mapsto> 1]\<rparr>)"
    by (simp add: intern_def id_init_def)
  show ?thesis using intern_round_trip [OF id_inv_init _ a] a by (simp add: id_init_def)
qed

end
