(* ===== verification/Jni_Reference_Spec.thy ===== *)
theory Jni_Reference_Spec
  imports Jni_Handles
begin

text \<open>
  What JNI promises about references, and that the handle tables of \<open>core/src/jni/handles.cpp\<close> keep
  it.  The specification knows no slots and no serial numbers: it is a stack of frames, each a finite
  map from handles to host references, innermost first.  The events are the calls of a table with
  what they return.  Both tables refine it: the thread's local table with frames, a global table as a
  single frame that is never popped.
\<close>

section \<open>The specification\<close>

datatype ref_event =
    PushFrame
  | PopFrame "u64 set"
  | AddRef u64 u32
  | RemoveRef u32 "u64 option"
  | GetRef u32 "u64 option"

type_synonym ref_frames = "(u32 \<rightharpoonup> u64) list"

fun frames_lookup :: "ref_frames \<Rightarrow> u32 \<Rightarrow> u64 option" where
  "frames_lookup [] h = None"
| "frames_lookup (f # fs) h = (case f h of Some r \<Rightarrow> Some r | None \<Rightarrow> frames_lookup fs h)"

definition resolve :: "ref_frames \<Rightarrow> u32 \<Rightarrow> u64 option" where
  "resolve fs h = (if h = 0 then Some 0 else frames_lookup fs h)"

inductive ref_step :: "ref_frames \<Rightarrow> ref_event \<Rightarrow> ref_frames \<Rightarrow> bool" where
  spec_push: "ref_step fs PushFrame (Map.empty # fs)"
| spec_pop: "ref_step (f # fs) (PopFrame (ran f)) fs"
| spec_pop_none: "ref_step [] (PopFrame {}) []"
| spec_add_null: "ref_step fs (AddRef 0 0) fs"
| spec_add: "r \<noteq> 0 \<Longrightarrow> h \<noteq> 0 \<Longrightarrow> frames_lookup (f # fs) h = None \<Longrightarrow> ref_step (f # fs) (AddRef r h) (f(h \<mapsto> r) # fs)"
| spec_add_first: "r \<noteq> 0 \<Longrightarrow> h \<noteq> 0 \<Longrightarrow> ref_step [] (AddRef r h) [[h \<mapsto> r]]"
| spec_remove: "ref_step fs (RemoveRef h (resolve fs h)) (map (\<lambda>f. f(h := None)) fs)"
| spec_get: "ref_step fs (GetRef h (resolve fs h)) fs"


text \<open>Traces, and the transfer of traces along a simulation.\<close>

inductive trace :: "('s \<Rightarrow> 'e \<Rightarrow> 's \<Rightarrow> bool) \<Rightarrow> 's \<Rightarrow> 'e list \<Rightarrow> 's \<Rightarrow> bool" for step where
  trace_Nil: "trace step s [] s"
| trace_Cons: "step s e t \<Longrightarrow> trace step t es u \<Longrightarrow> trace step s (e # es) u"

locale simulation =
  fixes inv :: "'c \<Rightarrow> bool"
    and cstep :: "'c \<Rightarrow> 'e \<Rightarrow> 'c \<Rightarrow> bool"
    and abs :: "'c \<Rightarrow> 'a"
    and astep :: "'a \<Rightarrow> 'e \<Rightarrow> 'a \<Rightarrow> bool"
  assumes inv_kept: "inv s \<Longrightarrow> cstep s e t \<Longrightarrow> inv t"
    and simulates: "inv s \<Longrightarrow> cstep s e t \<Longrightarrow> astep (abs s) e (abs t)"
begin

lemma traces_refine: "trace cstep s es t \<Longrightarrow> inv s \<Longrightarrow> trace astep (abs s) es (abs t)"
  by (induction rule: trace.induct) (auto intro: trace.intros inv_kept simulates)

end

section \<open>The local table\<close>

inductive local_event :: "local_handles \<Rightarrow> ref_event \<Rightarrow> local_handles \<Rightarrow> bool" where
  ev_push: "local_event lh PushFrame (push_frame lh)"
| ev_pop: "pop_frame lh = (released, lh') \<Longrightarrow> local_event lh (PopFrame (set released)) lh'"
| ev_add: "local_add r lh = Some (h, lh') \<Longrightarrow> local_event lh (AddRef r h) lh'"
| ev_remove: "local_remove h lh = (x, lh') \<Longrightarrow> local_event lh (RemoveRef h x) lh'"
| ev_get: "local_event lh (GetRef h (local_get lh h)) lh"

text \<open>The references with slots \<open>lo \<le> i < hi\<close>, and the frames between the ends \<open>starts\<close> (innermost
  first).\<close>

definition frame_map :: "local_handles \<Rightarrow> nat \<Rightarrow> nat \<Rightarrow> u32 \<rightharpoonup> u64" where
  "frame_map lh lo hi h =
     (if h \<noteq> 0 \<and> lo \<le> unat (handle_index h) \<and> unat (handle_index h) < hi then local_get lh h else None)"

fun frames_of :: "local_handles \<Rightarrow> nat \<Rightarrow> nat list \<Rightarrow> ref_frames" where
  "frames_of lh hi [] = []"
| "frames_of lh hi (lo # starts) = frame_map lh lo hi # frames_of lh lo starts"

definition local_frames :: "local_handles \<Rightarrow> ref_frames" where
  "local_frames lh = frames_of lh kMaxSlots (rev (frame_starts lh))"

lemma handle_index_bound: "unat (handle_index h) < kMaxSlots"
  using unat_less_u32 [of h] by (simp add: handle_index_def kMaxSlots_def word_nat)

lemma frames_of_cong:
  assumes "\<And>h. h \<noteq> 0 \<Longrightarrow> unat (handle_index h) < hi \<Longrightarrow> local_get lh h = local_get lh' h"
    and "sorted (rev starts)" "\<forall>a \<in> set starts. a \<le> hi"
  shows "frames_of lh hi starts = frames_of lh' hi starts"
  using assms
proof (induction starts arbitrary: hi)
  case (Cons lo starts)
  have "frame_map lh lo hi = frame_map lh' lo hi" using Cons.prems(1) by (auto simp: frame_map_def)
  moreover have "frames_of lh lo starts = frames_of lh' lo starts"
    using Cons.prems by (intro Cons.IH) (auto simp: sorted_append)
  ultimately show ?case by simp
qed simp

lemma frames_lookup_of:
  assumes "sorted (rev starts)" "\<forall>a \<in> set starts. a \<le> hi"
  shows "frames_lookup (frames_of lh hi starts) h =
    (if starts \<noteq> [] \<and> h \<noteq> 0 \<and> last starts \<le> unat (handle_index h) \<and> unat (handle_index h) < hi then local_get lh h else None)"
  using assms
proof (induction starts arbitrary: hi)
  case (Cons lo starts)
  then have "frames_lookup (frames_of lh lo starts) h =
    (if starts \<noteq> [] \<and> h \<noteq> 0 \<and> last starts \<le> unat (handle_index h) \<and> unat (handle_index h) < lo then local_get lh h else None)"
    by (intro Cons.IH) (auto simp: sorted_append)
  moreover have "last starts \<le> lo" if "starts \<noteq> []" using Cons.prems(1) that by (auto simp: sorted_append)
  moreover have "lo \<le> hi" using Cons.prems(2) by simp
  ultimately show ?case by (auto simp: frame_map_def split: option.splits)
qed simp

lemma frames_of_remove:
  assumes "\<And>k. k \<noteq> 0 \<Longrightarrow> local_get lh' k = (if k = h then None else local_get lh k)"
  shows "frames_of lh' hi starts = map (\<lambda>f. f(h := None)) (frames_of lh hi starts)"
  by (induction starts arbitrary: hi) (auto simp: frame_map_def assms)

lemma local_inv_starts:
  assumes "local_inv lh"
  shows "sorted (rev (rev (frame_starts lh)))" "\<forall>a \<in> set (rev (frame_starts lh)). a \<le> kMaxSlots"
    "frame_starts lh \<noteq> [] \<Longrightarrow> last (rev (frame_starts lh)) = 0"
  using assms by (auto simp: local_inv_def last_rev)

lemma local_resolve:
  assumes "local_inv lh"
  shows "resolve (local_frames lh) h = local_get lh h"
proof (cases "frame_starts lh = [] \<or> h = 0")
  case True
  then show ?thesis using assms by (auto simp: resolve_def local_frames_def local_get_def local_inv_def)
next
  case False
  then show ?thesis
    using local_inv_starts [OF assms] handle_index_bound [of h]
    by (simp add: resolve_def local_frames_def frames_lookup_of)
qed

lemma live_below_refs: "h \<noteq> 0 \<Longrightarrow> length (refs lh) \<le> unat (handle_index h) \<Longrightarrow> local_get lh h = None"
  by (simp add: local_get_def)

lemma push_frames:
  assumes "local_inv lh"
  shows "local_frames (push_frame lh) = Map.empty # local_frames lh"
proof -
  let ?n = "length (refs lh)" and ?st = "rev (frame_starts lh)"
  have same: "frames_of (push_frame lh) hi starts = frames_of lh hi starts" for hi starts
    by (induction starts arbitrary: hi) (auto simp: frame_map_def)
  have "frame_map lh ?n kMaxSlots = Map.empty" using live_below_refs by (auto simp: frame_map_def)
  moreover have "frames_of lh ?n ?st = frames_of lh kMaxSlots ?st"
  proof (cases ?st)
    case (Cons a as)
    then show ?thesis using handle_index_bound live_below_refs [of _ lh] by (auto simp: frame_map_def not_less intro!: ext)
  qed simp
  moreover have "frame_map (push_frame lh) ?n kMaxSlots = frame_map lh ?n kMaxSlots" by (auto simp: frame_map_def)
  moreover have "rev (frame_starts (push_frame lh)) = ?n # ?st" by (simp add: push_frame_def)
  ultimately show ?thesis by (simp add: local_frames_def same)
qed

lemma pop_frames:
  assumes "local_inv lh" and "frame_starts lh \<noteq> []" and "pop_frame lh = (released, lh')"
  shows "local_frames lh = frame_map lh (last (frame_starts lh)) kMaxSlots # local_frames lh'"
    and "set released = ran (frame_map lh (last (frame_starts lh)) kMaxSlots)"
proof -
  let ?a = "last (frame_starts lh)" and ?st = "rev (butlast (frame_starts lh))"
  have st: "rev (frame_starts lh) = ?a # ?st" using assms(2) by (metis append_butlast_last_id rev.simps(2) rev_rev_ident rev_append append_Cons append_Nil)
  have s': "frame_starts lh' = butlast (frame_starts lh)" using assms(2,3) by (auto simp: pop_frame_def Let_def)
  have get: "h \<noteq> 0 \<Longrightarrow> local_get lh' h = (if unat (handle_index h) < ?a then local_get lh h else None)" for h
    using pop_frame_get [OF assms(1,2)] assms(3) by simp
  have srt: "sorted (rev ?st)" "\<forall>x \<in> set ?st. x \<le> ?a"
    using local_inv_starts(1) [OF assms(1)] unfolding st by (auto simp: sorted_append)
  have "frames_of lh ?a ?st = frames_of lh' ?a ?st" using get srt by (intro frames_of_cong) auto
  also have "\<dots> = frames_of lh' kMaxSlots ?st"
    using get handle_index_bound by (cases ?st) (auto simp: frame_map_def not_less intro!: ext)
  finally show "local_frames lh = frame_map lh ?a kMaxSlots # local_frames lh'" by (simp add: local_frames_def st s')
  show "set released = ran (frame_map lh ?a kMaxSlots)"
    unfolding pop_frame_contract [OF assms, THEN conjunct2] ran_def frame_map_def using handle_index_bound by auto
qed

lemma add_frames:
  assumes "local_inv lh" and "local_add r lh = Some (h, lh')" and "r \<noteq> 0"
  shows "ref_step (local_frames lh) (AddRef r h) (local_frames lh')"
proof -
  define lh1 where "lh1 = (if frame_starts lh = [] then push_frame lh else lh)"
  obtain index where i: "handle_kind h = Some Local" "unat (handle_index h) = index" "length (refs lh) \<le> index"
    using local_add_slot [OF assms] by metis
  have nz: "h \<noteq> 0" using i(1) by (rule handle_nonzero)
  have s': "frame_starts lh' = frame_starts lh1" "frame_starts lh1 \<noteq> []"
    using assms(2,3) by (auto simp: local_add_def Let_def lh1_def push_frame_def split: if_splits)
  have inv1: "local_inv lh1" "refs lh1 = refs lh"
    using assms(1) push_frame_inv [OF assms(1)] by (simp_all add: lh1_def) (simp add: push_frame_def)
  have get: "local_get lh' k = (if k = h then Some r else local_get lh1 k)" for k
    using local_add_get(2) [OF assms] by (simp add: lh1_def)
  let ?a = "last (frame_starts lh1)" and ?st = "rev (butlast (frame_starts lh1))"
  have st: "rev (frame_starts lh1) = ?a # ?st" using s'(2) by (metis append_butlast_last_id rev.simps(2) rev_rev_ident rev_append append_Cons append_Nil)
  have srt: "sorted (rev ?st)" "\<forall>x \<in> set ?st. x \<le> ?a"
    using local_inv_starts(1) [OF inv1(1)] unfolding st by (auto simp: sorted_append)
  have a: "?a \<le> index" using local_inv_last_start [OF inv1(1) s'(2)] i(3) inv1(2) by simp
  have rest: "frames_of lh' ?a ?st = frames_of lh1 ?a ?st" using get srt a i(2) by (intro frames_of_cong) auto
  have hd: "frame_map lh' ?a kMaxSlots = (frame_map lh1 ?a kMaxSlots)(h \<mapsto> r)"
    using get nz a i(2) handle_index_bound [of h] by (auto simp: frame_map_def intro!: ext)
  have fr: "local_frames lh' = (frame_map lh1 ?a kMaxSlots)(h \<mapsto> r) # frames_of lh1 ?a ?st"
    "local_frames lh1 = frame_map lh1 ?a kMaxSlots # frames_of lh1 ?a ?st"
    by (simp_all add: local_frames_def s'(1) st rest hd)
  have "frames_lookup (local_frames lh1) h = None"
    using local_resolve [OF inv1(1), of h] local_add_get(1) [OF assms] nz by (simp add: resolve_def lh1_def split: if_splits)
  then show ?thesis
  proof (cases "frame_starts lh = []")
    case True
    then have e: "local_frames lh = []" by (simp add: local_frames_def)
    have "local_frames lh1 = [Map.empty]" using push_frames [OF assms(1)] True e by (simp add: lh1_def)
    then show ?thesis unfolding e fr(1) using fr(2) assms(3) nz by (simp add: spec_add_first)
  next
    case False
    then have "local_frames lh = local_frames lh1" by (simp add: lh1_def)
    then show ?thesis
      using spec_add [OF assms(3) nz, of "frame_map lh1 ?a kMaxSlots" "frames_of lh1 ?a ?st"]
        \<open>frames_lookup (local_frames lh1) h = None\<close> unfolding fr by metis
  qed
qed

lemma remove_frames:
  assumes "local_inv lh" and "local_remove h lh = (x, lh')"
  shows "x = resolve (local_frames lh) h" "local_frames lh' = map (\<lambda>f. f(h := None)) (local_frames lh)"
proof -
  have "x = local_get lh h \<and> frame_starts lh' = frame_starts lh \<and>
      (\<forall>k. k \<noteq> 0 \<longrightarrow> local_get lh' k = (if k = h then None else local_get lh k))"
  proof (cases "h \<noteq> 0 \<and> local_get lh h \<noteq> None")
    case True
    then obtain r where r: "local_get lh h = Some r" by auto
    have "frame_starts lh' = frame_starts lh" using assms(2) by (auto simp: local_remove_def Let_def split: if_splits option.splits)
    then show ?thesis using local_remove_get [OF assms(1) _ r] True r assms(2) by simp
  next
    case False
    then show ?thesis using assms(2) by (auto simp: local_remove_def local_get_def split: if_splits)
  qed
  then show "x = resolve (local_frames lh) h" "local_frames lh' = map (\<lambda>f. f(h := None)) (local_frames lh)"
    using local_resolve [OF assms(1)] by (simp_all add: local_frames_def frames_of_remove [of lh' h lh])
qed

lemma local_event_inv: "local_inv lh \<Longrightarrow> local_event lh e lh' \<Longrightarrow> local_inv lh'"
  by (erule local_event.cases) (metis push_frame_inv pop_frame_inv local_add_inv local_remove_inv snd_conv)+

lemma local_event_simulates:
  assumes "local_inv lh" and "local_event lh e lh'"
  shows "ref_step (local_frames lh) e (local_frames lh')"
  using assms(2)
proof cases
  case ev_push
  then show ?thesis using push_frames [OF assms(1)] by (simp add: spec_push)
next
  case (ev_pop released)
  show ?thesis
  proof (cases "frame_starts lh = []")
    case True
    then show ?thesis using ev_pop by (auto simp: pop_frame_def local_frames_def spec_pop_none)
  next
    case False
    from pop_frames [OF assms(1) False ev_pop(2)] show ?thesis unfolding ev_pop(1) by (simp add: spec_pop)
  qed
next
  case (ev_add r h)
  then show ?thesis using add_frames [OF assms(1) ev_add(2)] by (cases "r = 0") (auto simp: local_add_def spec_add_null)
next
  case (ev_remove h x)
  then show ?thesis using remove_frames [OF assms(1) ev_remove(2)] spec_remove by simp
next
  case (ev_get h)
  then show ?thesis using spec_get [of "local_frames lh" h] local_resolve [OF assms(1)] by simp
qed

interpretation lr: simulation local_inv local_event local_frames ref_step
  by unfold_locales (auto intro: local_event_inv local_event_simulates)

section \<open>The global tables\<close>

inductive global_event :: "global_handles \<Rightarrow> ref_event \<Rightarrow> global_handles \<Rightarrow> bool" where
  ev_global_add: "global_add r gh = Some (h, gh') \<Longrightarrow> global_event gh (AddRef r h) gh'"
| ev_global_remove: "global_remove h gh = (x, gh') \<Longrightarrow> global_event gh (RemoveRef h x) gh'"
| ev_global_get: "global_event gh (GetRef h (global_get gh h)) gh"

definition global_frames :: "global_handles \<Rightarrow> ref_frames" where
  "global_frames gh = [(global_get gh)(0 := None)]"

lemma global_resolve: "resolve (global_frames gh) h = global_get gh h"
  by (auto simp: resolve_def global_frames_def global_get_def split: option.splits)

lemma global_event_inv: "global_inv gh \<Longrightarrow> global_event gh e gh' \<Longrightarrow> global_inv gh'"
  by (erule global_event.cases) (metis global_add_inv global_remove_inv snd_conv)+

lemma global_event_simulates:
  assumes "global_inv gh" and "global_event gh e gh'"
  shows "ref_step (global_frames gh) e (global_frames gh')"
  using assms(2)
proof cases
  case (ev_global_add r h)
  show ?thesis
  proof (cases "r = 0")
    case True
    then show ?thesis using ev_global_add by (auto simp: global_add_def spec_add_null)
  next
    case False
    note g = global_add_get [OF assms(1) ev_global_add(2) False]
    have "h \<noteq> 0" using g(1) by (auto simp: global_get_def)
    then have "global_frames gh' = [((global_get gh)(0 := None))(h \<mapsto> r)]"
      using g(2) by (auto simp: global_frames_def intro!: ext)
    then show ?thesis using g(1) \<open>h \<noteq> 0\<close> False ev_global_add(1) by (auto simp: global_frames_def intro: spec_add)
  qed
next
  case (ev_global_remove h x)
  have g0: "global_get gh 0 = Some 0" by (simp add: global_get_def)
  consider (null) "h = 0" | (dead) "h \<noteq> 0" "global_get gh h = None" | (live) r where "h \<noteq> 0" "global_get gh h = Some r"
    by (cases "global_get gh h") auto
  then have c: "x = global_get gh h \<and> (\<forall>k. k \<noteq> 0 \<longrightarrow> global_get gh' k = (if k = h then None else global_get gh k))"
  proof cases
    case null
    then have "global_remove h gh = (Some 0, gh)" by (simp add: global_remove_def)
    then show ?thesis using ev_global_remove(2) null g0 by simp
  next
    case dead
    then show ?thesis using ev_global_remove(2) global_remove_none [OF dead] by simp
  next
    case live
    then show ?thesis using global_remove_get [OF assms(1) live] ev_global_remove(2) by simp
  qed
  then have "x = resolve (global_frames gh) h" by (simp add: global_resolve)
  moreover have "global_frames gh' = map (\<lambda>f. f(h := None)) (global_frames gh)"
    using c by (simp add: global_frames_def fun_eq_iff)
  ultimately show ?thesis using ev_global_remove(1) spec_remove by simp
next
  case (ev_global_get h)
  then show ?thesis using spec_get [of "global_frames gh" h] global_resolve by simp
qed

interpretation gr: simulation global_inv global_event global_frames ref_step
  by unfold_locales (auto intro: global_event_inv global_event_simulates)

section \<open>Refinement\<close>

text \<open>
  C9: The local reference table of a thread refines the JNI frames.  Every sequence of calls on a
  fresh table (push and pop of frames, adding, deleting and reading references), with the handles and
  references the calls return, is a run of the specification: a new handle is one that resolves to
  nothing, it is added to the innermost frame, popping a frame returns exactly the references still
  live in it and ends exactly their handles, and deleting or reading answers what the frames hold.
\<close>

theorem local_table_refines_frames:
  assumes "trace local_event local_init es lh"
  shows "trace ref_step [] es (local_frames lh)"
  using lr.traces_refine [OF assms local_inv_init] by (simp add: local_frames_def local_init_def)

lemma local_w_trace: "trace local_event local_init [AddRef 7 1, PopFrame {7}, AddRef 9 5, GetRef 1 None] local_w3"
proof -
  have "local_get local_w3 1 = None" by (simp add: local_eval local_w3_def)
  then have g: "local_event local_w3 (GetRef 1 None) local_w3" using ev_get [of local_w3 1] by simp
  have p: "local_event local_w1 (PopFrame {7}) local_w2" using ev_pop [OF local_w_pop] by simp
  show ?thesis by (intro trace_Cons) (rule ev_add [OF local_w_add] p ev_add [OF local_w_add2] g trace_Nil)+
qed

theorem local_table_refines_frames_witness:
  "trace ref_step [] [AddRef 7 1, PopFrame {7}, AddRef 9 5, GetRef 1 None] (local_frames local_w3)"
  by (rule local_table_refines_frames [OF local_w_trace])

text \<open>
  C16: A global or weak global table refines a single frame of the same specification: new handles
  resolved to nothing before and resolve to their reference afterwards, deletion returns the reference
  and ends exactly that handle, and every read answers what the map holds.
\<close>

theorem global_table_refines_frame:
  assumes "trace global_event (global_init kd) es gh"
  shows "trace ref_step [Map.empty] es (global_frames gh)"
proof -
  have "global_frames (global_init kd) = [Map.empty]" by (auto simp: global_frames_def global_get_def global_init_def intro!: ext)
  then show ?thesis using gr.traces_refine [OF assms global_inv_init] by simp
qed

lemma global_w_trace: "trace global_event (global_init Global) [AddRef 7 2, RemoveRef 2 (Some 7), AddRef 9 6] global_w3"
  by (intro trace_Cons)
    (rule ev_global_add [OF global_w_add] ev_global_remove [OF global_w_remove] ev_global_add [OF global_w_add2] trace_Nil)+

theorem global_table_refines_frame_witness:
  "trace ref_step [Map.empty] [AddRef 7 2, RemoveRef 2 (Some 7), AddRef 9 6] (global_frames global_w3)"
  by (rule global_table_refines_frame [OF global_w_trace])

end
