(* ===== verification/Jni_Names.thy ===== *)
theory Jni_Names
  imports Zb_Prelude
begin

text \<open>
  The pure string functions of the JNI bridge: class names and type descriptors
  (\<open>core/src/jni/descriptor.cpp\<close>), method shorties (\<open>core/src/jni/shorty.cpp\<close>) and the
  decoding of JNI export symbols (\<open>core/src/jni/mangle.cpp\<close>).

  A \<open>std::string_view\<close> with a position is modelled by the suffix that is still to be read; a
  parser returns what it read and the rest, or \<open>None\<close> where the source fails.  The
  specifications are the grammar of method descriptors (a datatype with a printer) and the
  mangling of the JNI specification, section \<open>Resolving Native Method Names\<close>.
\<close>

section \<open>Class names and type descriptors\<close>

fun valid_segments_loop :: "char \<Rightarrow> char \<Rightarrow> char \<Rightarrow> string \<Rightarrow> bool" where
  "valid_segments_loop separator other previous [] = True"
| "valid_segments_loop separator other previous (c # cs) =
     (if c = CHR ''['' \<or> c = CHR '';'' \<or> c = other then False
      else if c = separator \<and> previous = separator then False
      else valid_segments_loop separator other c cs)"

definition valid_segments :: "string \<Rightarrow> char \<Rightarrow> char \<Rightarrow> bool" where
  "valid_segments name separator other =
     (if name = [] \<or> hd name = separator \<or> last name = separator then False
      else valid_segments_loop separator other (CHR 0x00) name)"

definition replace_all :: "string \<Rightarrow> char \<Rightarrow> char \<Rightarrow> string" where
  "replace_all name from to = map (\<lambda>c. if c = from then to else c) name"

definition is_primitive_letter :: "char \<Rightarrow> bool" where
  "is_primitive_letter c \<longleftrightarrow> c \<in> set ''ZBCSIJFD''"

definition jni_binary_class_name :: "string \<Rightarrow> string option" where
  "jni_binary_class_name internal_name =
     (if \<not> valid_segments internal_name (CHR ''/'') (CHR ''.'') then None
      else Some (replace_all internal_name (CHR ''/'') (CHR ''.'')))"

definition kPrimitives :: "(string \<times> string) list" where
  "kPrimitives = [(''boolean'', ''Z''), (''byte'', ''B''), (''char'', ''C''), (''short'', ''S''),
     (''int'', ''I''), (''long'', ''J''), (''float'', ''F''), (''double'', ''D''), (''void'', ''V'')]"

definition jni_type_descriptor :: "string \<Rightarrow> bool \<Rightarrow> string option" where
  "jni_type_descriptor class_name is_primitive =
     (if is_primitive then map_of kPrimitives class_name
      else if class_name = [] then None
      else if hd class_name \<noteq> CHR ''['' then
        (if \<not> valid_segments class_name (CHR ''.'') (CHR ''/'') then None
         else Some (''L'' @ replace_all class_name (CHR ''.'') (CHR ''/'') @ '';''))
      else
        (let dimensions = length (takeWhile (\<lambda>c. c = CHR ''['') class_name);
             element = drop dimensions class_name
         in if element = [] then None
            else if length element = 1 \<and> is_primitive_letter (hd element) then Some class_name
            else if length element < 3 \<or> hd element \<noteq> CHR ''L'' \<or> last element \<noteq> CHR '';'' then None
            else let inner = butlast (tl element)
                 in if \<not> valid_segments inner (CHR ''.'') (CHR ''/'') then None
                    else Some (replicate dimensions (CHR ''['') @ ''L''
                                 @ replace_all inner (CHR ''.'') (CHR ''/'') @ '';'')))"

fun method_parameters :: "string list \<Rightarrow> string \<Rightarrow> string option" where
  "method_parameters [] out = Some out"
| "method_parameters (p # ps) out =
     (if p = [] \<or> p = ''V'' then None else method_parameters ps (out @ p))"

definition jni_method_descriptor :: "string list \<Rightarrow> string \<Rightarrow> string option" where
  "jni_method_descriptor parameters result =
     (if result = [] then None
      else case method_parameters parameters ''('' of
          None \<Rightarrow> None
        | Some out \<Rightarrow> Some (out @ '')'' @ result))"

section \<open>Shorties\<close>

fun has_double :: "char \<Rightarrow> string \<Rightarrow> bool" where
  "has_double c (x # y # s) = (x = c \<and> y = c \<or> has_double c (y # s))"
| "has_double c s = False"

text \<open>The characters \<open>find_first_of\<close> stops at.\<close>

definition ends_name :: "char \<Rightarrow> bool" where
  "ends_name c \<longleftrightarrow> c \<in> set '';()[.''"

text \<open>The class name case of \<open>parse_type\<close>: \<open>rest\<close> starts after the \<open>L\<close>.\<close>

definition parse_class :: "string \<Rightarrow> (char \<times> string) option" where
  "parse_class rest =
     (let name = takeWhile (\<lambda>c. \<not> ends_name c) rest;
          tail = dropWhile (\<lambda>c. \<not> ends_name c) rest
      in if tail = [] \<or> hd tail \<noteq> CHR '';'' then None
         else if name = [] \<or> hd name = CHR ''/'' \<or> last name = CHR ''/'' \<or> has_double (CHR ''/'') name
              then None
         else Some (CHR ''L'', tl tail))"

function parse_type :: "string \<Rightarrow> bool \<Rightarrow> (char \<times> string) option" where
  "parse_type s void_ok =
     (case s of
        [] \<Rightarrow> None
      | c # rest \<Rightarrow>
          if is_primitive_letter c then Some (c, rest)
          else if c = CHR ''V'' then (if \<not> void_ok then None else Some (CHR ''V'', rest))
          else if c = CHR ''L'' then parse_class rest
          else if c = CHR ''['' then
            (if length (takeWhile (\<lambda>c. c = CHR ''['') s) > 255 then None
             else case parse_type (dropWhile (\<lambda>c. c = CHR ''['') s) False of
                 None \<Rightarrow> None
               | Some (_, rest') \<Rightarrow> Some (CHR ''L'', rest'))
          else None)"
  by pat_completeness auto
termination
  by (relation "measure (\<lambda>(s, void_ok). length s)")
    (auto simp: less_Suc_eq_le length_dropWhile_le)

declare parse_type.simps [simp del]

lemma parse_class_shorter: "parse_class rest = Some (t, s') \<Longrightarrow> length s' < length rest"
  using length_dropWhile_le [of "\<lambda>c. \<not> ends_name c" rest]
  by (cases "dropWhile (\<lambda>c. \<not> ends_name c) rest") (auto simp: parse_class_def Let_def split: if_splits)

lemma parse_type_Nil [simp]: "parse_type [] v = None"
  by (simp add: parse_type.simps)

lemma parse_type_Cons:
  "parse_type (c # rest) v =
     (if is_primitive_letter c then Some (c, rest)
      else if c = CHR ''V'' then (if \<not> v then None else Some (CHR ''V'', rest))
      else if c = CHR ''L'' then parse_class rest
      else if c = CHR ''['' then
        (if length (takeWhile (\<lambda>c. c = CHR ''['') (c # rest)) > 255 then None
         else case parse_type (dropWhile (\<lambda>c. c = CHR ''['') (c # rest)) False of
             None \<Rightarrow> None
           | Some (_, rest') \<Rightarrow> Some (CHR ''L'', rest'))
      else None)"
  by (subst parse_type.simps) simp

lemma parse_type_shorter: "parse_type s v = Some (t, s') \<Longrightarrow> length s' < length s"
proof (induction "length s" arbitrary: s v t rule: less_induct)
  case less
  show ?case
  proof (cases s)
    case Nil
    then show ?thesis using less.prems by simp
  next
    case (Cons c rest)
    show ?thesis
    proof (cases "c = CHR ''['' \<and> \<not> is_primitive_letter c")
      case True
      let ?d = "dropWhile (\<lambda>c. c = CHR ''['') s"
      obtain t' where t': "parse_type ?d False = Some (t', s')"
        using less.prems Cons True by (auto simp: parse_type_Cons split: if_splits option.splits)
      have "length ?d < length s"
        using True Cons by (simp add: less_Suc_eq_le length_dropWhile_le)
      then show ?thesis using less.hyps [OF _ t'] by simp
    next
      case False
      then show ?thesis using less.prems Cons
        by (auto simp: parse_type_Cons less_SucI parse_class_shorter split: if_splits)
    qed
  qed
qed

text \<open>The parameter loop of \<open>shorty_from_signature\<close>: it stops at a closing parenthesis or at
  the end, with what is left from there.\<close>

function parse_parameters :: "string \<Rightarrow> string \<Rightarrow> (string \<times> string) option" where
  "parse_parameters s parameters =
     (if s = [] \<or> hd s = CHR '')'' then Some (parameters, s)
      else case parse_type s False of
          None \<Rightarrow> None
        | Some (t, s') \<Rightarrow> parse_parameters s' (parameters @ [t]))"
  by pat_completeness auto
termination
  by (relation "measure (\<lambda>(s, p). length s)") (auto dest: parse_type_shorter)

declare parse_parameters.simps [simp del]

definition shorty_from_signature :: "string \<Rightarrow> string option" where
  "shorty_from_signature signature =
     (if signature = [] \<or> hd signature \<noteq> CHR ''('' then None
      else case parse_parameters (tl signature) [] of
          None \<Rightarrow> None
        | Some (parameters, s) \<Rightarrow>
            (if s = [] then None
             else case parse_type (tl s) True of
                 None \<Rightarrow> None
               | Some (return_type, s') \<Rightarrow>
                   (if s' \<noteq> [] then None else Some ([return_type] @ parameters))))"

section \<open>Export symbols\<close>

definition append_utf8 :: "nat \<Rightarrow> string" where
  "append_utf8 unit =
     (if unit < 0x80 then [char_of unit]
      else if unit < 0x800 then [char_of (0xC0 OR drop_bit 6 unit), char_of (0x80 OR (unit AND 0x3F))]
      else [char_of (0xE0 OR drop_bit 12 unit), char_of (0x80 OR (drop_bit 6 unit AND 0x3F)),
            char_of (0x80 OR (unit AND 0x3F))])"

definition hex_value :: "char \<Rightarrow> nat option" where
  "hex_value c =
     (let n = of_char c :: nat
      in if 48 \<le> n \<and> n \<le> 57 then Some (n - 48)
         else if 97 \<le> n \<and> n \<le> 102 then Some (n - 97 + 10)
         else None)"

definition is_ascii_alnum :: "char \<Rightarrow> bool" where
  "is_ascii_alnum c =
     (let n = of_char c :: nat
      in 65 \<le> n \<and> n \<le> 90 \<or> 97 \<le> n \<and> n \<le> 122 \<or> 48 \<le> n \<and> n \<le> 57)"

definition has_canonical_form :: "nat \<Rightarrow> bool" where
  "has_canonical_form unit =
     (if unit > 0x7F then False
      else let c = char_of unit :: char
           in is_ascii_alnum c \<or> c = CHR ''.'' \<or> c = CHR ''/'' \<or> c = CHR ''_'' \<or> c = CHR '';''
              \<or> c = CHR ''['')"

text \<open>The loop over the four hexadecimal digits of \<open>_0xxxx\<close>.\<close>

fun hex_unit :: "nat \<Rightarrow> string \<Rightarrow> nat option" where
  "hex_unit unit [] = Some unit"
| "hex_unit unit (c # cs) =
     (case hex_value c of None \<Rightarrow> None | Some v \<Rightarrow> hex_unit (unit * 16 + v) cs)"

text \<open>\<open>decode_part s out\<close> returns the decoded text, what is left after it and whether the
  \<open>__\<close> separator was hit.\<close>

function decode_part :: "string \<Rightarrow> string \<Rightarrow> (string \<times> string \<times> bool) option" where
  "decode_part s out =
     (case s of
        [] \<Rightarrow> Some (out, [], False)
      | c # rest \<Rightarrow>
          if c \<noteq> CHR ''_'' then
            (if \<not> is_ascii_alnum c then None else decode_part rest (out @ [c]))
          else
            (case rest of
               [] \<Rightarrow> None
             | e # rest2 \<Rightarrow>
                 if e = CHR ''1'' then decode_part rest2 (out @ ''_'')
                 else if e = CHR ''2'' then decode_part rest2 (out @ '';'')
                 else if e = CHR ''3'' then decode_part rest2 (out @ ''['')
                 else if e = CHR ''0'' then
                   (if length rest2 < 4 then None
                    else case hex_unit 0 (take 4 rest2) of
                        None \<Rightarrow> None
                      | Some unit \<Rightarrow>
                          (if unit = 0 \<or> has_canonical_form unit then None
                           else decode_part (drop 4 rest2) (out @ append_utf8 unit)))
                 else if e = CHR ''_'' then
                   (if rest2 \<noteq> [] \<and> hd rest2 \<in> set ''0123''
                    then decode_part rest (out @ ''/'')
                    else Some (out, rest2, True))
                 else decode_part rest (out @ ''/'')))"
  by pat_completeness auto
termination
  by (relation "measure (\<lambda>(s, out). length s)") auto

declare decode_part.simps [simp del]

record JniExport =
  class_name :: string
  method_name :: string
  arguments :: "string option"

text \<open>\<open>std::string::rfind\<close> of a character: what precedes the last occurrence and what follows.\<close>

definition split_last :: "char \<Rightarrow> string \<Rightarrow> (string \<times> string) option" where
  "split_last c s =
     (let after = takeWhile (\<lambda>x. x \<noteq> c) (rev s);
          before = dropWhile (\<lambda>x. x \<noteq> c) (rev s)
      in if before = [] then None else Some (rev (tl before), rev after))"

definition decode_jni_export :: "string \<Rightarrow> JniExport option" where
  "decode_jni_export symbol =
     (if take 5 symbol \<noteq> ''Java_'' then None
      else case decode_part (drop 5 symbol) [] of
          None \<Rightarrow> None
        | Some (path, rest, separator) \<Rightarrow>
            (if (path \<noteq> [] \<and> hd path = CHR ''/'') \<or> (path \<noteq> [] \<and> last path = CHR ''/'')
                \<or> has_double (CHR ''/'') path \<or> CHR '';'' \<in> set path \<or> CHR ''['' \<in> set path then None
             else case split_last (CHR ''/'') path of
                 None \<Rightarrow> None
               | Some (cls, meth) \<Rightarrow>
                   (if cls = [] \<or> meth = [] then None
                    else if \<not> separator then
                      Some \<lparr>class_name = cls, method_name = meth, arguments = None\<rparr>
                    else case decode_part rest [] of
                        None \<Rightarrow> None
                      | Some (args, _, again) \<Rightarrow>
                          (if again then None
                           else Some \<lparr>class_name = cls, method_name = meth,
                                      arguments = Some (''('' @ args @ '')'')\<rparr>))))"

section \<open>The grammar of method descriptors\<close>

datatype jbase = JPrim char | JClass string
datatype jtype = JType nat jbase
datatype jret = JVoid | JRet jtype

fun render_base :: "jbase \<Rightarrow> string" where
  "render_base (JPrim c) = [c]"
| "render_base (JClass n) = CHR ''L'' # n @ '';''"

fun render_type :: "jtype \<Rightarrow> string" where
  "render_type (JType n b) = replicate n (CHR ''['') @ render_base b"

fun render_ret :: "jret \<Rightarrow> string" where
  "render_ret JVoid = ''V''"
| "render_ret (JRet t) = render_type t"

fun letter_base :: "jbase \<Rightarrow> char" where
  "letter_base (JPrim c) = c"
| "letter_base (JClass n) = CHR ''L''"

fun letter_type :: "jtype \<Rightarrow> char" where
  "letter_type (JType n b) = (if n = 0 then letter_base b else CHR ''L'')"

fun letter_ret :: "jret \<Rightarrow> char" where
  "letter_ret JVoid = CHR ''V''"
| "letter_ret (JRet t) = letter_type t"

definition wf_class :: "string \<Rightarrow> bool" where
  "wf_class n \<longleftrightarrow> n \<noteq> [] \<and> hd n \<noteq> CHR ''/'' \<and> last n \<noteq> CHR ''/'' \<and> \<not> has_double (CHR ''/'') n \<and>
     (\<forall>c \<in> set n. \<not> ends_name c)"

lemma ends_name_semicolon [simp]: "ends_name (CHR '';'')"
  by (simp add: ends_name_def)

lemma not_primitive [simp]:
  "\<not> is_primitive_letter (CHR ''V'')" "\<not> is_primitive_letter (CHR ''L'')"
  "\<not> is_primitive_letter (CHR ''['')" "\<not> is_primitive_letter (CHR '')'')"
  by (simp_all add: is_primitive_letter_def)

fun wf_base :: "jbase \<Rightarrow> bool" where
  "wf_base (JPrim c) = is_primitive_letter c"
| "wf_base (JClass n) = wf_class n"

fun wf_type :: "jtype \<Rightarrow> bool" where
  "wf_type (JType n b) = (n \<le> 255 \<and> wf_base b)"

fun wf_ret :: "jret \<Rightarrow> bool" where
  "wf_ret JVoid = True"
| "wf_ret (JRet t) = wf_type t"

lemma parse_class_iff:
  "parse_class s = Some (l, rest) \<longleftrightarrow> l = CHR ''L'' \<and> (\<exists>n. wf_class n \<and> s = n @ '';'' @ rest)"
proof
  assume a: "parse_class s = Some (l, rest)"
  let ?P = "\<lambda>c. \<not> ends_name c"
  have id: "takeWhile ?P s @ dropWhile ?P s = s" by (rule takeWhile_dropWhile_id)
  have set: "\<forall>c \<in> set (takeWhile ?P s). ?P c" using set_takeWhileD by metis
  have tail: "dropWhile ?P s \<noteq> [] \<and> hd (dropWhile ?P s) = CHR '';'' \<and> rest = tl (dropWhile ?P s)"
    and name: "wf_class (takeWhile ?P s)" and l: "l = CHR ''L''"
    using a set unfolding parse_class_def wf_class_def Let_def by (simp_all split: if_splits)
  then have "dropWhile ?P s = '';'' @ rest" by (cases "dropWhile ?P s") simp_all
  with id name l show "l = CHR ''L'' \<and> (\<exists>n. wf_class n \<and> s = n @ '';'' @ rest)" by metis
next
  assume "l = CHR ''L'' \<and> (\<exists>n. wf_class n \<and> s = n @ '';'' @ rest)"
  then obtain n where n: "wf_class n" "s = n @ '';'' @ rest" "l = CHR ''L''" by blast
  let ?P = "\<lambda>c. \<not> ends_name c"
  have "takeWhile ?P s = n" "dropWhile ?P s = '';'' @ rest"
    using n by (simp_all add: takeWhile_append dropWhile_append wf_class_def)
  then show "parse_class s = Some (l, rest)" using n by (simp add: parse_class_def wf_class_def)
qed

lemma parse_base_iff:
  "s = [] \<or> hd s \<noteq> CHR ''['' \<Longrightarrow>
   parse_type s v = Some (l, rest) \<longleftrightarrow>
     (\<exists>b. wf_base b \<and> s = render_base b @ rest \<and> l = letter_base b) \<or>
     (v \<and> l = CHR ''V'' \<and> s = CHR ''V'' # rest)"
proof (cases s)
  case Nil
  have "render_base b \<noteq> []" for b by (cases b) auto
  then show ?thesis using Nil by auto
next
  case (Cons c s')
  assume "s = [] \<or> hd s \<noteq> CHR ''[''"
  then have c: "c \<noteq> CHR ''[''" using Cons by simp
  have "(\<exists>b. wf_base b \<and> s = render_base b @ rest \<and> l = letter_base b) \<longleftrightarrow>
      (is_primitive_letter c \<and> s' = rest \<and> l = c) \<or> (c = CHR ''L'' \<and> parse_class s' = Some (l, rest))"
  proof
    assume "\<exists>b. wf_base b \<and> s = render_base b @ rest \<and> l = letter_base b"
    then obtain b where "wf_base b" "s = render_base b @ rest" "l = letter_base b" by blast
    then show "(is_primitive_letter c \<and> s' = rest \<and> l = c) \<or> (c = CHR ''L'' \<and> parse_class s' = Some (l, rest))"
      using Cons by (cases b) (auto simp: parse_class_iff)
  next
    assume "(is_primitive_letter c \<and> s' = rest \<and> l = c) \<or> (c = CHR ''L'' \<and> parse_class s' = Some (l, rest))"
    then show "\<exists>b. wf_base b \<and> s = render_base b @ rest \<and> l = letter_base b"
      using Cons by (auto simp: parse_class_iff intro: exI [of _ "JPrim c"] exI [of _ "JClass _"])
  qed
  then show ?thesis using Cons c
    by (auto simp: parse_type_Cons)
qed

lemma render_base_hd: "wf_base b \<Longrightarrow> render_base b \<noteq> [] \<and> hd (render_base b) \<notin> {CHR ''['', CHR '')'', CHR ''V''}"
  by (cases b) auto

lemma parse_type_iff:
  "parse_type s v = Some (l, rest) \<longleftrightarrow>
     (\<exists>t. wf_type t \<and> s = render_type t @ rest \<and> l = letter_type t) \<or>
     (v \<and> l = CHR ''V'' \<and> s = CHR ''V'' # rest)"
proof (cases "s \<noteq> [] \<and> hd s = CHR ''[''")
  case True
  then obtain s0 where s0: "s = CHR ''['' # s0" by (cases s) auto
  let ?P = "\<lambda>c. c = CHR ''[''"
  define n where "n = length (takeWhile ?P s)"
  define d where "d = dropWhile ?P s"
  have tw: "takeWhile ?P s = replicate n (CHR ''['')"
    unfolding n_def by (rule replicate_eqI) (auto dest: set_takeWhileD)
  have sd: "s = replicate n (CHR ''['') @ d"
    unfolding tw [symmetric] d_def by (rule takeWhile_dropWhile_id [symmetric])
  have n0: "n > 0" by (simp add: n_def s0)
  have d: "d = [] \<or> hd d \<noteq> CHR ''[''" using hd_dropWhile [of ?P s] by (auto simp: d_def)
  have eq: "render_type (JType k b) @ rest = s \<longleftrightarrow> k = n \<and> render_base b @ rest = d" if "wf_base b" for k b
  proof
    assume a: "render_type (JType k b) @ rest = s"
    have hb: "render_base b @ rest \<noteq> []" "hd (render_base b @ rest) \<noteq> CHR ''[''"
      using render_base_hd [OF that] by auto
    have "dropWhile ?P (replicate k (CHR ''['') @ render_base b @ rest) = render_base b @ rest"
      using hb by (cases "render_base b @ rest") (auto simp: dropWhile_append)
    moreover have "takeWhile ?P (replicate k (CHR ''['') @ render_base b @ rest) = replicate k (CHR ''['')"
      using hb by (cases "render_base b @ rest") (auto simp: takeWhile_append)
    ultimately show "k = n \<and> render_base b @ rest = d"
      using a unfolding n_def d_def by (metis append_assoc length_replicate render_type.simps)
  next
    assume "k = n \<and> render_base b @ rest = d"
    then show "render_type (JType k b) @ rest = s" by (simp add: sd)
  qed
  have "parse_type s v = Some (l, rest) \<longleftrightarrow> n \<le> 255 \<and> l = CHR ''L'' \<and> (\<exists>l'. parse_type d False = Some (l', rest))"
    unfolding s0 by (simp add: parse_type_Cons n_def d_def s0 split: option.splits)
      (auto)
  also have "\<dots> \<longleftrightarrow> n \<le> 255 \<and> l = CHR ''L'' \<and> (\<exists>b. wf_base b \<and> d = render_base b @ rest)"
    using parse_base_iff [OF d, of False] by auto
  also have "\<dots> \<longleftrightarrow> (\<exists>t. wf_type t \<and> s = render_type t @ rest \<and> l = letter_type t)"
  proof
    assume "n \<le> 255 \<and> l = CHR ''L'' \<and> (\<exists>b. wf_base b \<and> d = render_base b @ rest)"
    then obtain b where "n \<le> 255" "l = CHR ''L''" "wf_base b" "d = render_base b @ rest" by blast
    then show "\<exists>t. wf_type t \<and> s = render_type t @ rest \<and> l = letter_type t"
      using n0 by (intro exI [of _ "JType n b"]) (simp add: sd)
  next
    assume "\<exists>t. wf_type t \<and> s = render_type t @ rest \<and> l = letter_type t"
    then obtain k b where "wf_type (JType k b)" "s = render_type (JType k b) @ rest" "l = letter_type (JType k b)"
      by (metis jtype.exhaust)
    then show "n \<le> 255 \<and> l = CHR ''L'' \<and> (\<exists>b. wf_base b \<and> d = render_base b @ rest)"
      using eq [of b k] n0 by auto
  qed
  finally show ?thesis using s0 by auto
next
  case False
  have "(\<exists>t. wf_type t \<and> s = render_type t @ rest \<and> l = letter_type t) \<longleftrightarrow>
      (\<exists>b. wf_base b \<and> s = render_base b @ rest \<and> l = letter_base b)"
  proof
    assume "\<exists>t. wf_type t \<and> s = render_type t @ rest \<and> l = letter_type t"
    then obtain k b where t: "wf_type (JType k b)" "s = render_type (JType k b) @ rest" "l = letter_type (JType k b)"
      by (metis jtype.exhaust)
    then have "k = 0" using False by (cases k) auto
    then show "\<exists>b. wf_base b \<and> s = render_base b @ rest \<and> l = letter_base b" using t by auto
  next
    assume "\<exists>b. wf_base b \<and> s = render_base b @ rest \<and> l = letter_base b"
    then obtain b where "wf_base b" "s = render_base b @ rest" "l = letter_base b" by blast
    then show "\<exists>t. wf_type t \<and> s = render_type t @ rest \<and> l = letter_type t"
      by (intro exI [of _ "JType 0 b"]) simp
  qed
  then show ?thesis using parse_base_iff [of s v l rest] False by blast
qed

lemma render_type_hd: "wf_type t \<Longrightarrow> render_type t \<noteq> [] \<and> hd (render_type t) \<noteq> CHR '')''"
proof (cases t)
  case (JType n b)
  assume "wf_type t"
  then show ?thesis using JType render_base_hd [of b] by (cases n) auto
qed

lemma parse_parameters_complete:
  "list_all wf_type ts \<Longrightarrow> rest = [] \<or> hd rest = CHR '')'' \<Longrightarrow>
   parse_parameters (concat (map render_type ts) @ rest) acc = Some (acc @ map letter_type ts, rest)"
proof (induction ts arbitrary: acc)
  case Nil
  then show ?case by (subst parse_parameters.simps) simp
next
  case (Cons t ts)
  let ?s = "concat (map render_type (t # ts)) @ rest"
  have "parse_type ?s False = Some (letter_type t, concat (map render_type ts) @ rest)"
    unfolding parse_type_iff using Cons.prems by (intro disjI1 exI [of _ t]) simp
  moreover have "?s \<noteq> []" "hd ?s \<noteq> CHR '')''" using Cons.prems render_type_hd [of t] by auto
  ultimately show ?case
    using Cons.IH [of "acc @ [letter_type t]"] Cons.prems by (subst parse_parameters.simps) simp
qed

lemma parse_parameters_sound:
  "parse_parameters s acc = Some (ps, rest) \<Longrightarrow>
   (rest = [] \<or> hd rest = CHR '')'') \<and>
   (\<exists>ts. list_all wf_type ts \<and> s = concat (map render_type ts) @ rest \<and> ps = acc @ map letter_type ts)"
proof (induction s acc rule: parse_parameters.induct)
  case (1 s acc)
  show ?case
  proof (cases "s = [] \<or> hd s = CHR '')''")
    case True
    then show ?thesis using "1.prems" by (auto simp: parse_parameters.simps [of s] intro: exI [of _ "[]"])
  next
    case False
    then obtain t s' where ts: "parse_type s False = Some (t, s')"
      "parse_parameters s' (acc @ [t]) = Some (ps, rest)"
      using "1.prems" by (auto simp: parse_parameters.simps [of s] split: option.splits)
    from ts(1) obtain ty where ty: "wf_type ty" "s = render_type ty @ s'" "t = letter_type ty"
      unfolding parse_type_iff by blast
    from "1.IH" [OF False ts(1) refl ts(2)] obtain tys where
      "rest = [] \<or> hd rest = CHR '')''" "list_all wf_type tys" "s' = concat (map render_type tys) @ rest"
      "ps = (acc @ [t]) @ map letter_type tys" by blast
    with ty show ?thesis by (intro conjI exI [of _ "ty # tys"]) simp_all
  qed
qed

lemma parse_ret_iff:
  "parse_type s True = Some (l, []) \<longleftrightarrow> (\<exists>r. wf_ret r \<and> s = render_ret r \<and> l = letter_ret r)"
proof -
  have "(\<exists>r. wf_ret r \<and> s = render_ret r \<and> l = letter_ret r) \<longleftrightarrow>
      (\<exists>t. wf_type t \<and> s = render_type t \<and> l = letter_type t) \<or> (l = CHR ''V'' \<and> s = ''V'')"
    by (metis jret.exhaust letter_ret.simps render_ret.simps wf_ret.simps)
  then show ?thesis unfolding parse_type_iff by simp
qed

lemma shorty_complete:
  assumes "list_all wf_type ts" "wf_ret r"
  shows "shorty_from_signature (''('' @ concat (map render_type ts) @ '')'' @ render_ret r) =
     Some (letter_ret r # map letter_type ts)"
proof -
  have "parse_parameters (concat (map render_type ts) @ '')'' @ render_ret r) [] =
      Some (map letter_type ts, '')'' @ render_ret r)"
    using parse_parameters_complete [of ts "'')'' @ render_ret r" "[]"] assms by simp
  moreover have "parse_type (render_ret r) True = Some (letter_ret r, [])"
    using assms unfolding parse_ret_iff by blast
  ultimately show ?thesis by (simp add: shorty_from_signature_def)
qed

text \<open>
  C19: \<open>shorty_from_signature\<close> accepts exactly the method descriptors of the grammar (parameter
  types of at most 255 dimensions, class names with non-empty segments) and returns the return
  letter followed by one letter per parameter.
\<close>

theorem shorty_exact:
  "shorty_from_signature s = Some sh \<longleftrightarrow>
     (\<exists>ts r. list_all wf_type ts \<and> wf_ret r \<and>
        s = ''('' @ concat (map render_type ts) @ '')'' @ render_ret r \<and>
        sh = letter_ret r # map letter_type ts)"
proof
  assume a: "shorty_from_signature s = Some sh"
  then obtain s1 where s1: "s = ''('' @ s1" by (cases s) (auto simp: shorty_from_signature_def split: if_splits)
  from a s1 obtain ps rest where p: "parse_parameters s1 [] = Some (ps, rest)" "rest \<noteq> []"
    by (auto simp: shorty_from_signature_def split: option.splits if_splits)
  then obtain l where l: "parse_type (tl rest) True = Some (l, [])" "sh = l # ps"
    using a s1 by (auto simp: shorty_from_signature_def split: option.splits if_splits)
  from parse_parameters_sound [OF p(1)] p(2) obtain ts where
    ts: "rest = CHR '')'' # tl rest" "list_all wf_type ts" "s1 = concat (map render_type ts) @ rest"
    "ps = map letter_type ts" by (cases rest) auto
  from l(1) obtain r where "wf_ret r" "tl rest = render_ret r" "l = letter_ret r"
    unfolding parse_ret_iff by blast
  with ts l(2) s1 show "\<exists>ts r. list_all wf_type ts \<and> wf_ret r \<and>
      s = ''('' @ concat (map render_type ts) @ '')'' @ render_ret r \<and> sh = letter_ret r # map letter_type ts"
    by (intro exI [of _ ts] exI [of _ r]) (metis append_Cons append_Nil)
qed (use shorty_complete in blast)

section \<open>Class names as lists of segments\<close>

fun join :: "char \<Rightarrow> string list \<Rightarrow> string" where
  "join c [] = []"
| "join c [s] = s"
| "join c (s # t # ss) = s @ c # join c (t # ss)"

definition segments :: "char \<Rightarrow> string list \<Rightarrow> bool" where
  "segments sep segs \<longleftrightarrow> segs \<noteq> [] \<and> (\<forall>s \<in> set segs. s \<noteq> [] \<and> sep \<notin> set s)"

definition stops_name :: "char \<Rightarrow> char \<Rightarrow> bool" where
  "stops_name other c \<longleftrightarrow> c = CHR ''['' \<or> c = CHR '';'' \<or> c = other"

lemma valid_segments_loop_iff:
  "valid_segments_loop sep other p cs \<longleftrightarrow>
     (\<forall>c \<in> set cs. \<not> stops_name other c) \<and> \<not> has_double sep (p # cs)"
proof (induction cs arbitrary: p)
  case (Cons c cs)
  then show ?case unfolding valid_segments_loop.simps stops_name_def [symmetric] by auto
qed simp

lemma has_double_append:
  "c \<notin> set s \<Longrightarrow> has_double c (s @ t) = has_double c t"
proof (induction s)
  case (Cons x s)
  then show ?case by (cases "s @ t") auto
qed simp

lemma join_hd_last:
  "segments sep segs \<Longrightarrow> join sep segs \<noteq> [] \<and> hd (join sep segs) \<noteq> sep \<and> last (join sep segs) \<noteq> sep
     \<and> \<not> has_double sep (join sep segs)"
proof (induction sep segs rule: join.induct)
  case (1 c)
  then show ?case by (simp add: segments_def)
next
  case (2 c s)
  then have "s \<noteq> []" "c \<notin> set s" by (simp_all add: segments_def)
  then show ?case using has_double_append [of c s "[]"] by (auto simp: in_set_conv_nth last_conv_nth hd_conv_nth)
next
  case (3 c s t ss)
  then have s: "s \<noteq> []" "c \<notin> set s" "segments c (t # ss)" by (simp_all add: segments_def)
  then have IH: "join c (t # ss) \<noteq> []" "hd (join c (t # ss)) \<noteq> c" "last (join c (t # ss)) \<noteq> c"
    "\<not> has_double c (join c (t # ss))" using 3 by auto
  have "\<not> has_double c (c # join c (t # ss))" using IH by (cases "join c (t # ss)") auto
  moreover have "hd s \<noteq> c" using s by (cases s) auto
  ultimately show ?case using s IH by (simp add: has_double_append)
qed

lemma split_segments:
  "n \<noteq> [] \<Longrightarrow> hd n \<noteq> sep \<Longrightarrow> last n \<noteq> sep \<Longrightarrow> \<not> has_double sep n \<Longrightarrow>
   \<exists>segs. segments sep segs \<and> n = join sep segs"
proof (induction "length n" arbitrary: n rule: less_induct)
  case less
  show ?case
  proof (cases "sep \<in> set n")
    case False
    then show ?thesis using less.prems by (intro exI [of _ "[n]"]) (simp add: segments_def)
  next
    case True
    then obtain a b where ab: "n = a @ sep # b" "sep \<notin> set a" by (meson split_list_first)
    have a: "a \<noteq> []" using less.prems(2) ab by (cases a) auto
    have "has_double sep (sep # b) = False" using less.prems(4) ab by (simp add: has_double_append)
    moreover have b: "b \<noteq> []" using less.prems(3) ab by (cases b rule: rev_cases) auto
    ultimately have "hd b \<noteq> sep" "\<not> has_double sep b" by (cases b; auto)+
    moreover have "last b \<noteq> sep" using less.prems(3) ab b by simp
    ultimately obtain segs where "segments sep segs" "b = join sep segs"
      using less.hyps [of b] ab b by auto
    then show ?thesis using a ab by (intro exI [of _ "a # segs"]) (cases segs; auto simp: segments_def)
  qed
qed

lemma set_join: "set (join c segs) \<subseteq> insert c (\<Union> (set ` set segs))"
  by (induction c segs rule: join.induct) auto

lemma replace_all_join:
  "(\<forall>s \<in> set segs. a \<notin> set s) \<Longrightarrow> replace_all (join a segs) a b = join b segs"
proof (induction a segs rule: join.induct)
  case (2 c s)
  then show ?case by (auto simp: replace_all_def intro!: map_idI)
next
  case (3 c s t ss)
  then have "map (\<lambda>x. if x = c then b else x) s = s" by (intro map_idI) auto
  then show ?case using 3 by (auto simp: replace_all_def)
qed (simp add: replace_all_def)

definition plain_char :: "char \<Rightarrow> bool" where
  "plain_char c \<longleftrightarrow> c \<notin> set ''/.[;''"

definition plain_segments :: "string list \<Rightarrow> bool" where
  "plain_segments segs \<longleftrightarrow> segs \<noteq> [] \<and> (\<forall>s \<in> set segs. s \<noteq> [] \<and> (\<forall>c \<in> set s. plain_char c))"

lemma four_chars: "x \<notin> set [a, b, c, d] \<longleftrightarrow> x \<noteq> a \<and> \<not> (x = c \<or> x = d \<or> x = b)"
  "x \<notin> set [a, b, c, d] \<longleftrightarrow> x \<noteq> b \<and> \<not> (x = c \<or> x = d \<or> x = a)"
  by auto

lemma plain_char_slash: "plain_char c \<longleftrightarrow> c \<noteq> CHR ''/'' \<and> \<not> stops_name (CHR ''.'') c"
  unfolding plain_char_def stops_name_def by (rule four_chars)

lemma plain_char_dot: "plain_char c \<longleftrightarrow> c \<noteq> CHR ''.'' \<and> \<not> stops_name (CHR ''/'') c"
  unfolding plain_char_def stops_name_def by (rule four_chars)

lemma join_segment_subset: "s \<in> set segs \<Longrightarrow> set s \<subseteq> set (join c segs)"
  by (induction c segs rule: join.induct) auto

lemma valid_segments_iff:
  assumes pc: "\<And>c. plain_char c \<longleftrightarrow> c \<noteq> sep \<and> \<not> stops_name other c"
    and sep: "sep \<noteq> CHR 0x00" "\<not> stops_name other sep"
  shows "valid_segments n sep other \<longleftrightarrow> (\<exists>segs. plain_segments segs \<and> n = join sep segs)"
proof -
  have pl: "plain_segments segs \<longleftrightarrow> segments sep segs \<and> (\<forall>s \<in> set segs. \<forall>c \<in> set s. \<not> stops_name other c)" for segs
    unfolding plain_segments_def segments_def pc by blast
  have vs: "valid_segments n sep other \<longleftrightarrow> n \<noteq> [] \<and> hd n \<noteq> sep \<and> last n \<noteq> sep \<and> \<not> has_double sep n \<and>
      (\<forall>c \<in> set n. \<not> stops_name other c)"
  proof (cases n)
    case (Cons x xs)
    then have "has_double sep (CHR 0x00 # n) = has_double sep n" using sep(1) by simp
    then show ?thesis unfolding valid_segments_def valid_segments_loop_iff by auto
  qed (simp add: valid_segments_def)
  show ?thesis
  proof
    assume "valid_segments n sep other"
    then have n: "n \<noteq> []" "hd n \<noteq> sep" "last n \<noteq> sep" "\<not> has_double sep n"
      "\<forall>c \<in> set n. \<not> stops_name other c" unfolding vs by blast+
    from split_segments [OF n(1-4)] obtain segs where segs: "segments sep segs" "n = join sep segs" by blast
    with n(5) join_segment_subset show "\<exists>segs. plain_segments segs \<and> n = join sep segs" unfolding pl by blast
  next
    assume "\<exists>segs. plain_segments segs \<and> n = join sep segs"
    then obtain segs where segs: "segments sep segs" "n = join sep segs"
      "\<forall>s \<in> set segs. \<forall>c \<in> set s. \<not> stops_name other c" unfolding pl by blast
    have "\<forall>c \<in> set (join sep segs). \<not> stops_name other c" using segs(3) set_join [of sep segs] sep(2) by blast
    then show "valid_segments n sep other"
      unfolding vs using join_hd_last [OF segs(1)] segs(2) by simp
  qed
qed

lemma plain_replace_slash:
  "plain_segments segs \<Longrightarrow> replace_all (join (CHR ''/'') segs) (CHR ''/'') b = join b segs"
  unfolding plain_segments_def plain_char_slash by (intro replace_all_join) blast

lemma plain_replace_dot:
  "plain_segments segs \<Longrightarrow> replace_all (join (CHR ''.'') segs) (CHR ''.'') b = join b segs"
  unfolding plain_segments_def plain_char_dot by (intro replace_all_join) blast

lemma valid_slash: "valid_segments n (CHR ''/'') (CHR ''.'') \<longleftrightarrow> (\<exists>segs. plain_segments segs \<and> n = join (CHR ''/'') segs)"
  by (rule valid_segments_iff [OF plain_char_slash]) (simp_all add: stops_name_def)

lemma valid_dot: "valid_segments n (CHR ''.'') (CHR ''/'') \<longleftrightarrow> (\<exists>segs. plain_segments segs \<and> n = join (CHR ''.'') segs)"
  by (rule valid_segments_iff [OF plain_char_dot]) (simp_all add: stops_name_def)

text \<open>
  \<open>jni_binary_class_name\<close> accepts exactly the internal names made of non-empty segments free
  of dots, brackets and semicolons, and returns the same segments joined by dots.
\<close>

lemma binary_class_name_exact:
  "jni_binary_class_name n = Some out \<longleftrightarrow>
     (\<exists>segs. plain_segments segs \<and> n = join (CHR ''/'') segs \<and> out = join (CHR ''.'') segs)"
  unfolding jni_binary_class_name_def valid_slash using plain_replace_slash by auto

lemma plain_hd:
  assumes "plain_segments segs"
  shows "join (CHR ''.'') segs \<noteq> []" "hd (join (CHR ''.'') segs) \<noteq> CHR ''[''"
proof -
  have s: "segments (CHR ''.'') segs" using assms unfolding plain_segments_def segments_def plain_char_dot by blast
  show ne: "join (CHR ''.'') segs \<noteq> []" using join_hd_last [OF s] by blast
  have "valid_segments (join (CHR ''.'') segs) (CHR ''.'') (CHR ''/'')" using assms unfolding valid_dot by blast
  then have "\<forall>c \<in> set (join (CHR ''.'') segs). \<not> stops_name (CHR ''/'') c"
    unfolding valid_segments_def valid_segments_loop_iff by (simp split: if_splits)
  then show "hd (join (CHR ''.'') segs) \<noteq> CHR ''[''" using ne hd_in_set unfolding stops_name_def by blast
qed

lemma bracket_split:
  assumes "e = [] \<or> hd e \<noteq> c"
  shows "takeWhile (\<lambda>x. x = c) (replicate n c @ e) = replicate n c" "dropWhile (\<lambda>x. x = c) (replicate n c @ e) = e"
  using assms by (induction n; cases e; simp)+

lemma type_descriptor_class:
  "plain_segments segs \<Longrightarrow> jni_type_descriptor (join (CHR ''.'') segs) False =
     Some (render_type (JType 0 (JClass (join (CHR ''/'') segs))))"
  using plain_hd [of segs] valid_dot [of "join (CHR ''.'') segs"] plain_replace_dot [of segs "CHR ''/''"]
  by (auto simp: jni_type_descriptor_def)

lemma type_descriptor_class_array:
  assumes "plain_segments segs" and "0 < n"
  shows "jni_type_descriptor (replicate n (CHR ''['') @ CHR ''L'' # join (CHR ''.'') segs @ '';'') False =
     Some (render_type (JType n (JClass (join (CHR ''/'') segs))))"
proof -
  let ?e = "CHR ''L'' # join (CHR ''.'') segs @ '';''"
  have "takeWhile (\<lambda>x. x = CHR ''['') (replicate n (CHR ''['') @ ?e) = replicate n (CHR ''['')"
    by (rule bracket_split) simp
  moreover have "valid_segments (join (CHR ''.'') segs) (CHR ''.'') (CHR ''/'')" using assms(1) valid_dot by blast
  moreover have "hd (replicate n (CHR ''['') @ ?e) = CHR ''[''" using assms(2) by (cases n) simp_all
  moreover have "join (CHR ''.'') segs \<noteq> []" using plain_hd(1) assms(1) by blast
  moreover have "1 \<le> length (join (CHR ''.'') segs)" using calculation(4) by (cases "join (CHR ''.'') segs") auto
  ultimately show ?thesis
    using plain_replace_dot [OF assms(1), of "CHR ''/''"]
    by (simp add: jni_type_descriptor_def Let_def butlast_append)
qed

lemma type_descriptor_primitive_array:
  assumes "is_primitive_letter p" and "0 < n"
  shows "jni_type_descriptor (replicate n (CHR ''['') @ [p]) False = Some (render_type (JType n (JPrim p)))"
proof -
  have "takeWhile (\<lambda>x. x = CHR ''['') (replicate n (CHR ''['') @ [p]) = replicate n (CHR ''['')"
    using assms(1) by (intro bracket_split) auto
  moreover have "hd (replicate n (CHR ''['') @ [p]) = CHR ''[''" using assms(2) by (cases n) simp_all
  ultimately show ?thesis using assms(1) by (simp add: jni_type_descriptor_def Let_def)
qed


lemma bracket_prefix:
  "hd s = CHR ''['' \<Longrightarrow> s \<noteq> [] \<Longrightarrow> d = length (takeWhile (\<lambda>c. c = CHR ''['') s) \<Longrightarrow>
   0 < d \<and> s = replicate d (CHR ''['') @ drop d s"
proof -
  assume a: "hd s = CHR ''[''" "s \<noteq> []" "d = length (takeWhile (\<lambda>c. c = CHR ''['') s)"
  have "takeWhile (\<lambda>c. c = CHR ''['') s = replicate d (CHR ''['')"
    using a(3) set_takeWhileD [of _ "\<lambda>c. c = CHR ''[''" s] by (metis replicate_eqI)
  moreover have "take d s = takeWhile (\<lambda>c. c = CHR ''['') s" using a(3) takeWhile_eq_take by metis
  ultimately have "s = replicate d (CHR ''['') @ drop d s" using append_take_drop_id [of d s] by simp
  moreover have "0 < d" using a by (cases s) auto
  ultimately show ?thesis by blast
qed

lemma type_descriptor_sound:
  assumes "jni_type_descriptor name False = Some d"
  shows "(\<exists>segs. plain_segments segs \<and> name = join (CHR ''.'') segs
        \<and> d = render_type (JType 0 (JClass (join (CHR ''/'') segs)))) \<or>
     (\<exists>n p. 0 < n \<and> is_primitive_letter p \<and> name = replicate n (CHR ''['') @ [p]
        \<and> d = render_type (JType n (JPrim p))) \<or>
     (\<exists>n segs. 0 < n \<and> plain_segments segs
        \<and> name = replicate n (CHR ''['') @ CHR ''L'' # join (CHR ''.'') segs @ '';''
        \<and> d = render_type (JType n (JClass (join (CHR ''/'') segs))))"
proof -
  have ne: "name \<noteq> []" using assms by (auto simp: jni_type_descriptor_def)
  show ?thesis
  proof (cases "hd name = CHR ''[''")
    case False
    then have "valid_segments name (CHR ''.'') (CHR ''/'')" using assms ne
      by (simp add: jni_type_descriptor_def split: if_splits)
    then obtain segs where "plain_segments segs" "name = join (CHR ''.'') segs" using valid_dot by blast
    then show ?thesis using type_descriptor_class assms by auto
  next
    case True
    define n where "n = length (takeWhile (\<lambda>c. c = CHR ''['') name)"
    obtain e where e: "name = replicate n (CHR ''['') @ e" "e = drop n name" "0 < n"
      using bracket_prefix [OF True ne n_def] by blast
    have d: "(if e = [] then None
            else if length e = 1 \<and> is_primitive_letter (hd e) then Some name
            else if length e < 3 \<or> hd e \<noteq> CHR ''L'' \<or> last e \<noteq> CHR '';'' then None
            else let inner = butlast (tl e)
                 in if \<not> valid_segments inner (CHR ''.'') (CHR ''/'') then None
                    else Some (replicate n (CHR ''['') @ ''L''
                                 @ replace_all inner (CHR ''.'') (CHR ''/'') @ '';'')) = Some d"
      using assms ne True unfolding jni_type_descriptor_def Let_def n_def [symmetric] e(2) [symmetric]
      by (simp only: if_False if_True simp_thms)
    show ?thesis
    proof (cases "length e = 1 \<and> is_primitive_letter (hd e)")
      case True
      then have "e = [hd e]" "is_primitive_letter (hd e)" by (cases e; simp)+
      then show ?thesis using type_descriptor_primitive_array [OF _ e(3)] assms e by (metis option.inject)
    next
      case False
      have e0: "e \<noteq> []" using d by (cases e) simp_all
      have f0: "\<not> (length e < 3 \<or> hd e \<noteq> CHR ''L'' \<or> last e \<noteq> CHR '';'')"
        by (rule ccontr) (use d in \<open>simp only: e0 False not_not if_True if_False option.distinct\<close>)
      then have f: "hd e = CHR ''L''" "last e = CHR '';''" "\<not> length e < 3" by blast+
      have v: "valid_segments (butlast (tl e)) (CHR ''.'') (CHR ''/'')"
        by (rule ccontr) (use d f0 in \<open>simp only: e0 False Let_def not_False_eq_True if_True if_False option.distinct\<close>)
      from v [unfolded valid_dot] obtain segs
        where s: "plain_segments segs" "butlast (tl e) = join (CHR ''.'') segs" by (elim exE conjE)
      have "e = CHR ''L'' # tl e" using f(1,3) by (cases e) auto
      moreover have "tl e \<noteq> []" using f(3) by (cases e) auto
      moreover have "last (tl e) = CHR '';''" using f(2) calculation(2) by (simp add: last_tl)
      moreover have "tl e = butlast (tl e) @ '';''" using calculation(2,3) append_butlast_last_id [of "tl e"] by simp
      ultimately have "e = CHR ''L'' # join (CHR ''.'') segs @ '';''" using s(2) by simp
      then have nm: "name = replicate n (CHR ''['') @ CHR ''L'' # join (CHR ''.'') segs @ '';''" using e(1) by simp
      then have "d = render_type (JType n (JClass (join (CHR ''/'') segs)))"
        using type_descriptor_class_array [OF s(1) e(3)] assms by simp
      with nm s(1) e(3) show ?thesis by blast
    qed
  qed
qed

text \<open>
  C20: \<open>jni_type_descriptor\<close> maps the names \<open>Class.getName\<close> gives to reference types to their
  descriptors and rejects every other string: a class \<open>a.b.C\<close> becomes \<open>La/b/C;\<close>, an array of
  primitives keeps its name and an array of classes keeps its dimensions.
\<close>

theorem type_descriptor_exact:
  "jni_type_descriptor name False = Some d \<longleftrightarrow>
     (\<exists>segs. plain_segments segs \<and> name = join (CHR ''.'') segs
        \<and> d = render_type (JType 0 (JClass (join (CHR ''/'') segs)))) \<or>
     (\<exists>n p. 0 < n \<and> is_primitive_letter p \<and> name = replicate n (CHR ''['') @ [p]
        \<and> d = render_type (JType n (JPrim p))) \<or>
     (\<exists>n segs. 0 < n \<and> plain_segments segs
        \<and> name = replicate n (CHR ''['') @ CHR ''L'' # join (CHR ''.'') segs @ '';''
        \<and> d = render_type (JType n (JClass (join (CHR ''/'') segs))))"
  using type_descriptor_sound type_descriptor_class type_descriptor_class_array
    type_descriptor_primitive_array by blast

lemma method_parameters_rendered:
  "list_all wf_type ts \<Longrightarrow> method_parameters (map render_type ts) out = Some (out @ concat (map render_type ts))"
proof (induction ts arbitrary: out)
  case (Cons t ts)
  obtain n b where t: "t = JType n b" by (cases t)
  have "render_type t \<noteq> []" using render_type_hd Cons.prems by simp
  moreover have "render_type t \<noteq> ''V''"
    using Cons.prems t by (cases b; cases n) auto
  ultimately show ?case using Cons by simp
qed simp

text \<open>
  The two halves of the method lookup fit together: the descriptor \<open>jni_method_descriptor\<close>
  builds from well-formed parameter and result descriptors is accepted by
  \<open>shorty_from_signature\<close>, with one letter per parameter after the letter of the result.
\<close>

lemma method_descriptor_has_shorty:
  assumes "list_all wf_type ts" and "wf_ret r"
  shows "\<exists>d. jni_method_descriptor (map render_type ts) (render_ret r) = Some d
           \<and> shorty_from_signature d = Some (letter_ret r # map letter_type ts)"
proof -
  have "render_ret r \<noteq> []" using assms(2) render_type_hd by (cases r) auto
  then have "jni_method_descriptor (map render_type ts) (render_ret r) =
      Some (''('' @ concat (map render_type ts) @ '')'' @ render_ret r)"
    using method_parameters_rendered [OF assms(1)] by (simp add: jni_method_descriptor_def)
  then show ?thesis using shorty_complete [OF assms] by blast
qed

section \<open>Export symbols invert the mangling of the specification\<close>

definition hex_digit :: "nat \<Rightarrow> char" where
  "hex_digit d = (if d < 10 then char_of (48 + d) else char_of (87 + d))"

definition hex4 :: "nat \<Rightarrow> string" where
  "hex4 u = map hex_digit [u div 4096, u div 256 mod 16, u div 16 mod 16, u mod 16]"

definition mangle_unit :: "nat \<Rightarrow> string" where
  "mangle_unit u =
     (if u < 128 \<and> is_ascii_alnum (char_of u) then [char_of u]
      else if u = 47 then ''_''
      else if u = 95 then ''_1''
      else if u = 59 then ''_2''
      else if u = 91 then ''_3''
      else ''_0'' @ hex4 u)"

definition mangle :: "nat list \<Rightarrow> string" where
  "mangle us = concat (map mangle_unit us)"

definition utf8 :: "nat list \<Rightarrow> string" where
  "utf8 us = concat (map append_utf8 us)"

text \<open>A slash is followed by the first unit of a name, which Java does not let be a digit.\<close>

fun path_ok :: "nat list \<Rightarrow> bool" where
  "path_ok (u # v # us) \<longleftrightarrow> (u = 47 \<longrightarrow> v \<noteq> 47 \<and> v \<notin> {48..51}) \<and> path_ok (v # us)"
| "path_ok [u] \<longleftrightarrow> u \<noteq> 47"
| "path_ok [] \<longleftrightarrow> True"

definition unit_ok :: "nat \<Rightarrow> bool" where
  "unit_ok u \<longleftrightarrow> 0 < u \<and> u < 0x10000 \<and> u \<noteq> 46"

lemma hex_value_digit: "d < 16 \<Longrightarrow> hex_value (hex_digit d) = Some d"
  by (auto simp: hex_value_def hex_digit_def Let_def)

lemma hex_unit_hex4: "u < 0x10000 \<Longrightarrow> hex_unit 0 (hex4 u) = Some u"
proof -
  assume u: "u < 0x10000"
  then have "u div 4096 < 16" by (simp add: div_less_iff_less_mult)
  then have "hex_unit 0 (hex4 u) =
      Some (((u div 4096 * 16 + u div 256 mod 16) * 16 + u div 16 mod 16) * 16 + u mod 16)"
    by (simp add: hex4_def hex_value_digit)
  also have "((u div 4096 * 16 + u div 256 mod 16) * 16 + u div 16 mod 16) * 16 + u mod 16 = u"
    using div_mult2_eq [of u 16 16] div_mult2_eq [of u 256 16] div_mult_mod_eq [of u 16]
      div_mult_mod_eq [of "u div 16" 16] div_mult_mod_eq [of "u div 256" 16] by simp
  finally show ?thesis .
qed

lemma length_hex4 [simp]: "length (hex4 u) = 4"
  by (simp add: hex4_def)

lemma decode_raw:
  "c \<noteq> CHR ''_'' \<Longrightarrow> is_ascii_alnum c \<Longrightarrow> decode_part (c # rest) out = decode_part rest (out @ [c])"
  by (subst decode_part.simps) simp

lemma decode_escape1: "decode_part (CHR ''_'' # CHR ''1'' # rest) out = decode_part rest (out @ ''_'')"
  by (subst decode_part.simps) simp

lemma decode_escape2: "decode_part (CHR ''_'' # CHR ''2'' # rest) out = decode_part rest (out @ '';'')"
  by (subst decode_part.simps) simp

lemma decode_escape3: "decode_part (CHR ''_'' # CHR ''3'' # rest) out = decode_part rest (out @ ''['')"
  by (subst decode_part.simps) simp

lemma decode_escape0:
  assumes "0 < u" "u < 0x10000" "\<not> has_canonical_form u"
  shows "decode_part (CHR ''_'' # CHR ''0'' # hex4 u @ rest) out = decode_part rest (out @ append_utf8 u)"
  by (subst decode_part.simps) (use assms in \<open>simp add: hex_unit_hex4\<close>)

lemma decode_slash:
  assumes "(e \<noteq> CHR ''_'' \<and> e \<notin> set ''0123'') \<or> (e = CHR ''_'' \<and> rest \<noteq> [] \<and> hd rest \<in> set ''0123'')"
  shows "decode_part (CHR ''_'' # e # rest) out = decode_part (e # rest) (out @ ''/'')"
  by (subst decode_part.simps) (use assms in auto)

lemma decode_end: "decode_part [] out = Some (out, [], False)"
  by (subst decode_part.simps) simp

lemma decode_separator:
  "rest = [] \<or> hd rest \<notin> set ''0123'' \<Longrightarrow> decode_part (CHR ''_'' # CHR ''_'' # rest) out = Some (out, rest, True)"
  by (subst decode_part.simps) auto

lemma alnum_not_underscore: "is_ascii_alnum c \<Longrightarrow> c \<noteq> CHR ''_''"
  by (auto simp: is_ascii_alnum_def)

lemma char_of_code:
  "(char_of (46 :: nat) :: char) = CHR ''.''" "(char_of (47 :: nat) :: char) = CHR ''/''"
  "(char_of (95 :: nat) :: char) = CHR ''_''" "(char_of (59 :: nat) :: char) = CHR '';''"
  "(char_of (91 :: nat) :: char) = CHR ''[''"
  by (simp_all add: char_of_def bit_Suc_0_iff)

lemma canonical_cases:
  "u < 128 \<Longrightarrow> has_canonical_form u \<longleftrightarrow> is_ascii_alnum (char_of u) \<or> u \<in> {46, 47, 95, 59, 91}"
proof -
  assume u: "u < 128"
  have "(char_of u = (char_of v :: char)) = (u = v)" if "v < 128" for v :: nat
    using u that by (metis mod_less of_char_of trans_less_add1 numeral_Bit0)
  from this [of 46] this [of 47] this [of 95] this [of 59] this [of 91] u
  show ?thesis by (simp add: has_canonical_form_def char_of_code)
qed

lemma utf8_ascii: "u < 128 \<Longrightarrow> append_utf8 u = [char_of u]"
  by (simp add: append_utf8_def)

lemma decode_unit:
  assumes "unit_ok u" "u \<noteq> 47"
  shows "decode_part (mangle_unit u @ rest) out = decode_part rest (out @ append_utf8 u)"
proof (cases "u < 128 \<and> is_ascii_alnum (char_of u)")
  case True
  then show ?thesis using alnum_not_underscore by (simp add: mangle_unit_def decode_raw utf8_ascii)
next
  case False
  show ?thesis
  proof (cases "u \<in> {95, 59, 91}")
    case True
    with False assms show ?thesis
      by (auto simp: mangle_unit_def utf8_ascii decode_escape1 decode_escape2 decode_escape3 char_of_code)
  next
    case nf: False
    have "\<not> has_canonical_form u"
      using canonical_cases [of u] False nf assms by (cases "u < 128") (auto simp: unit_ok_def has_canonical_form_def)
    moreover have "mangle_unit u = ''_0'' @ hex4 u" using False nf assms by (auto simp: mangle_unit_def)
    ultimately show ?thesis using assms by (simp add: decode_escape0 unit_ok_def)
  qed
qed

text \<open>What a mangled unit can begin with, after a slash.\<close>

lemma mangle_unit_start:
  assumes "unit_ok v" "v \<noteq> 47" "v \<notin> {48..51}"
  shows "\<exists>e r. mangle_unit v @ rest = e # r \<and>
     ((e \<noteq> CHR ''_'' \<and> e \<notin> set ''0123'') \<or> (e = CHR ''_'' \<and> r \<noteq> [] \<and> hd r \<in> set ''0123''))"
proof (cases "v < 128 \<and> is_ascii_alnum (char_of v)")
  case True
  have "(of_char (char_of v :: char) :: nat) = v" using True by simp
  moreover have "(of_char c :: nat) \<in> {48..51}" if "c \<in> set ''0123''" for c :: char using that by auto
  ultimately have "char_of v \<notin> set ''0123''" using assms(3) by metis
  then show ?thesis using True alnum_not_underscore by (simp add: mangle_unit_def)
qed (use assms in \<open>auto simp: mangle_unit_def\<close>)

lemma decode_mangle:
  assumes "path_ok us" "\<forall>u \<in> set us. unit_ok u"
  shows "decode_part (mangle us @ rest) out = decode_part rest (out @ utf8 us)"
  using assms
proof (induction us arbitrary: out rule: path_ok.induct)
  case (1 u v us)
  have ok: "path_ok (v # us)" "\<forall>x \<in> set (v # us). unit_ok x" using 1 by auto
  show ?case
  proof (cases "u = 47")
    case False
    then show ?thesis using "1.IH" [OF ok] decode_unit [of u] "1.prems"
      by (simp add: mangle_def utf8_def)
  next
    case True
    then have v: "v \<noteq> 47" "v \<notin> {48..51}" "unit_ok v" using "1.prems" by auto
    from mangle_unit_start [OF v(3,1,2)] obtain e r where er: "mangle_unit v @ mangle us @ rest = e # r"
      "(e \<noteq> CHR ''_'' \<and> e \<notin> set ''0123'') \<or> (e = CHR ''_'' \<and> r \<noteq> [] \<and> hd r \<in> set ''0123'')" by blast
    have m: "mangle_unit 47 = ''_''" "append_utf8 47 = ''/''"
      by (simp_all add: mangle_unit_def is_ascii_alnum_def append_utf8_def char_of_code)
    have "decode_part (mangle (u # v # us) @ rest) out = decode_part (CHR ''_'' # e # r) out"
      using True er(1) m by (simp add: mangle_def)
    also have "\<dots> = decode_part (mangle (v # us) @ rest) (out @ ''/'')"
      using decode_slash [OF er(2)] er(1) by (simp add: mangle_def)
    also have "\<dots> = decode_part rest (out @ utf8 (u # v # us))"
      using "1.IH" [OF ok] True m by (simp add: utf8_def)
    finally show ?thesis .
  qed
next
  case (2 u)
  then show ?case using decode_unit [of u] by (simp add: mangle_def utf8_def)
qed (simp add: mangle_def utf8_def)


lemma utf8_high: "\<lbrakk>128 \<le> u; c \<in> set (append_utf8 u)\<rbrakk> \<Longrightarrow> digit7 c"
  by (auto simp: append_utf8_def char_of_def bit_or_iff bit_Suc_0_iff split: if_splits)

lemma utf8_mem:
  assumes "\<not> digit7 c" "c \<in> set (utf8 us)"
  shows "of_char c \<in> set us"
proof -
  obtain u where u: "u \<in> set us" "c \<in> set (append_utf8 u)" using assms(2) by (auto simp: utf8_def)
  then have "u < 128" using utf8_high assms(1) not_le by blast
  then show ?thesis using u by (simp add: utf8_ascii)
qed

lemma utf8_append [simp]: "utf8 (us @ vs) = utf8 us @ utf8 vs"
  by (simp add: utf8_def)

lemma utf8_Cons: "utf8 (u # us) = append_utf8 u @ utf8 us"
  by (simp add: utf8_def)

lemma append_utf8_ne [simp]: "append_utf8 u \<noteq> []"
  by (simp add: append_utf8_def)

lemma utf8_ne: "us \<noteq> [] \<Longrightarrow> utf8 us \<noteq> []"
  by (cases us) (simp_all add: utf8_def)

lemma no_slash_unit: "u \<noteq> 47 \<Longrightarrow> CHR ''/'' \<notin> set (append_utf8 u)"
  using utf8_mem [of "CHR ''/''" "[u]"] by (auto simp: utf8_def)

lemma unit_ends: "u \<noteq> 47 \<Longrightarrow> hd (append_utf8 u) \<noteq> CHR ''/''" "u \<noteq> 47 \<Longrightarrow> last (append_utf8 u) \<noteq> CHR ''/''"
  using no_slash_unit hd_in_set last_in_set append_utf8_ne by metis+

lemma has_double_units: "path_ok us \<Longrightarrow> \<not> has_double (CHR ''/'') (utf8 us)"
proof (induction us rule: path_ok.induct)
  case (1 u v us)
  then have IH: "\<not> has_double (CHR ''/'') (utf8 (v # us))" by simp
  show ?case
  proof (cases "u = 47")
    case True
    then have "v \<noteq> 47" using 1 by simp
    then have "hd (utf8 (v # us)) \<noteq> CHR ''/''"
      using unit_ends by (simp add: utf8_Cons)
    then show ?thesis using IH True
      by (cases "utf8 (v # us)") (auto simp: utf8_Cons [of 47 "v # us"] append_utf8_def char_of_code)
  next
    case False
    then show ?thesis using IH has_double_append [OF no_slash_unit] by (simp add: utf8_Cons [of u])
  qed
qed (use no_slash_unit has_double_append [of "CHR ''/''" _ "[]"] in \<open>auto simp: utf8_def\<close>)

lemma path_ok_last: "path_ok us \<Longrightarrow> us \<noteq> [] \<Longrightarrow> last us \<noteq> 47"
  by (induction us rule: path_ok.induct) auto

lemma utf8_hd: "us \<noteq> [] \<Longrightarrow> hd us \<noteq> 47 \<Longrightarrow> hd (utf8 us) \<noteq> CHR ''/''"
  using unit_ends by (cases us) (auto simp: utf8_Cons)

lemma utf8_last: "us \<noteq> [] \<Longrightarrow> last us \<noteq> 47 \<Longrightarrow> last (utf8 us) \<noteq> CHR ''/''"
  using unit_ends by (cases us rule: rev_cases) (auto simp: utf8_def)

lemma split_last_append: "c \<notin> set b \<Longrightarrow> split_last c (a @ c # b) = Some (a, b)"
proof -
  assume c: "c \<notin> set b"
  have "takeWhile (\<lambda>x. x \<noteq> c) (rev b @ c # rev a) = rev b" "dropWhile (\<lambda>x. x \<noteq> c) (rev b @ c # rev a) = c # rev a"
    using c by (simp_all add: takeWhile_append dropWhile_append)
  then show ?thesis by (simp add: split_last_def)
qed

text \<open>A class and a method name of the JNI specification, as UTF-16 code units.\<close>

definition native_name :: "nat list \<Rightarrow> nat list \<Rightarrow> bool" where
  "native_name cls meth \<longleftrightarrow> cls \<noteq> [] \<and> meth \<noteq> [] \<and> hd cls \<noteq> 47 \<and> 47 \<notin> set meth \<and>
     path_ok (cls @ 47 # meth) \<and> (\<forall>u \<in> set cls \<union> set meth. unit_ok u \<and> u \<noteq> 59 \<and> u \<noteq> 91)"

lemma decode_path:
  assumes nn: "native_name cls meth" and rest: "decode_part rest p = Some (p, rest', sep)"
    and p: "p = utf8 (cls @ 47 # meth)"
  shows "decode_jni_export (''Java_'' @ mangle (cls @ 47 # meth) @ rest) =
     (if \<not> sep then Some \<lparr>class_name = utf8 cls, method_name = utf8 meth, arguments = None\<rparr>
      else case decode_part rest' [] of
          None \<Rightarrow> None
        | Some (args, _, again) \<Rightarrow>
            if again then None
            else Some \<lparr>class_name = utf8 cls, method_name = utf8 meth, arguments = Some (''('' @ args @ '')'')\<rparr>)"
proof -
  have ok: "path_ok (cls @ 47 # meth)" "\<forall>u \<in> set (cls @ 47 # meth). unit_ok u"
    using nn by (auto simp: native_name_def unit_ok_def)
  have dp: "decode_part (mangle (cls @ 47 # meth) @ rest) [] = Some (p, rest', sep)"
    using decode_mangle [OF ok, of rest "[]"] rest p by simp
  have p': "p = utf8 cls @ CHR ''/'' # utf8 meth"
    by (simp add: p utf8_Cons append_utf8_def char_of_code)
  have ne: "utf8 cls \<noteq> []" "utf8 meth \<noteq> []" using nn utf8_ne by (auto simp: native_name_def)
  have s1: "hd p \<noteq> CHR ''/''" using nn utf8_hd [of "cls @ 47 # meth"] by (simp add: native_name_def p)
  have s2: "last p \<noteq> CHR ''/''"
    using path_ok_last [OF ok(1)] utf8_last [of "cls @ 47 # meth"] by (simp add: p)
  have s3: "\<not> has_double (CHR ''/'') p" using has_double_units [OF ok(1)] by (simp only: p not_False_eq_True)
  have s4: "CHR '';'' \<notin> set p" using utf8_mem [of "CHR '';''" "cls @ 47 # meth"] nn
    by (auto simp: p native_name_def simp del: utf8_append)
  have s5: "CHR ''['' \<notin> set p" using utf8_mem [of "CHR ''[''" "cls @ 47 # meth"] nn
    by (auto simp: p native_name_def simp del: utf8_append)
  have "CHR ''/'' \<notin> set (utf8 meth)" using utf8_mem [of "CHR ''/''" meth] nn by (auto simp: native_name_def)
  then have sl: "split_last (CHR ''/'') p = Some (utf8 cls, utf8 meth)" unfolding p' by (rule split_last_append)
  show ?thesis using s1 s2 s3 s4 s5 ne by (simp add: decode_jni_export_def dp sl)
qed

definition overload_suffix :: "nat list option \<Rightarrow> string" where
  "overload_suffix args = (case args of None \<Rightarrow> [] | Some a \<Rightarrow> ''__'' @ mangle a)"

definition native_args :: "nat list option \<Rightarrow> bool" where
  "native_args args \<longleftrightarrow> (case args of None \<Rightarrow> True
     | Some a \<Rightarrow> path_ok a \<and> (\<forall>u \<in> set a. unit_ok u) \<and> (a = [] \<or> hd a \<notin> {48..51}))"

lemma mangle_hd:
  assumes "\<forall>u \<in> set a. unit_ok u" "a = [] \<or> hd a \<notin> {48..51}"
  shows "mangle a = [] \<or> hd (mangle a) \<notin> set ''0123''"
proof (cases a)
  case (Cons v us)
  show ?thesis
  proof (cases "v = 47")
    case True
    then show ?thesis using Cons by (simp add: mangle_def mangle_unit_def is_ascii_alnum_def)
  next
    case False
    then obtain e r where "mangle_unit v @ mangle us = e # r" "e = CHR ''_'' \<or> e \<notin> set ''0123''"
      using mangle_unit_start [of v "mangle us"] Cons assms by auto
    then show ?thesis using Cons by (auto simp: mangle_def)
  qed
qed (simp add: mangle_def)

text \<open>
  C18: Decoding inverts the mangling of the JNI specification.  For a class and a method name whose
  code units are non-zero and not a dot, whose segments are not empty and do not start with one of
  the digits 0 to 3, and for an optional list of argument descriptors, the export symbol that the
  specification assigns to the method is decoded to exactly that class, method and signature, in
  UTF-8.
\<close>

theorem decode_inverts_mangling:
  assumes "native_name cls meth" and "native_args args"
  shows "decode_jni_export (''Java_'' @ mangle (cls @ 47 # meth) @ overload_suffix args) =
     Some \<lparr>class_name = utf8 cls, method_name = utf8 meth,
           arguments = map_option (\<lambda>a. ''('' @ utf8 a @ '')'') args\<rparr>"
proof (cases args)
  case None
  then show ?thesis using decode_path [OF assms(1) decode_end refl]
    by (simp add: overload_suffix_def)
next
  case (Some a)
  then have a: "path_ok a" "\<forall>u \<in> set a. unit_ok u" "a = [] \<or> hd a \<notin> {48..51}"
    using assms(2) by (simp_all add: native_args_def)
  have "decode_part (mangle a) [] = Some (utf8 a, [], False)"
    using decode_mangle [OF a(1,2), of "[]" "[]"] by (simp add: decode_end)
  then show ?thesis using Some
    decode_path [OF assms(1) decode_separator [OF mangle_hd [OF a(2,3)]] refl]
    by (simp add: overload_suffix_def)
qed

theorem decode_inverts_mangling_witness:
  "decode_jni_export (''Java_'' @ mangle ([97, 47, 66] @ 47 # [95, 103, 233]) @ overload_suffix (Some [91, 73])) =
     Some \<lparr>class_name = utf8 [97, 47, 66], method_name = utf8 [95, 103, 233],
           arguments = map_option (\<lambda>a. ''('' @ utf8 a @ '')'') (Some [91, 73])\<rparr>"
  by (rule decode_inverts_mangling) (simp_all add: native_name_def native_args_def unit_ok_def)
end
