(* ===== verification/Native_Call.thy ===== *)
theory Native_Call
  imports Zb_Prelude
begin

text \<open>
  The conversion of a host JNI call into a guest call and of the guest result back
  (\<open>core/src/jni/native_call.cpp\<close>).  \<open>HostArgReader\<close> walks the AAPCS64 registers and stack slots,
  \<open>GuestArgWriter\<close> fills the AAPCS32 registers and stack words.  The callback that turns a host
  reference into a guest handle is an argument of the model and threads a state of its own,
  because it creates table entries.  \<open>std::abort\<close> on an unknown letter is \<open>None\<close>.

  The specification has two sides: where the AAPCS64 puts the n-th Java argument (a closed
  formula over the letters before it), and how an AAPCS32 callee finds its n-th argument (a walk
  over the words of r0-r3 followed by the stack, with 8-byte values at even word indexes).
\<close>

section \<open>The model\<close>

record native_regs =
  reg_x :: "u64 list"
  reg_d :: "u64 list"
  reg_stack :: "nat \<Rightarrow> u64"

record guest_call =
  call_regs :: "u32 list"
  call_stack :: "u32 list"

record host_reader =
  rd_int :: nat
  rd_fp :: nat
  rd_stack :: nat

definition reader_init :: host_reader where
  "reader_init = \<lparr>rd_int = 2, rd_fp = 0, rd_stack = 0\<rparr>"

definition next_int :: "native_regs \<Rightarrow> host_reader \<Rightarrow> u64 \<times> host_reader" where
  "next_int regs r =
     (if rd_int r < 8 then (reg_x regs ! rd_int r, r\<lparr>rd_int := rd_int r + 1\<rparr>)
      else (reg_stack regs (rd_stack r), r\<lparr>rd_stack := rd_stack r + 1\<rparr>))"

definition next_fp :: "native_regs \<Rightarrow> host_reader \<Rightarrow> u64 \<times> host_reader" where
  "next_fp regs r =
     (if rd_fp r < 8 then (reg_d regs ! rd_fp r, r\<lparr>rd_fp := rd_fp r + 1\<rparr>)
      else (reg_stack regs (rd_stack r), r\<lparr>rd_stack := rd_stack r + 1\<rparr>))"

record guest_writer =
  wcall :: guest_call
  ncrn :: nat

definition writer_init :: guest_writer where
  "writer_init = \<lparr>wcall = \<lparr>call_regs = replicate 4 0, call_stack = []\<rparr>, ncrn = 0\<rparr>"

definition put32 :: "u32 \<Rightarrow> guest_writer \<Rightarrow> guest_writer" where
  "put32 v w =
     (if ncrn w < 4
      then w\<lparr>wcall := (wcall w)\<lparr>call_regs := (call_regs (wcall w))[ncrn w := v]\<rparr>, ncrn := ncrn w + 1\<rparr>
      else w\<lparr>wcall := (wcall w)\<lparr>call_stack := call_stack (wcall w) @ [v]\<rparr>\<rparr>)"

definition put64 :: "u64 \<Rightarrow> guest_writer \<Rightarrow> guest_writer" where
  "put64 v w =
     (let lo = ucast v :: u32;
          hi = ucast (drop_bit 32 v) :: u32;
          n = (if ncrn w mod 2 \<noteq> 0 then ncrn w + 1 else ncrn w);
          c = wcall w
      in if n \<le> 2
         then w\<lparr>wcall := c\<lparr>call_regs := (call_regs c)[n := lo, n + 1 := hi]\<rparr>, ncrn := n + 2\<rparr>
         else let s = (if length (call_stack c) mod 2 \<noteq> 0 then call_stack c @ [0] else call_stack c)
              in w\<lparr>wcall := c\<lparr>call_stack := s @ [lo] @ [hi]\<rparr>, ncrn := 4\<rparr>)"

text \<open>One iteration of the argument loop.\<close>

definition marshal_arg ::
  "char \<Rightarrow> native_regs \<Rightarrow> (u64 \<Rightarrow> 's \<Rightarrow> u32 \<times> 's) \<Rightarrow> guest_writer \<times> host_reader \<times> 's
     \<Rightarrow> (guest_writer \<times> host_reader \<times> 's) option" where
  "marshal_arg c regs ref_to_handle = (\<lambda>(w, r, st).
     (let (i, ri) = next_int regs r; (f, rf) = next_fp regs r
      in if c = CHR ''Z'' then Some (put32 (ucast (ucast i :: 8 word)) w, ri, st)
         else if c = CHR ''B'' then Some (put32 (scast (ucast i :: 8 word)) w, ri, st)
         else if c = CHR ''C'' then Some (put32 (ucast (ucast i :: 16 word)) w, ri, st)
         else if c = CHR ''S'' then Some (put32 (scast (ucast i :: 16 word)) w, ri, st)
         else if c = CHR ''I'' then Some (put32 (ucast i) w, ri, st)
         else if c = CHR ''J'' then Some (put64 i w, ri, st)
         else if c = CHR ''F'' then Some (put32 (ucast f) w, rf, st)
         else if c = CHR ''D'' then Some (put64 f w, rf, st)
         else if c = CHR ''L'' then
           (let (h, st') = ref_to_handle i st in Some (put32 h w, ri, st'))
         else None))"

fun marshal_loop ::
  "string \<Rightarrow> native_regs \<Rightarrow> (u64 \<Rightarrow> 's \<Rightarrow> u32 \<times> 's) \<Rightarrow> guest_writer \<times> host_reader \<times> 's
     \<Rightarrow> (guest_writer \<times> host_reader \<times> 's) option" where
  "marshal_loop [] regs ref_to_handle s = Some s"
| "marshal_loop (c # cs) regs ref_to_handle s =
     (case marshal_arg c regs ref_to_handle s of
        None \<Rightarrow> None
      | Some s' \<Rightarrow> marshal_loop cs regs ref_to_handle s')"

definition marshal_native_args ::
  "string \<Rightarrow> native_regs \<Rightarrow> u32 \<Rightarrow> (u64 \<Rightarrow> 's \<Rightarrow> u32 \<times> 's) \<Rightarrow> 's \<Rightarrow> (guest_call \<times> 's) option" where
  "marshal_native_args shorty regs guest_env ref_to_handle st =
     (let w1 = put32 guest_env writer_init;
          (h, st1) = ref_to_handle (reg_x regs ! 1) st
      in case marshal_loop (drop 1 shorty) regs ref_to_handle (put32 h w1, reader_init, st1) of
           None \<Rightarrow> None
         | Some (w, _, st') \<Rightarrow> Some (wcall w, st'))"

definition store_native_result ::
  "char \<Rightarrow> u32 \<Rightarrow> u32 \<Rightarrow> native_regs \<Rightarrow> (u32 \<Rightarrow> u64) \<Rightarrow> native_regs option" where
  "store_native_result return_type r0 r1 regs handle_to_ref =
     (let pair = (push_bit 32 (ucast r1) OR ucast r0 :: u64);
          set_x = (\<lambda>v. Some (regs\<lparr>reg_x := (reg_x regs)[0 := v]\<rparr>));
          set_d = (\<lambda>v. Some (regs\<lparr>reg_d := (reg_d regs)[0 := v]\<rparr>))
      in if return_type = CHR ''Z'' then set_x (ucast (ucast r0 :: 8 word))
         else if return_type = CHR ''B'' then set_x (scast (ucast r0 :: 8 word))
         else if return_type = CHR ''C'' then set_x (ucast (ucast r0 :: 16 word))
         else if return_type = CHR ''S'' then set_x (scast (ucast r0 :: 16 word))
         else if return_type = CHR ''I'' then set_x (scast r0)
         else if return_type = CHR ''J'' then set_x pair
         else if return_type = CHR ''F'' then set_d (ucast r0)
         else if return_type = CHR ''D'' then set_d pair
         else if return_type = CHR ''L'' then set_x (handle_to_ref r0)
         else if return_type = CHR ''V'' then Some regs
         else None)"

section \<open>Specification: the two procedure call standards\<close>

text \<open>AAPCS64: the value of the argument after the letters \<open>before\<close>.\<close>

definition is_fp :: "char \<Rightarrow> bool" where
  "is_fp c \<longleftrightarrow> c = CHR ''F'' \<or> c = CHR ''D''"

definition count_fp :: "string \<Rightarrow> nat" where
  "count_fp cs = length (filter is_fp cs)"

definition count_int :: "string \<Rightarrow> nat" where
  "count_int cs = length (filter (\<lambda>c. \<not> is_fp c) cs)"

definition aapcs64_arg :: "native_regs \<Rightarrow> string \<Rightarrow> char \<Rightarrow> u64" where
  "aapcs64_arg regs before c =
     (let overflow = (count_int before - 6) + (count_fp before - 8)
      in if is_fp c
         then (if count_fp before < 8 then reg_d regs ! count_fp before else reg_stack regs overflow)
         else (if count_int before < 6 then reg_x regs ! (2 + count_int before) else reg_stack regs overflow))"

text \<open>What the guest function is to receive: 32-bit and 64-bit values.\<close>

datatype gval = G32 u32 | G64 u64

definition convert_arg :: "(u64 \<Rightarrow> 's \<Rightarrow> u32 \<times> 's) \<Rightarrow> char \<Rightarrow> u64 \<Rightarrow> 's \<Rightarrow> gval \<times> 's" where
  "convert_arg f c v st =
     (if c = CHR ''J'' \<or> c = CHR ''D'' then (G64 v, st)
      else if c = CHR ''L'' then (G32 (fst (f v st)), snd (f v st))
      else if c = CHR ''Z'' then (G32 (of_nat (unat v mod 2 ^ 8)), st)
      else if c = CHR ''C'' then (G32 (of_nat (unat v mod 2 ^ 16)), st)
      else if c = CHR ''B'' then (G32 (of_int (signed_take_bit 7 (uint v))), st)
      else if c = CHR ''S'' then (G32 (of_int (signed_take_bit 15 (uint v))), st)
      else (G32 (of_nat (unat v mod 2 ^ 32)), st))"

fun expected_args :: "native_regs \<Rightarrow> (u64 \<Rightarrow> 's \<Rightarrow> u32 \<times> 's) \<Rightarrow> string \<Rightarrow> string \<Rightarrow> 's \<Rightarrow> gval list \<times> 's" where
  "expected_args regs f before [] st = ([], st)"
| "expected_args regs f before (c # cs) st =
     (let (v, st1) = convert_arg f c (aapcs64_arg regs before c) st;
          (vs, st2) = expected_args regs f (before @ [c]) cs st1
      in (v # vs, st2))"

text \<open>AAPCS32: the callee reads 32-bit values from the next word and 64-bit values from the next
  even word index, low half first.\<close>

fun is64 :: "gval \<Rightarrow> bool" where
  "is64 (G32 v) = False"
| "is64 (G64 v) = True"

fun callee_reads :: "bool list \<Rightarrow> nat \<Rightarrow> u32 list \<Rightarrow> gval list" where
  "callee_reads [] n ws = []"
| "callee_reads (False # ks) n ws = G32 (ws ! n) # callee_reads ks (n + 1) ws"
| "callee_reads (True # ks) n ws =
     (let m = n + n mod 2
      in G64 (push_bit 32 (ucast (ws ! (m + 1))) OR ucast (ws ! m)) # callee_reads ks (m + 2) ws)"

text \<open>The flat sequence of words both sides agree on.\<close>

fun flat_put :: "u32 list \<Rightarrow> gval \<Rightarrow> u32 list" where
  "flat_put ws (G32 v) = ws @ [v]"
| "flat_put ws (G64 v) = (if length ws mod 2 \<noteq> 0 then ws @ [0] else ws) @ [ucast v, ucast (drop_bit 32 v)]"


section \<open>Both sides agree on the words\<close>

definition holds_words :: "u32 list \<Rightarrow> guest_writer \<Rightarrow> bool" where
  "holds_words ws w \<longleftrightarrow> ncrn w = min 4 (length ws) \<and>
     call_regs (wcall w) = take 4 (ws @ replicate 4 0) \<and> call_stack (wcall w) = drop 4 ws"

lemma holds_words_init: "holds_words [] writer_init"
  by (simp add: holds_words_def writer_init_def)

lemma words_cases:
  obtains "ws = []" | a where "ws = [a]" | a b where "ws = [a, b]" | a b c where "ws = [a, b, c]"
  | a b c d r where "ws = a # b # c # d # r"
  by (metis list.exhaust)

lemma put32_words: "holds_words ws w \<Longrightarrow> holds_words (flat_put ws (G32 v)) (put32 v w)"
  by (cases ws rule: words_cases) (simp_all add: holds_words_def put32_def numeral_eq_Suc)

lemma put64_words: "holds_words ws w \<Longrightarrow> holds_words (flat_put ws (G64 v)) (put64 v w)"
  by (cases ws rule: words_cases) (simp_all add: holds_words_def put64_def Let_def numeral_eq_Suc mod_Suc)

lemma join_halves:
  "push_bit 32 (ucast (ucast (drop_bit 32 v) :: u32)) OR ucast (ucast v :: u32) = (v :: u64)"
  by (rule bit_word_eqI) (auto simp: bit_simps)

lemma flat_prefix: "\<exists>zs. foldl flat_put ws vs = ws @ zs"
proof (induction vs arbitrary: ws)
  case (Cons v vs)
  obtain zs where "foldl flat_put (flat_put ws v) vs = flat_put ws v @ zs" using Cons.IH by blast
  then show ?case by (cases v) auto
qed simp

lemma callee_reads_flat:
  "callee_reads (map is64 vs) (length ws) (foldl flat_put ws vs @ rest) = vs"
proof (induction vs arbitrary: ws)
  case (Cons v vs)
  obtain zs where zs: "foldl flat_put (flat_put ws v) vs = flat_put ws v @ zs" using flat_prefix by blast
  have IH: "callee_reads (map is64 vs) (length (flat_put ws v)) (flat_put ws v @ zs @ rest) = vs"
    using Cons.IH [of "flat_put ws v"] zs by simp
  show ?case
  proof (cases v)
    case (G32 x)
    then show ?thesis using IH zs by simp
  next
    case (G64 x)
    show ?thesis
    proof (cases "length ws mod 2 = 0")
      case True
      then show ?thesis using IH zs G64 by (simp add: Let_def nth_append join_halves)
    next
      case False
      then have "length ws mod 2 = 1" by simp
      then show ?thesis using IH zs G64 by (simp add: Let_def nth_append join_halves)
    qed
  qed
qed simp

definition reads_from :: "string \<Rightarrow> host_reader \<Rightarrow> bool" where
  "reads_from before r \<longleftrightarrow> rd_int r = min 8 (2 + count_int before) \<and> rd_fp r = min 8 (count_fp before) \<and>
     rd_stack r = (count_int before - 6) + (count_fp before - 8)"

lemma count_snoc [simp]:
  "count_fp (cs @ [c]) = (if is_fp c then Suc (count_fp cs) else count_fp cs)"
  "count_int (cs @ [c]) = (if is_fp c then count_int cs else Suc (count_int cs))"
  by (simp_all add: count_fp_def count_int_def)

lemma next_int_reads:
  assumes "reads_from before r" "\<not> is_fp c" "next_int regs r = (v, r')"
  shows "v = aapcs64_arg regs before c" "reads_from (before @ [c]) r'"
  using assms by (auto simp: reads_from_def next_int_def aapcs64_arg_def Let_def min_def split: if_splits)

lemma next_fp_reads:
  assumes "reads_from before r" "is_fp c" "next_fp regs r = (v, r')"
  shows "v = aapcs64_arg regs before c" "reads_from (before @ [c]) r'"
  using assms by (auto simp: reads_from_def next_fp_def aapcs64_arg_def Let_def min_def split: if_splits)

lemma narrow_unsigned:
  "ucast (ucast i :: 8 word) = (of_nat (unat (i :: u64) mod 2 ^ 8) :: u32)"
  "ucast (ucast i :: 16 word) = (of_nat (unat (i :: u64) mod 2 ^ 16) :: u32)"
  "ucast i = (of_nat (unat (i :: u64) mod 2 ^ 32) :: u32)"
  unfolding take_bit_eq_mod [symmetric]
  by (rule bit_word_eqI; auto simp: bit_simps bit_of_nat_iff)+

lemma narrow_signed:
  "scast (ucast i :: 8 word) = (of_int (signed_take_bit 7 (uint (i :: u64))) :: u32)"
  "scast (ucast i :: 16 word) = (of_int (signed_take_bit 15 (uint (i :: u64))) :: u32)"
  by (rule bit_word_eqI; auto simp: bit_simps bit_of_int_iff min_def)+

definition arg_letters :: string where
  "arg_letters = ''ZBCSIJFDL''"

lemma marshal_arg_step:
  assumes "c \<in> set arg_letters" "holds_words ws w" "reads_from before r"
  shows "\<exists>w' r'. marshal_arg c regs f (w, r, st) =
       Some (w', r', snd (convert_arg f c (aapcs64_arg regs before c) st)) \<and>
     holds_words (flat_put ws (fst (convert_arg f c (aapcs64_arg regs before c) st))) w' \<and>
     reads_from (before @ [c]) r'"
proof -
  obtain i ri where i: "next_int regs r = (i, ri)" by fastforce
  obtain g rf where g: "next_fp regs r = (g, rf)" by fastforce
  obtain h st' where h: "f i st = (h, st')" by fastforce
  have p: "holds_words (ws @ [v]) (put32 v w)" for v using put32_words [OF assms(2), of v] by simp
  note q = put64_words [OF assms(2)]
  consider "c \<in> set ''ZBCSIJL''" "\<not> is_fp c" | "c = CHR ''F''" "is_fp c" | "c = CHR ''D''" "is_fp c"
    using assms(1) by (auto simp: arg_letters_def is_fp_def)
  then show ?thesis
  proof cases
    case 1
    note n = next_int_reads [OF assms(3) 1(2) i]
    show ?thesis using 1(1) n(2) i g h p q
      by (auto simp: marshal_arg_def convert_arg_def n(1) [symmetric] narrow_unsigned narrow_signed
          simp del: flat_put.simps(2))
  next
    case 2
    note n = next_fp_reads [OF assms(3) 2(2) g]
    show ?thesis unfolding n(1) [symmetric] using 2(1) n(2) i g p
      by (simp add: marshal_arg_def convert_arg_def narrow_unsigned)
  next
    case 3
    note n = next_fp_reads [OF assms(3) 3(2) g]
    show ?thesis unfolding n(1) [symmetric] using 3(1) n(2) i g q
      by (simp add: marshal_arg_def convert_arg_def del: flat_put.simps)
  qed
qed

lemma marshal_loop_words:
  assumes "set cs \<subseteq> set arg_letters" "holds_words ws w" "reads_from before r"
  shows "\<exists>w' r'. marshal_loop cs regs f (w, r, st) = Some (w', r', snd (expected_args regs f before cs st)) \<and>
     holds_words (foldl flat_put ws (fst (expected_args regs f before cs st))) w'"
  using assms
proof (induction cs arbitrary: ws w before r st)
  case (Cons c cs)
  from marshal_arg_step [of c ws w before r regs f st] Cons.prems obtain w1 r1 where
    step: "marshal_arg c regs f (w, r, st) =
       Some (w1, r1, snd (convert_arg f c (aapcs64_arg regs before c) st))"
      "holds_words (flat_put ws (fst (convert_arg f c (aapcs64_arg regs before c) st))) w1"
      "reads_from (before @ [c]) r1" by auto
  from Cons.IH [OF _ step(2,3)] Cons.prems(1) show ?case
    by (simp add: step(1) split_beta Let_def)
qed simp

text \<open>
  C21: A native call is delivered intact.  For every shorty of known letters the conversion does
  not abort; a guest function that reads r0-r3 and the stack by the AAPCS32 rules finds the guest
  environment, the handle of the class or receiver, and then every Java argument: the value the
  AAPCS64 places in its register or stack slot, narrowed and sign- or zero-extended by its type,
  references replaced by the handles the callback returns, in order.
\<close>

theorem marshal_delivers_arguments:
  assumes "set (tl shorty) \<subseteq> set ''ZBCSIJFDL''"
    and "(h, st1) = ref_to_handle (reg_x regs ! 1) st"
    and "(args, st2) = expected_args regs ref_to_handle [] (tl shorty) st1"
    and "vals = G32 guest_env # G32 h # args"
  shows "\<exists>call. marshal_native_args shorty regs guest_env ref_to_handle st = Some (call, st2) \<and>
     callee_reads (map is64 vals) 0 (call_regs call @ call_stack call) = vals"
proof -
  have w2: "holds_words [guest_env, h] (put32 h (put32 guest_env writer_init))"
    using put32_words [OF put32_words [OF holds_words_init, of guest_env], of h] by simp
  have r: "reads_from [] reader_init" by (simp add: reads_from_def reader_init_def count_int_def count_fp_def)
  from marshal_loop_words [OF assms(1) [folded arg_letters_def] w2 r, of regs ref_to_handle st1] assms(3)
  obtain w' r' where loop: "marshal_loop (tl shorty) regs ref_to_handle
      (put32 h (put32 guest_env writer_init), reader_init, st1) = Some (w', r', st2)"
      and words: "holds_words (foldl flat_put [guest_env, h] args) w'" by (metis fst_conv snd_conv)
  have m: "marshal_native_args shorty regs guest_env ref_to_handle st = Some (wcall w', st2)"
    using loop assms(2) by (simp add: marshal_native_args_def Let_def drop_Suc assms(2) [symmetric, simplified])
  have fl: "foldl flat_put [] vals = foldl flat_put [guest_env, h] args" by (simp add: assms(4))
  have "\<exists>z. call_regs (wcall w') @ call_stack (wcall w') = foldl flat_put [] vals @ z"
    using words unfolding holds_words_def fl
    by (cases "length (foldl flat_put [guest_env, h] args) \<ge> 4") auto
  then show ?thesis using m callee_reads_flat [of vals "[]"] by auto
qed

text \<open>A long, an int, a double and an object: the long skips no register, the int and the
  object go to the stack after it.\<close>

definition native_w :: native_regs where
  "native_w = \<lparr>reg_x = [1, 2, 0x500000004, 0xFFFFFFFF80000000, 9, 0, 0, 0], reg_d = replicate 8 7, reg_stack = (\<lambda>_. 0)\<rparr>"

theorem marshal_delivers_arguments_witness:
  "\<exists>call. marshal_native_args ''VJIDL'' native_w 0x1000 (\<lambda>ref n. (ucast ref + n, n + 1)) (16 :: u32) =
       Some (call, 18) \<and>
     callee_reads [False, False, True, False, True, False] 0 (call_regs call @ call_stack call) =
       [G32 0x1000, G32 18, G64 0x500000004, G32 0x80000000, G64 7, G32 26]"
proof -
  have e: "([G64 0x500000004, G32 0x80000000, G64 7, G32 26], 18 :: u32) =
      expected_args native_w (\<lambda>ref n. (ucast ref + n, n + 1)) [] (tl ''VJIDL'') 17"
    by (simp add: aapcs64_arg_def convert_arg_def is_fp_def count_int_def count_fp_def native_w_def)
  have "set (tl ''VJIDL'') \<subseteq> set ''ZBCSIJFDL''" by simp
  from marshal_delivers_arguments [OF this _ e refl, of 18 16 "0x1000"]
  show ?thesis by (simp add: native_w_def)
qed

lemma uint_pair: "uint (push_bit 32 (ucast r1) OR ucast (r0 :: u32) :: u64) = uint (r1 :: u32) * 4294967296 + uint r0"
proof -
  have "uint (push_bit 32 (ucast r1) OR ucast r0 :: u64) = push_bit 32 (uint r1) OR uint r0"
    by (rule bit_eqI) (auto simp: bit_simps dest: bit_imp_le_length)
  also have "\<dots> = push_bit 32 (uint r1) + uint r0"
    by (rule disjunctive_add_eq_or [symmetric], rule bit_eqI) (auto simp: bit_simps dest: bit_imp_le_length)
  finally show ?thesis by (simp add: push_bit_eq_mult)
qed

lemma result_values:
  "uint (ucast (ucast (r0 :: u32) :: 8 word) :: u64) = uint r0 mod 256"
  "uint (ucast (ucast r0 :: 16 word) :: u64) = uint r0 mod 65536"
  "uint (ucast r0 :: u64) = uint r0"
  "sint (scast (ucast r0 :: 8 word) :: u64) = signed_take_bit 7 (uint r0)"
  "sint (scast (ucast r0 :: 16 word) :: u64) = signed_take_bit 15 (uint r0)"
  "sint (scast r0 :: u64) = sint r0"
proof -
  have "uint (ucast (ucast r0 :: 8 word) :: u64) = take_bit 8 (uint r0)"
    by (rule bit_eqI) (auto simp: bit_simps)
  then show "uint (ucast (ucast r0 :: 8 word) :: u64) = uint r0 mod 256" by (simp add: take_bit_eq_mod)
  have "uint (ucast (ucast r0 :: 16 word) :: u64) = take_bit 16 (uint r0)"
    by (rule bit_eqI) (auto simp: bit_simps)
  then show "uint (ucast (ucast r0 :: 16 word) :: u64) = uint r0 mod 65536" by (simp add: take_bit_eq_mod)
qed (rule bit_eqI; auto simp: bit_simps min_def dest: bit_imp_le_length)+

text \<open>
  C22: The result of the guest function reaches Java with the value its type gives it: booleans
  and chars zero-extended, bytes, shorts and ints sign-extended, longs and doubles joined from
  r0 and r1, floats from r0 alone, references through the handle table, and \<open>void\<close> changes
  nothing; the other register of the pair is never touched and an unknown type aborts.
\<close>

theorem native_result_value:
  assumes "reg_x regs \<noteq> []" and "reg_d regs \<noteq> []"
  shows "case store_native_result t r0 r1 regs handle_to_ref of
     None \<Rightarrow> t \<notin> set ''ZBCSIJFDLV''
   | Some regs' \<Rightarrow> t \<in> set ''ZBCSIJFDLV'' \<and> reg_stack regs' = reg_stack regs \<and>
       tl (reg_x regs') = tl (reg_x regs) \<and> tl (reg_d regs') = tl (reg_d regs) \<and>
       (if t = CHR ''V'' then regs' = regs
        else if t \<in> set ''FD'' then reg_x regs' = reg_x regs \<and>
          uint (hd (reg_d regs')) = (if t = CHR ''D'' then uint r1 * 2 ^ 32 else 0) + uint r0
        else reg_d regs' = reg_d regs \<and>
          (t = CHR ''Z'' \<and> uint (hd (reg_x regs')) = uint r0 mod 2 ^ 8 \<or>
           t = CHR ''C'' \<and> uint (hd (reg_x regs')) = uint r0 mod 2 ^ 16 \<or>
           t = CHR ''B'' \<and> sint (hd (reg_x regs')) = signed_take_bit 7 (uint r0) \<or>
           t = CHR ''S'' \<and> sint (hd (reg_x regs')) = signed_take_bit 15 (uint r0) \<or>
           t = CHR ''I'' \<and> sint (hd (reg_x regs')) = sint r0 \<or>
           t = CHR ''J'' \<and> uint (hd (reg_x regs')) = uint r1 * 2 ^ 32 + uint r0 \<or>
           t = CHR ''L'' \<and> hd (reg_x regs') = handle_to_ref r0))"
proof (cases "t \<in> set ''ZBCSIJFDLV''")
  case False
  then show ?thesis by (simp add: store_native_result_def Let_def)
next
  case True
  obtain x xs d ds where "reg_x regs = x # xs" "reg_d regs = d # ds"
    using assms by (metis list.exhaust)
  then show ?thesis using True
    by (auto simp: store_native_result_def result_values uint_pair)
qed

theorem native_result_value_witness:
  "case store_native_result (CHR ''B'') 0x1FE 0 native_w (\<lambda>h. 0) of
     None \<Rightarrow> False
   | Some regs' \<Rightarrow> sint (hd (reg_x regs')) = -2 \<and> reg_d regs' = reg_d native_w"
  using native_result_value [where regs = native_w and t = "CHR ''B''" and ?r0.0 = "0x1FE" and ?r1.0 = 0
      and handle_to_ref = "\<lambda>h. 0"]
  by (simp add: native_w_def split: option.splits)
end
