(* ===== verification/Native_Slots.thy ===== *)
theory Native_Slots
  imports Zb_Prelude
begin

text \<open>
  The assignment of thunk slots to registered native methods (\<open>NativeSlots\<close> in
  \<open>core/src/jni/native_thunks.cpp\<close>).  \<open>allocate\<close> and \<open>release\<close> hold the mutex; \<open>target\<close> takes
  no lock, so \<open>allocate\<close> is also given as the sequence of its stores, each of which a concurrent
  \<open>target\<close> may observe.  \<open>std::abort\<close> is \<open>None\<close>.
\<close>

section \<open>The model\<close>

definition kNativeThunkCount :: nat where
  "kNativeThunkCount = 16384"

record NativeTarget =
  guest_function :: u32
  shorty :: string
  is_static :: bool
  label :: string

record native_slots =
  capacity :: nat
  targets :: "NativeTarget list"
  ready :: "bool list"
  slot_count :: nat
  released :: "nat list"

definition default_target :: NativeTarget where
  "default_target = \<lparr>guest_function = 0, shorty = [], is_static = False, label = []\<rparr>"

definition slots_init :: "nat \<Rightarrow> native_slots" where
  "slots_init cap =
     (let c = (if cap < kNativeThunkCount then cap else kNativeThunkCount)
      in \<lparr>capacity = c, targets = replicate c default_target, ready = replicate c False, slot_count = 0,
          released = []\<rparr>)"

text \<open>The stores of \<open>allocate\<close>, oldest first: the slot returned (\<open>None\<close> for -1) and the states
  another thread can see, the last one being the result.\<close>

definition allocate_trace :: "NativeTarget \<Rightarrow> native_slots \<Rightarrow> nat option \<times> native_slots list" where
  "allocate_trace t s =
     (if released s \<noteq> [] then
        (let reused = last (released s);
             s1 = s\<lparr>released := butlast (released s)\<rparr>;
             s2 = s1\<lparr>targets := (targets s1)[reused := t]\<rparr>;
             s3 = s2\<lparr>ready := (ready s2)[reused := True]\<rparr>
         in (Some reused, [s, s1, s2, s3]))
      else
        (let slot = slot_count s
         in if slot \<ge> capacity s then (None, [s])
            else let s1 = s\<lparr>targets := (targets s)[slot := t]\<rparr>;
                     s2 = s1\<lparr>ready := (ready s1)[slot := True]\<rparr>;
                     s3 = s2\<lparr>slot_count := slot + 1\<rparr>
                 in (Some slot, [s, s1, s2, s3])))"

definition allocate :: "NativeTarget \<Rightarrow> native_slots \<Rightarrow> nat option \<times> native_slots" where
  "allocate t s = (let (r, trace) = allocate_trace t s in (r, last trace))"

definition release_slot :: "nat \<Rightarrow> native_slots \<Rightarrow> native_slots option" where
  "release_slot slot s =
     (if slot \<ge> slot_count s \<or> \<not> ready s ! slot then None
      else Some (s\<lparr>ready := (ready s)[slot := False], released := released s @ [slot]\<rparr>))"

definition target :: "native_slots \<Rightarrow> nat \<Rightarrow> NativeTarget option" where
  "target s slot = (if slot \<ge> slot_count s \<or> \<not> ready s ! slot then None else Some (targets s ! slot))"

definition native_thunk_address :: "u64 \<Rightarrow> nat \<Rightarrow> u64 option" where
  "native_thunk_address base slot = (if slot \<ge> kNativeThunkCount then None else Some (base + 8 * of_nat slot))"

section \<open>Invariant\<close>

definition slots_inv :: "native_slots \<Rightarrow> bool" where
  "slots_inv s \<longleftrightarrow> length (targets s) = capacity s \<and> length (ready s) = capacity s \<and> slot_count s \<le> capacity s \<and>
     capacity s \<le> kNativeThunkCount \<and> distinct (released s) \<and>
     (\<forall>i < slot_count s. ready s ! i \<longleftrightarrow> i \<notin> set (released s)) \<and> (\<forall>i \<in> set (released s). i < slot_count s)"

lemma slots_inv_init: "slots_inv (slots_init c)"
  by (simp add: slots_inv_def slots_init_def Let_def)

lemma released_last:
  assumes "slots_inv s" "released s \<noteq> []"
  shows "last (released s) < slot_count s" "last (released s) \<notin> set (butlast (released s))"
    "\<not> ready s ! last (released s)" "set (released s) = insert (last (released s)) (set (butlast (released s)))"
proof -
  obtain bs b where r: "released s = bs @ [b]" using assms(2) by (cases "released s" rule: rev_cases) auto
  then show "last (released s) < slot_count s" "last (released s) \<notin> set (butlast (released s))"
    "\<not> ready s ! last (released s)" "set (released s) = insert (last (released s)) (set (butlast (released s)))"
    using assms(1) by (auto simp: slots_inv_def)
qed

lemma allocate_cases:
  assumes "slots_inv s"
  obtains (reuse) r where "released s \<noteq> []" "r = last (released s)" "allocate t s = (Some r,
       s\<lparr>targets := (targets s)[r := t], ready := (ready s)[r := True], released := butlast (released s)\<rparr>)"
  | (full) "released s = []" "slot_count s \<ge> capacity s" "allocate t s = (None, s)"
  | (fresh) "released s = []" "slot_count s < capacity s" "allocate t s = (Some (slot_count s),
       s\<lparr>targets := (targets s)[slot_count s := t], ready := (ready s)[slot_count s := True],
         slot_count := slot_count s + 1\<rparr>)"
  by (cases "released s = []"; cases "slot_count s \<ge> capacity s")
    (simp_all add: allocate_def allocate_trace_def Let_def)

lemma allocate_inv:
  assumes "slots_inv s" "allocate t s = (r, s')"
  shows "slots_inv s'"
  using assms(1)
proof (cases rule: allocate_cases [of s t])
  case (reuse r0)
  note l = released_last [OF assms(1) reuse(1)]
  show ?thesis using assms reuse l unfolding slots_inv_def
    by (auto simp: nth_list_update distinct_butlast split: if_splits)
next
  case fresh
  then show ?thesis using assms by (auto simp: slots_inv_def nth_list_update less_Suc_eq)
qed (use assms in simp)

lemma allocate_target:
  assumes "slots_inv s" "allocate t s = (Some r, s')"
  shows "target s r = None \<and> target s' r = Some t \<and> (\<forall>i. i \<noteq> r \<longrightarrow> target s' i = target s i) \<and> r < capacity s"
  using assms(1)
proof (cases rule: allocate_cases [of s t])
  case (reuse r0)
  note l = released_last [OF assms(1) reuse(1)]
  show ?thesis using assms reuse l by (auto simp: target_def slots_inv_def)
next
  case fresh
  then show ?thesis using assms by (auto simp: target_def slots_inv_def less_Suc_eq)
qed (use assms in simp)

lemma allocate_full: "slots_inv s \<Longrightarrow> allocate t s = (None, s') \<Longrightarrow> s' = s \<and> (\<forall>i < capacity s. target s i \<noteq> None)"
  by (cases rule: allocate_cases [of s t]) (auto simp: slots_inv_def target_def)

lemma release_inv: "slots_inv s \<Longrightarrow> release_slot r s = Some s' \<Longrightarrow> slots_inv s'"
  by (auto simp: slots_inv_def release_slot_def nth_list_update split: if_splits)

lemma release_target:
  assumes "slots_inv s" "release_slot r s = Some s'"
  shows "target s r \<noteq> None" "target s' r = None" "i \<noteq> r \<Longrightarrow> target s' i = target s i"
  using assms by (auto simp: slots_inv_def release_slot_def target_def split: if_splits)


section \<open>Interface\<close>

text \<open>What the JNI registration relies on: \<open>tgt s i\<close> is the method bound to slot \<open>i\<close>; a step
  that does not release a slot keeps its target.\<close>

locale slot_pool =
  fixes inv :: "'s \<Rightarrow> bool"
    and tgt :: "'s \<Rightarrow> nat \<Rightarrow> 't option"
    and step :: "nat set \<Rightarrow> 's \<Rightarrow> 's \<Rightarrow> bool"
  assumes step_inv: "inv s \<Longrightarrow> step kept s s' \<Longrightarrow> inv s'"
    and step_keeps: "inv s \<Longrightarrow> step kept s s' \<Longrightarrow> i \<in> kept \<Longrightarrow> tgt s i = Some t \<Longrightarrow> tgt s' i = Some t"
begin

lemma steps_inv: "(step kept)\<^sup>*\<^sup>* s s' \<Longrightarrow> inv s \<Longrightarrow> inv s'"
  by (induction rule: rtranclp_induct) (auto intro: step_inv)

lemma steps_keep:
  "(step kept)\<^sup>*\<^sup>* s s' \<Longrightarrow> inv s \<Longrightarrow> i \<in> kept \<Longrightarrow> tgt s i = Some t \<Longrightarrow> tgt s' i = Some t"
  by (induction rule: rtranclp_induct) (auto intro: step_keeps steps_inv)

end

text \<open>The operations in any order, none of which releases a slot of \<open>kept\<close> (the slots the JVM has
  bound).\<close>

inductive slot_step :: "nat set \<Rightarrow> native_slots \<Rightarrow> native_slots \<Rightarrow> bool" where
  step_allocate: "allocate t s = (r, s') \<Longrightarrow> slot_step kept s s'"
| step_release: "release_slot i s = Some s' \<Longrightarrow> i \<notin> kept \<Longrightarrow> slot_step kept s s'"

lemma slot_step_inv: "slots_inv s \<Longrightarrow> slot_step kept s s' \<Longrightarrow> slots_inv s'"
  by (erule slot_step.cases) (auto dest: allocate_inv release_inv)

lemma slot_step_keeps:
  assumes "slots_inv s" "slot_step kept s s'" "i \<in> kept" "target s i = Some t"
  shows "target s' i = Some t"
  using assms(2)
proof cases
  case (step_allocate u r)
  show ?thesis
  proof (cases r)
    case None
    then show ?thesis using allocate_full [OF assms(1)] step_allocate assms(4) by auto
  next
    case (Some x)
    then show ?thesis using allocate_target [OF assms(1)] step_allocate assms(4) by (cases "i = x") auto
  qed
next
  case (step_release j)
  then show ?thesis using release_target(3) [OF assms(1), of j s' i] assms(3,4) by auto
qed

interpretation ns: slot_pool slots_inv target slot_step
  by unfold_locales (auto intro: slot_step_inv slot_step_keeps)

section \<open>Properties\<close>

text \<open>
  C23: A slot the JVM has bound keeps its method.  From a fresh pool, whatever sequence of
  allocations and releases of other slots follows, a slot that resolves to a target goes on
  resolving to that target, so a thunk never dispatches to another method.
\<close>

theorem bound_slot_keeps_target:
  assumes "(slot_step {})\<^sup>*\<^sup>* (slots_init cap) s"
    and "target s i = Some t" and "(slot_step {i})\<^sup>*\<^sup>* s s'"
  shows "target s' i = Some t"
proof -
  have "slots_inv s" using assms(1) ns.steps_inv slots_inv_init by blast
  then show ?thesis using ns.steps_keep [OF assms(3)] assms(2) by blast
qed

definition target_w :: "string \<Rightarrow> NativeTarget" where
  "target_w m = \<lparr>guest_function = 0x1001, shorty = ''VI'', is_static = True, label = m\<rparr>"

lemma slots_w:
  "allocate (target_w ''f'') (slots_init 2) = (Some 0, snd (allocate (target_w ''f'') (slots_init 2)))"
  "target (snd (allocate (target_w ''f'') (slots_init 2))) 0 = Some (target_w ''f'')"
  by (simp_all add: allocate_def allocate_trace_def slots_init_def kNativeThunkCount_def target_def Let_def
      numeral_2_eq_2)

theorem bound_slot_keeps_target_witness:
  "target (snd (allocate (target_w ''g'') (snd (allocate (target_w ''f'') (slots_init 2))))) 0 = Some (target_w ''f'')"
proof (rule bound_slot_keeps_target [of 2 "snd (allocate (target_w ''f'') (slots_init 2))"])
  show "(slot_step {})\<^sup>*\<^sup>* (slots_init 2) (snd (allocate (target_w ''f'') (slots_init 2)))"
    by (rule r_into_rtranclp) (rule step_allocate [OF slots_w(1)])
  show "target (snd (allocate (target_w ''f'') (slots_init 2))) 0 = Some (target_w ''f'')" by (rule slots_w)
  show "(slot_step {0})\<^sup>*\<^sup>* (snd (allocate (target_w ''f'') (slots_init 2)))
      (snd (allocate (target_w ''g'') (snd (allocate (target_w ''f'') (slots_init 2)))))"
    by (rule r_into_rtranclp) (rule step_allocate [OF surjective_pairing])
qed

text \<open>
  C24: A reader without the lock never sees a half-written entry.  In every state that \<open>allocate\<close>
  passes through, every slot resolves either as it did before the call or, for the slot being
  allocated, to the complete new target.
\<close>

theorem allocate_publishes_complete_entry:
  assumes "slots_inv s" and "allocate_trace t s = (r, trace)" and "s' \<in> set trace"
  shows "target s' i = target s i \<or> (r = Some i \<and> target s' i = Some t)"
proof (cases "released s = []")
  case True
  show ?thesis
  proof (cases "slot_count s < capacity s")
    case True
    with \<open>released s = []\<close> show ?thesis using assms
      by (cases "i = slot_count s")
        (auto simp: allocate_trace_def Let_def target_def slots_inv_def less_Suc_eq_le)
  qed (use assms True in \<open>auto simp: allocate_trace_def\<close>)
next
  case False
  then show ?thesis using assms released_last [OF assms(1) False]
    by (cases "i = last (released s)")
      (auto simp: allocate_trace_def Let_def target_def slots_inv_def)
qed

theorem allocate_publishes_complete_entry_witness:
  "\<exists>trace. allocate_trace (target_w ''f'') (slots_init 2) = (Some 0, trace) \<and> length trace = 4 \<and>
     (target (trace ! 2) 0 = None \<or> target (trace ! 2) 0 = Some (target_w ''f''))"
proof -
  obtain trace where t: "allocate_trace (target_w ''f'') (slots_init 2) = (Some 0, trace)" "length trace = 4"
    by (simp add: allocate_trace_def slots_init_def kNativeThunkCount_def Let_def)
  then have "trace ! 2 \<in> set trace" by simp
  from allocate_publishes_complete_entry [OF slots_inv_init t(1) this, of 0]
  have "target (trace ! 2) 0 = None \<or> target (trace ! 2) 0 = Some (target_w ''f'')"
    by (simp add: target_def slots_init_def Let_def)
  with t show ?thesis by blast
qed

end
