(* ===== verification/Guest_Memory.thy ===== *)
theory Guest_Memory
  imports Zb_Prelude
begin

text \<open>
  The 4 GiB guest address space of \<open>core/include/zb/guest_memory.h\<close> and
  \<open>core/src/guest_memory.cpp\<close>.

  The state holds the page table \<open>pages_\<close> (one flag byte per 4 KiB page), the bytes of the
  host reservation behind \<open>base_\<close> and the protection of each host page.  The host kernel is
  a parameter: \<open>kernel\<close> answers every \<open>mmap\<close> or \<open>mprotect\<close> call, and its answer may
  depend on all earlier calls, so nothing is assumed about when it fails.  A call that succeeds
  has the effect POSIX documents: an anonymous mapping reads as zero, a file mapping reads as
  the file, and the pages get the requested protection.
\<close>

section \<open>Constants and flags\<close>

definition kGuestSpaceSize :: u64 where
  "kGuestSpaceSize = 4294967296"

definition kPageSize :: u32 where
  "kPageSize = 4096"

definition kPageMask :: u32 where
  "kPageMask = kPageSize - 1"

definition kPageRead :: u8 where "kPageRead = 1"
definition kPageWrite :: u8 where "kPageWrite = 2"
definition kPageExec :: u8 where "kPageExec = 4"
definition kPageMapped :: u8 where "kPageMapped = 8"

lemmas page_flag_defs = kPageRead_def kPageWrite_def kPageExec_def kPageMapped_def

text \<open>The \<open>PROT_*\<close> values of \<open>sys/mman.h\<close>.\<close>

definition PROT_NONE :: u32 where "PROT_NONE = 0"
definition PROT_READ :: u32 where "PROT_READ = 1"
definition PROT_WRITE :: u32 where "PROT_WRITE = 2"
definition PROT_EXEC :: u32 where "PROT_EXEC = 4"

lemmas prot_defs = PROT_NONE_def PROT_READ_def PROT_WRITE_def PROT_EXEC_def

definition page_round_up :: "u64 \<Rightarrow> u64" where
  "page_round_up v = (v + ucast kPageMask) AND NOT (ucast kPageMask)"

definition page_round_down :: "u32 \<Rightarrow> u32" where
  "page_round_down v = v AND NOT kPageMask"

definition kLowestAllocPage :: nat where
  "kLowestAllocPage = 16"

definition range_valid :: "u32 \<Rightarrow> u64 \<Rightarrow> bool" where
  "range_valid addr len \<longleftrightarrow>
     len \<noteq> 0 \<and> addr AND kPageMask = 0 \<and> ucast addr + len \<le> kGuestSpaceSize"

definition flags_from_prot :: "u32 \<Rightarrow> u8" where
  "flags_from_prot prot =
     kPageMapped OR (if prot AND PROT_READ \<noteq> 0 then kPageRead else 0)
       OR (if prot AND PROT_WRITE \<noteq> 0 then kPageWrite else 0)
       OR (if prot AND PROT_EXEC \<noteq> 0 then kPageExec else 0)"

definition host_prot :: "u32 \<Rightarrow> u32" where
  "host_prot guest_prot =
     PROT_NONE OR (if guest_prot AND (PROT_READ OR PROT_EXEC) \<noteq> 0 then PROT_READ else 0)
       OR (if guest_prot AND PROT_WRITE \<noteq> 0 then PROT_READ OR PROT_WRITE else 0)"

section \<open>State and host calls\<close>

datatype host_call =
    Mmap_anon u32 u64 u32
  | Mmap_file u32 u64 u32 u32 u64
  | Mmap_none u32 u64
  | Mprotect u32 u64 u32

type_synonym kernel = "host_call list \<Rightarrow> host_call \<Rightarrow> bool"

record guest_memory =
  mem_ok :: bool
  pages :: "nat \<Rightarrow> u8"
  bytes :: "nat \<Rightarrow> u8"
  hprot :: "nat \<Rightarrow> u32"
  hlog :: "host_call list"

text \<open>The constructor: \<open>reserved\<close> says whether the 4 GiB \<open>PROT_NONE\<close> reservation
  succeeded.\<close>

definition new_guest_memory :: "bool \<Rightarrow> guest_memory" where
  "new_guest_memory reserved =
     \<lparr>mem_ok = reserved, pages = (\<lambda>_. 0), bytes = (\<lambda>_. 0), hprot = (\<lambda>_. PROT_NONE), hlog = []\<rparr>"

text \<open>Updates of the page table, of the host protections and of the bytes over
  \<open>[addr, addr + len)\<close>.\<close>

definition set_range :: "nat \<Rightarrow> nat \<Rightarrow> 'a \<Rightarrow> (nat \<Rightarrow> 'a) \<Rightarrow> nat \<Rightarrow> 'a" where
  "set_range first n v f = (\<lambda>i. if first \<le> i \<and> i < first + n then v else f i)"

definition set_flags :: "u32 \<Rightarrow> u64 \<Rightarrow> u8 \<Rightarrow> guest_memory \<Rightarrow> guest_memory" where
  "set_flags addr len flags m =
     m\<lparr>pages := set_range (unat (drop_bit 12 addr)) (unat (drop_bit 12 (page_round_up len))) flags (pages m)\<rparr>"

definition set_hprot :: "u32 \<Rightarrow> u64 \<Rightarrow> u32 \<Rightarrow> guest_memory \<Rightarrow> guest_memory" where
  "set_hprot addr len p m =
     m\<lparr>hprot := set_range (unat (drop_bit 12 addr)) (unat (drop_bit 12 len)) p (hprot m)\<rparr>"

definition log_call :: "host_call \<Rightarrow> guest_memory \<Rightarrow> guest_memory" where
  "log_call c m = m\<lparr>hlog := hlog m @ [c]\<rparr>"

section \<open>Operations\<close>

definition map_anon :: "kernel \<Rightarrow> u32 \<Rightarrow> u64 \<Rightarrow> u32 \<Rightarrow> guest_memory \<Rightarrow> bool \<times> guest_memory" where
  "map_anon K addr len0 prot m =
     (let len = page_round_up len0;
          c = Mmap_anon addr len (host_prot prot);
          m1 = log_call c m
      in if \<not> mem_ok m \<or> \<not> range_valid addr len then (False, m)
         else if \<not> K (hlog m) c then (False, m1)
         else (True, set_flags addr len (flags_from_prot prot)
                 (set_hprot addr len (host_prot prot)
                   (m1\<lparr>bytes := set_range (unat addr) (unat len) 0 (bytes m1)\<rparr>))))"

text \<open>\<open>file\<close> is the content of the mapped file, by file position.\<close>

definition map_file :: "kernel \<Rightarrow> (nat \<Rightarrow> u8) \<Rightarrow> u32 \<Rightarrow> u64 \<Rightarrow> u32 \<Rightarrow> u32 \<Rightarrow> u64 \<Rightarrow> guest_memory
    \<Rightarrow> bool \<times> guest_memory" where
  "map_file K file addr len0 prot share_flags offset m =
     (let len = page_round_up len0;
          c = Mmap_file addr len (host_prot prot) (share_flags AND 3) offset;
          m1 = log_call c m
      in if \<not> mem_ok m \<or> \<not> range_valid addr len then (False, m)
         else if \<not> K (hlog m) c then (False, m1)
         else (True, set_flags addr len (flags_from_prot prot)
                 (set_hprot addr len (host_prot prot)
                   (m1\<lparr>bytes := (\<lambda>i. if unat addr \<le> i \<and> i < unat addr + unat len
                                      then file (unat offset + (i - unat addr)) else bytes m1 i)\<rparr>))))"

text \<open>\<open>[addr, addr + len)\<close> is mapped with all \<open>need\<close> flags.  The loop runs over the page
  numbers from \<open>addr >> 12\<close> to \<open>(end - 1) >> 12\<close>.\<close>

definition accessible :: "u32 \<Rightarrow> u64 \<Rightarrow> u8 \<Rightarrow> guest_memory \<Rightarrow> bool" where
  "accessible addr len need m =
     (if len = 0 then True
      else let e = ucast addr + len
           in if e > kGuestSpaceSize then False
              else let mask = need OR kPageMapped
                   in list_all (\<lambda>i. pages m i AND mask = mask)
                        [unat (drop_bit 12 addr)..<Suc (unat (drop_bit 12 (e - 1)))])"

definition protect :: "kernel \<Rightarrow> u32 \<Rightarrow> u64 \<Rightarrow> u32 \<Rightarrow> guest_memory \<Rightarrow> bool \<times> guest_memory" where
  "protect K addr len0 prot m =
     (let len = page_round_up len0;
          c = Mprotect addr len (host_prot prot);
          m1 = log_call c m
      in if \<not> mem_ok m \<or> \<not> range_valid addr len \<or> \<not> accessible addr len 0 m then (False, m)
         else if \<not> K (hlog m) c then (False, m1)
         else (True, set_flags addr len (flags_from_prot prot) (set_hprot addr len (host_prot prot) m1)))"

definition unmap :: "kernel \<Rightarrow> u32 \<Rightarrow> u64 \<Rightarrow> guest_memory \<Rightarrow> bool \<times> guest_memory" where
  "unmap K addr len0 m =
     (let len = page_round_up len0;
          c = Mmap_none addr len;
          m1 = log_call c m
      in if \<not> mem_ok m \<or> \<not> range_valid addr len then (False, m)
         else if \<not> K (hlog m) c then (False, m1)
         else (True, set_flags addr len 0
                 (set_hprot addr len PROT_NONE
                   (m1\<lparr>bytes := set_range (unat addr) (unat len) 0 (bytes m1)\<rparr>))))"

text \<open>\<open>for (i = top; i-- > kLowestAllocPage;)\<close> with the length of the current free run.\<close>

function find_free_loop :: "(nat \<Rightarrow> u8) \<Rightarrow> nat \<Rightarrow> nat \<Rightarrow> nat \<Rightarrow> nat" where
  "find_free_loop pg n i run =
     (if i > kLowestAllocPage
      then if pg (i - 1) = 0
           then if run + 1 = n then i - 1 else find_free_loop pg n (i - 1) (run + 1)
           else find_free_loop pg n (i - 1) 0
      else 0)"
  by pat_completeness auto
termination
  by (relation "measure (\<lambda>(pg, n, i, run). i)") auto

declare find_free_loop.simps [simp del]

definition find_free :: "u64 \<Rightarrow> u32 \<Rightarrow> guest_memory \<Rightarrow> u32" where
  "find_free len limit m =
     (let n = unat (drop_bit 12 (page_round_up len));
          top = unat (drop_bit 12 limit)
      in if n = 0 \<or> top < kLowestAllocPage \<or> top - kLowestAllocPage < n then 0
         else push_bit 12 (of_nat (find_free_loop (pages m) n top 0)))"

definition range_free :: "u32 \<Rightarrow> u64 \<Rightarrow> guest_memory \<Rightarrow> bool" where
  "range_free addr len0 m =
     (let len = page_round_up len0
      in if \<not> range_valid addr len then False
         else list_all (\<lambda>i. pages m i = 0)
                [unat (drop_bit 12 addr)..<unat (drop_bit 12 (ucast addr + len :: u64))])"

text \<open>A host pointer into the reservation is its offset from \<open>base_\<close>.\<close>

definition host_ptr :: "u32 \<Rightarrow> u64 \<Rightarrow> u8 \<Rightarrow> guest_memory \<Rightarrow> nat option" where
  "host_ptr addr len need m = (if accessible addr len need m then Some (unat addr) else None)"

definition page_flags :: "guest_memory \<Rightarrow> u32 \<Rightarrow> u8" where
  "page_flags m addr = pages m (unat (drop_bit 12 addr))"

text \<open>\<open>std::memcpy\<close> into and out of the reservation.\<close>

definition store_bytes :: "nat \<Rightarrow> u8 list \<Rightarrow> guest_memory \<Rightarrow> guest_memory" where
  "store_bytes a xs m =
     m\<lparr>bytes := (\<lambda>i. if a \<le> i \<and> i < a + length xs then xs ! (i - a) else bytes m i)\<rparr>"

definition load_bytes :: "nat \<Rightarrow> nat \<Rightarrow> guest_memory \<Rightarrow> u8 list" where
  "load_bytes a n m = map (bytes m) [a..<a + n]"

section \<open>Pages as numbers\<close>

lemma kPageMask_mask: "kPageMask = mask 12"
  by (simp add: kPageMask_def kPageSize_def mask_eq_exp_minus_1)

lemma ucast_kPageMask: "(ucast kPageMask :: u64) = mask 12"
  by (simp add: kPageMask_def kPageSize_def mask_eq_exp_minus_1)

lemma unat_page_round_up:
  "unat (page_round_up v) = (unat v + 4095) mod 18446744073709551616 div 4096 * 4096"
proof -
  have "unat (v + mask 12) = (unat v + 4095) mod 2 ^ 64"
    by (simp add: unat_word_ariths mask_eq_exp_minus_1)
  then show ?thesis by (simp add: page_round_up_def ucast_kPageMask word_nat)
qed

lemma unat_page_round_down: "unat (page_round_down v) = unat v div 4096 * 4096"
  by (simp add: page_round_down_def kPageMask_mask word_nat)

lemma page_round_up_dvd: "4096 dvd unat (page_round_up v)"
  by (simp add: unat_page_round_up)

lemma page_round_up_idem [simp]: "page_round_up (page_round_up v) = page_round_up v"
proof -
  let ?r = "unat (page_round_up v)"
  obtain q where q: "?r = q * 4096" using page_round_up_dvd [of v] by (auto simp: dvd_def mult.commute)
  have "q * 4096 < 2 ^ 64" using unat_less_u64 [of "page_round_up v"] q by simp
  then have "q * 4096 + 4095 < 18446744073709551616" by simp
  then have "unat (page_round_up (page_round_up v)) = ?r"
    unfolding unat_page_round_up [of "page_round_up v"] q by simp
  then show ?thesis by (rule word_unat_eq_iff [THEN iffD2])
qed

lemma page_round_up_no_wrap:
  "unat v \<le> 2 ^ 33 \<Longrightarrow> unat (page_round_up v) = (unat v + 4095) div 4096 * 4096"
  by (simp add: unat_page_round_up)

lemma range_valid_iff:
  "range_valid addr len \<longleftrightarrow> 0 < unat len \<and> 4096 dvd unat addr \<and>
     (unat addr + unat len) mod 18446744073709551616 \<le> 4294967296"
proof -
  have "(addr AND kPageMask = 0) = (unat addr mod 4096 = 0)"
    by (simp add: word_unat_eq_iff kPageMask_mask word_nat)
  moreover have "unat (ucast addr + len) = (unat addr + unat len) mod 18446744073709551616"
    by (simp add: unat_word_ariths word_nat)
  ultimately show ?thesis
    by (simp add: range_valid_def kGuestSpaceSize_def word_le_nat_alt unat_gt_0 dvd_eq_mod_eq_0)
qed

lemma range_valid_fits:
  "unat addr + unat len < 18446744073709551616 \<Longrightarrow>
   range_valid addr len \<longleftrightarrow> 0 < unat len \<and> 4096 dvd unat addr \<and> unat addr + unat len \<le> 4294967296"
  by (simp add: range_valid_iff)

text \<open>The numbers of the pages that \<open>[addr, addr + len)\<close> touches.\<close>

definition touches :: "u32 \<Rightarrow> u64 \<Rightarrow> nat \<Rightarrow> bool" where
  "touches addr len i \<longleftrightarrow> unat addr div 4096 \<le> i \<and> i * 4096 < unat addr + unat len"

lemma accessible_iff:
  assumes "unat addr + unat len < 18446744073709551616"
  shows "accessible addr len need m \<longleftrightarrow> len = 0 \<or>
     unat addr + unat len \<le> 4294967296 \<and>
     (\<forall>i. touches addr len i \<longrightarrow> pages m i AND (need OR kPageMapped) = need OR kPageMapped)"
proof (cases "len = 0")
  case True
  then show ?thesis by (simp add: accessible_def)
next
  case False
  let ?e = "ucast addr + len :: u64"
  have e: "unat ?e = unat addr + unat len"
    using assms by (simp add: unat_word_ariths word_nat)
  have len: "0 < unat len" using False by (simp add: unat_gt_0)
  then have "unat (?e - 1) = unat addr + unat len - 1"
    using e by (metis add_gr_0 One_nat_def unat_1 unat_sub_if' Suc_leI)
  then have "set [unat (drop_bit 12 addr)..<Suc (unat (drop_bit 12 (?e - 1)))] = {i. touches addr len i}"
    using len by (auto simp: touches_def word_nat less_eq_div_iff_mult_less_eq less_Suc_eq_le)
  moreover have "(kGuestSpaceSize < ?e) = (4294967296 < unat addr + unat len)"
    using e by (simp add: word_less_nat_alt kGuestSpaceSize_def)
  ultimately show ?thesis
    using False by (simp only: accessible_def Let_def list_all_iff) (simp add: not_less)
qed

lemma range_free_iff:
  assumes "unat len0 \<le> 2 ^ 33"
  shows "range_free addr len0 m \<longleftrightarrow>
    (let len = page_round_up len0
     in 0 < unat len \<and> 4096 dvd unat addr \<and> unat addr + unat len \<le> 4294967296 \<and>
        (\<forall>i. touches addr len i \<longrightarrow> pages m i = 0))"
proof -
  let ?len = "page_round_up len0"
  let ?e = "ucast addr + ?len :: u64"
  have "unat ?len \<le> 2 ^ 33 + 4096" using assms by (simp add: page_round_up_no_wrap)
  then have fits: "unat addr + unat ?len < 18446744073709551616" using unat_less_u32 [of addr] by simp
  then have e: "unat ?e = unat addr + unat ?len"
    by (simp add: unat_word_ariths word_nat)
  have "set [unat (drop_bit 12 addr)..<unat (drop_bit 12 ?e)] = {i. touches addr ?len i}"
    if "4096 dvd unat addr"
  proof -
    obtain a where "unat addr = 4096 * a" using \<open>4096 dvd unat addr\<close> ..
    moreover obtain l where "unat ?len = 4096 * l" using page_round_up_dvd [of len0] ..
    ultimately show ?thesis by (auto simp: touches_def e word_nat)
  qed
  then show ?thesis
    unfolding range_free_def Let_def range_valid_fits [OF fits] list_all_iff by auto
qed

section \<open>Bytes behind the reservation\<close>

text \<open>
  What the ELF loader, the stack builder and the signal code rely on when they copy through a
  host pointer: a store is read back, and bytes outside the stored range do not change.
\<close>

locale byte_store =
  fixes rd :: "'s \<Rightarrow> nat \<Rightarrow> u8"
    and wr :: "nat \<Rightarrow> u8 list \<Rightarrow> 's \<Rightarrow> 's"
  assumes rd_wr: "rd (wr a xs s) i = (if a \<le> i \<and> i < a + length xs then xs ! (i - a) else rd s i)"
begin

lemma read_back: "n = length xs \<Longrightarrow> map (rd (wr a xs s)) [a..<a + n] = xs"
  by (rule nth_equalityI) (simp_all add: rd_wr)

lemma read_other:
  "b + n \<le> a \<or> a + length xs \<le> b \<Longrightarrow> map (rd (wr a xs s)) [b..<b + n] = map (rd s) [b..<b + n]"
  by (auto simp: rd_wr)

lemma read_inside:
  "a \<le> b \<Longrightarrow> b + n \<le> a + length xs \<Longrightarrow>
   map (rd (wr a xs s)) [b..<b + n] = take n (drop (b - a) xs)"
  by (rule nth_equalityI) (auto simp: rd_wr)

end

interpretation gm: byte_store bytes store_bytes
  by unfold_locales (simp add: store_bytes_def)

lemma store_bytes_sel [simp]:
  "pages (store_bytes a xs m) = pages m" "hprot (store_bytes a xs m) = hprot m"
  "mem_ok (store_bytes a xs m) = mem_ok m" "hlog (store_bytes a xs m) = hlog m"
  by (simp_all add: store_bytes_def)

lemma accessible_store [simp]: "accessible addr len need (store_bytes a xs m) = accessible addr len need m"
  by (simp add: accessible_def)

lemma load_store_same: "n = length xs \<Longrightarrow> load_bytes a n (store_bytes a xs m) = xs"
  unfolding load_bytes_def by (rule gm.read_back)

lemma load_store_other:
  "b + n \<le> a \<or> a + length xs \<le> b \<Longrightarrow> load_bytes b n (store_bytes a xs m) = load_bytes b n m"
  unfolding load_bytes_def by (rule gm.read_other)

lemma load_store_inside:
  "a \<le> b \<Longrightarrow> b + n \<le> a + length xs \<Longrightarrow> load_bytes b n (store_bytes a xs m) = take n (drop (b - a) xs)"
  unfolding load_bytes_def by (rule gm.read_inside)

lemma length_load_bytes [simp]: "length (load_bytes a n m) = n"
  by (simp add: load_bytes_def)

section \<open>Invariant: the host protections agree with the page table\<close>

definition page_ok :: "u8 \<Rightarrow> u32 \<Rightarrow> bool" where
  "page_ok f p \<longleftrightarrow> f = 0 \<and> p = PROT_NONE \<or> (\<exists>prot. f = flags_from_prot prot \<and> p = host_prot prot)"

definition mem_inv :: "guest_memory \<Rightarrow> bool" where
  "mem_inv m \<longleftrightarrow> (\<forall>i. page_ok (pages m i) (hprot m i)) \<and> (\<forall>i \<ge> 1048576. pages m i = 0)"

text \<open>The host kernel refuses a mapping longer than its address space (\<open>mmap\<close> and
  \<open>mprotect\<close> fail with \<open>ENOMEM\<close>).\<close>

fun call_len :: "host_call \<Rightarrow> u64" where
  "call_len (Mmap_anon a l p) = l"
| "call_len (Mmap_file a l p f off) = l"
| "call_len (Mmap_none a l) = l"
| "call_len (Mprotect a l p) = l"

definition kernel_bounded :: "kernel \<Rightarrow> bool" where
  "kernel_bounded K \<longleftrightarrow> (\<forall>hist c. K hist c \<longrightarrow> unat (call_len c) < 2 ^ 63)"

lemma mem_inv_new: "mem_inv (new_guest_memory r)"
  by (simp add: mem_inv_def new_guest_memory_def page_ok_def)

lemma mem_inv_cong: "pages m = pages m' \<Longrightarrow> hprot m = hprot m' \<Longrightarrow> mem_inv m = mem_inv m'"
  by (simp add: mem_inv_def)

lemma log_call_sel [simp]:
  "pages (log_call c m) = pages m" "bytes (log_call c m) = bytes m" "hprot (log_call c m) = hprot m"
  "mem_ok (log_call c m) = mem_ok m" "hlog (log_call c m) = hlog m @ [c]"
  by (simp_all add: log_call_def)

lemma set_flags_sel [simp]:
  "bytes (set_flags a l f m) = bytes m" "hprot (set_flags a l f m) = hprot m"
  "mem_ok (set_flags a l f m) = mem_ok m" "hlog (set_flags a l f m) = hlog m"
  by (simp_all add: set_flags_def)

lemma set_hprot_sel [simp]:
  "bytes (set_hprot a l p m) = bytes m" "pages (set_hprot a l p m) = pages m"
  "mem_ok (set_hprot a l p m) = mem_ok m" "hlog (set_hprot a l p m) = hlog m"
  by (simp_all add: set_hprot_def)

lemma range_pages:
  assumes "4096 dvd unat addr" and "4096 dvd unat len"
  shows "(unat (drop_bit 12 addr) \<le> i \<and> i < unat (drop_bit 12 addr) + unat (drop_bit 12 len))
    = touches addr len i"
  using assms by (auto simp: touches_def word_nat dvd_def)

lemma pages_set_flags:
  assumes "4096 dvd unat addr"
  shows "pages (set_flags addr (page_round_up len) f m) i =
    (if touches addr (page_round_up len) i then f else pages m i)"
  using range_pages [OF assms page_round_up_dvd [of len]]
  by (simp add: set_flags_def set_range_def)

lemma hprot_set_hprot:
  assumes "4096 dvd unat addr"
  shows "hprot (set_hprot addr (page_round_up len) p m) i =
    (if touches addr (page_round_up len) i then p else hprot m i)"
  using range_pages [OF assms page_round_up_dvd [of len]]
  by (simp add: set_hprot_def set_range_def)

lemma page_ok_prot: "page_ok (flags_from_prot prot) (host_prot prot)"
  by (auto simp: page_ok_def)

lemma page_ok_none: "page_ok 0 PROT_NONE"
  by (simp add: page_ok_def)

lemma mem_inv_update:
  assumes "mem_inv m" and "range_valid addr (page_round_up len)" and "unat (page_round_up len) < 2 ^ 63"
    and "page_ok f p"
  shows "mem_inv (set_flags addr (page_round_up len) f (set_hprot addr (page_round_up len) p m))"
proof -
  have fits: "unat addr + unat (page_round_up len) < 18446744073709551616"
    using assms(3) unat_less_u32 [of addr] by simp
  have "4096 dvd unat addr" "unat addr + unat (page_round_up len) \<le> 4294967296"
    using assms(2) range_valid_fits [OF fits] by simp_all
  moreover have "\<not> touches addr (page_round_up len) i" if "1048576 \<le> i" for i
    using that calculation(2) by (simp add: touches_def)
  ultimately show ?thesis
    using assms(1,4) by (auto simp: mem_inv_def pages_set_flags hprot_set_hprot)
qed


text \<open>One step per operation, for a fixed kernel; \<open>bytes_written\<close> stands for any store of
  the guest or of the bridge through a host pointer.\<close>

inductive mem_step :: "kernel \<Rightarrow> guest_memory \<Rightarrow> guest_memory \<Rightarrow> bool" for K where
  step_map_anon: "mem_step K m (snd (map_anon K addr len prot m))"
| step_map_file: "mem_step K m (snd (map_file K file addr len prot share offset m))"
| step_protect: "mem_step K m (snd (protect K addr len prot m))"
| step_unmap: "mem_step K m (snd (unmap K addr len m))"
| step_store: "mem_step K m (store_bytes a xs m)"

lemma kernel_boundedD: "kernel_bounded K \<Longrightarrow> K hist c \<Longrightarrow> unat (call_len c) < 2 ^ 63"
  by (simp add: kernel_bounded_def)

lemma mem_inv_log [simp]: "mem_inv (log_call c m) = mem_inv m"
  by (rule mem_inv_cong) simp_all

lemma mem_inv_bytes [simp]: "mem_inv (m\<lparr>bytes := b\<rparr>) = mem_inv m"
  by (rule mem_inv_cong) simp_all

lemma map_anon_inv:
  "kernel_bounded K \<Longrightarrow> mem_inv m \<Longrightarrow> mem_inv (snd (map_anon K addr len prot m))"
  using kernel_boundedD [of K "hlog m" "Mmap_anon addr (page_round_up len) (host_prot prot)"]
  by (auto simp: map_anon_def Let_def intro!: mem_inv_update page_ok_prot)

lemma map_file_inv:
  "kernel_bounded K \<Longrightarrow> mem_inv m \<Longrightarrow> mem_inv (snd (map_file K file addr len prot share offset m))"
  using kernel_boundedD [of K "hlog m"
      "Mmap_file addr (page_round_up len) (host_prot prot) (share AND 3) offset"]
  by (auto simp: map_file_def Let_def intro!: mem_inv_update page_ok_prot)

lemma protect_inv:
  "kernel_bounded K \<Longrightarrow> mem_inv m \<Longrightarrow> mem_inv (snd (protect K addr len prot m))"
  using kernel_boundedD [of K "hlog m" "Mprotect addr (page_round_up len) (host_prot prot)"]
  by (auto simp: protect_def Let_def intro!: mem_inv_update page_ok_prot)

lemma unmap_inv:
  "kernel_bounded K \<Longrightarrow> mem_inv m \<Longrightarrow> mem_inv (snd (unmap K addr len m))"
  using kernel_boundedD [of K "hlog m" "Mmap_none addr (page_round_up len)"]
  by (auto simp: unmap_def Let_def intro!: mem_inv_update page_ok_none)

lemma store_bytes_inv: "mem_inv m \<Longrightarrow> mem_inv (store_bytes a xs m)"
  by (simp add: store_bytes_def)

lemma mem_step_inv: "mem_step K m m' \<Longrightarrow> kernel_bounded K \<Longrightarrow> mem_inv m \<Longrightarrow> mem_inv m'"
  by (induction rule: mem_step.induct)
    (auto intro: map_anon_inv map_file_inv protect_inv unmap_inv store_bytes_inv)

lemma mem_reachable_inv:
  "(mem_step K)\<^sup>*\<^sup>* (new_guest_memory r) m \<Longrightarrow> kernel_bounded K \<Longrightarrow> mem_inv m"
  by (induction rule: rtranclp_induct) (auto intro: mem_inv_new mem_step_inv)

section \<open>What the protections allow\<close>

lemma prot_bit_cases:
  "prot AND PROT_READ = 0 \<longleftrightarrow> \<not> bit prot 0"
  "prot AND PROT_WRITE = 0 \<longleftrightarrow> \<not> bit prot 1"
  "prot AND PROT_EXEC = 0 \<longleftrightarrow> \<not> bit prot 2"
  "prot AND (PROT_READ OR PROT_EXEC) = 0 \<longleftrightarrow> \<not> bit prot 0 \<and> \<not> bit prot 2"
  using and_exp_eq_0_iff_not_bit [of prot 0] and_exp_eq_0_iff_not_bit [of prot 1]
    and_exp_eq_0_iff_not_bit [of prot 2]
  by (simp_all only: prot_defs bit.conj_disj_distrib or_eq_0_iff) simp_all

lemma flags_from_prot_alt:
  "flags_from_prot prot = 8 OR (if bit prot 0 then 1 else 0) OR (if bit prot 1 then 2 else 0)
     OR (if bit prot 2 then 4 else 0)"
  by (simp add: flags_from_prot_def prot_bit_cases page_flag_defs)

lemma host_prot_alt:
  "host_prot prot = (if bit prot 1 then 3 else if bit prot 0 \<or> bit prot 2 then 1 else 0)"
  by (simp add: host_prot_def prot_bit_cases) (simp add: prot_defs)

lemma need_bits:
  "need AND (kPageRead OR kPageExec) = 0 \<longleftrightarrow> \<not> bit need 0 \<and> \<not> bit need 2"
  "need AND kPageWrite = 0 \<longleftrightarrow> \<not> bit need 1"
  using and_exp_eq_0_iff_not_bit [of need 0] and_exp_eq_0_iff_not_bit [of need 1]
    and_exp_eq_0_iff_not_bit [of need 2]
  by (simp_all only: page_flag_defs bit.conj_disj_distrib or_eq_0_iff) simp_all

lemma bit_flags_from_prot:
  "bit (flags_from_prot prot) 0 = bit prot 0" "bit (flags_from_prot prot) 1 = bit prot 1"
  "bit (flags_from_prot prot) 2 = bit prot 2"
  by (simp_all add: flags_from_prot_alt bit_simps)

text \<open>A page with the flags the bridge asks for lets the host access it in the same way.\<close>

lemma page_ok_access:
  assumes "page_ok f p" and "f AND (need OR kPageMapped) = need OR kPageMapped"
  shows "need AND (kPageRead OR kPageExec) \<noteq> 0 \<Longrightarrow> p AND PROT_READ = PROT_READ"
    and "need AND kPageWrite \<noteq> 0 \<Longrightarrow> p AND (PROT_READ OR PROT_WRITE) = PROT_READ OR PROT_WRITE"
proof -
  have nb: "bit need n \<Longrightarrow> bit f n" for n
    using assms(2) by (metis bit_and_iff bit_or_iff)
  have "f \<noteq> 0"
  proof
    assume "f = 0"
    then have "kPageMapped = 0" using assms(2) by (simp add: eq_commute [of 0] or_eq_0_iff)
    then show False by (simp add: kPageMapped_def)
  qed
  then obtain prot where fp: "f = flags_from_prot prot" "p = host_prot prot"
    using assms(1) by (auto simp: page_ok_def)
  then have "bit need 0 \<Longrightarrow> bit prot 0" "bit need 1 \<Longrightarrow> bit prot 1" "bit need 2 \<Longrightarrow> bit prot 2"
    using nb [of 0] nb [of 1] nb [of 2] bit_flags_from_prot [of prot] by simp_all
  then show "need AND (kPageRead OR kPageExec) \<noteq> 0 \<Longrightarrow> p AND PROT_READ = PROT_READ"
    and "need AND kPageWrite \<noteq> 0 \<Longrightarrow> p AND (PROT_READ OR PROT_WRITE) = PROT_READ OR PROT_WRITE"
    by (auto simp: need_bits fp host_prot_alt prot_defs)
qed

lemma page_ok_no_exec: "page_ok f p \<Longrightarrow> p AND PROT_EXEC = 0"
  by (auto simp: page_ok_def host_prot_alt prot_defs)

lemma page_ok_unmapped: "page_ok f p \<Longrightarrow> f AND kPageMapped = 0 \<Longrightarrow> f = 0 \<and> p = PROT_NONE"
  by (auto simp: page_ok_def flags_from_prot_alt kPageMapped_def bit.conj_disj_distrib or_eq_0_iff)

section \<open>The search for free space\<close>

definition free_run :: "(nat \<Rightarrow> u8) \<Rightarrow> nat \<Rightarrow> nat \<Rightarrow> bool" where
  "free_run pg n i \<longleftrightarrow> (\<forall>j. i \<le> j \<and> j < i + n \<longrightarrow> pg j = 0)"

definition run_inv :: "(nat \<Rightarrow> u8) \<Rightarrow> nat \<Rightarrow> nat \<Rightarrow> nat \<Rightarrow> nat \<Rightarrow> bool" where
  "run_inv pg n hi i run \<longleftrightarrow> run < n \<and> free_run pg run i \<and> i + run \<le> hi \<and>
     (i + run = hi \<or> pg (i + run) \<noteq> 0) \<and> (\<forall>k \<ge> i. k + n \<le> hi \<longrightarrow> \<not> free_run pg n k)"

lemma free_run_extend: "0 < i \<Longrightarrow> pg (i - 1) = 0 \<Longrightarrow> free_run pg run i \<Longrightarrow> free_run pg (Suc run) (i - 1)"
  unfolding free_run_def
proof (intro allI impI)
  fix j assume a: "0 < i" "pg (i - 1) = 0" "\<forall>j. i \<le> j \<and> j < i + run \<longrightarrow> pg j = 0"
    and j: "i - 1 \<le> j \<and> j < i - 1 + Suc run"
  show "pg j = 0" using a j by (cases "j = i - 1") auto
qed

lemma run_inv_extend:
  assumes "run_inv pg n hi i run" and "0 < i" and "pg (i - 1) = 0" and "Suc run < n"
  shows "run_inv pg n hi (i - 1) (Suc run)"
proof -
  have "\<not> free_run pg n k" if "i - 1 \<le> k" "k + n \<le> hi" for k
  proof (cases "k = i - 1")
    case True
    then have "pg (i + run) \<noteq> 0" using assms that by (auto simp: run_inv_def)
    moreover have "k \<le> i + run \<and> i + run < k + n" using True assms by auto
    ultimately show ?thesis by (auto simp: free_run_def)
  next
    case False
    then show ?thesis using that assms by (auto simp: run_inv_def)
  qed
  then show ?thesis using assms free_run_extend [of i pg run] by (auto simp: run_inv_def)
qed

lemma run_inv_reset:
  assumes "run_inv pg n hi i run" and "0 < i" and "pg (i - 1) \<noteq> 0"
  shows "run_inv pg n hi (i - 1) 0"
proof -
  have "\<not> free_run pg n k" if "i - 1 \<le> k" "k + n \<le> hi" for k
  proof (cases "k = i - 1")
    case True
    then show ?thesis using assms by (auto simp: free_run_def run_inv_def intro!: exI [of _ k])
  next
    case False
    then show ?thesis using that assms by (auto simp: run_inv_def)
  qed
  then show ?thesis using assms by (auto simp: run_inv_def free_run_def)
qed

lemma find_free_loop_spec:
  assumes "run_inv pg n hi i run" and "find_free_loop pg n i run = r"
  shows "if r = 0 then \<forall>k \<ge> kLowestAllocPage. k + n \<le> hi \<longrightarrow> \<not> free_run pg n k
    else kLowestAllocPage \<le> r \<and> r + n \<le> hi \<and> free_run pg n r \<and>
      (\<forall>k > r. k + n \<le> hi \<longrightarrow> \<not> free_run pg n k)"
  using assms
proof (induction pg n i run rule: find_free_loop.induct)
  case (1 pg n i run)
  consider "i \<le> kLowestAllocPage" | "i > kLowestAllocPage" "pg (i - 1) = 0" "run + 1 = n"
    | "i > kLowestAllocPage" "pg (i - 1) = 0" "run + 1 \<noteq> n" | "i > kLowestAllocPage" "pg (i - 1) \<noteq> 0"
    by linarith
  then show ?case
  proof cases
    case 1
    then have "r = 0" using "1.prems"(2) by (simp add: find_free_loop.simps [of pg n i run])
    then show ?thesis using 1 "1.prems"(1) by (auto simp: run_inv_def)
  next
    case 2
    then have r: "r = i - 1" using "1.prems"(2) by (simp add: find_free_loop.simps [of pg n i run])
    have "free_run pg n (i - 1)"
      using free_run_extend [of i pg run] 2 "1.prems"(1) by (simp add: run_inv_def)
    moreover have "\<not> free_run pg n k" if "k > i - 1" "k + n \<le> hi" for k
      using that "1.prems"(1) by (auto simp: run_inv_def)
    ultimately show ?thesis using r 2 "1.prems"(1)
      by (auto simp: run_inv_def kLowestAllocPage_def)
  next
    case 3
    then have "Suc run < n" using "1.prems"(1) by (simp add: run_inv_def)
    then have "run_inv pg n hi (i - 1) (run + 1)"
      using run_inv_extend [OF "1.prems"(1) _ 3(2)] 3(1) by simp
    moreover have "find_free_loop pg n (i - 1) (run + 1) = r"
      using "1.prems"(2) 3 by (simp add: find_free_loop.simps [of pg n i run])
    ultimately show ?thesis using "1.IH"(1) [OF 3] by blast
  next
    case 4
    then have "run_inv pg n hi (i - 1) 0"
      using run_inv_reset [OF "1.prems"(1) _ 4(2)] by simp
    moreover have "find_free_loop pg n (i - 1) 0 = r"
      using "1.prems"(2) 4 by (simp add: find_free_loop.simps [of pg n i run])
    ultimately show ?thesis using "1.IH"(2) [OF 4] by blast
  qed
qed

lemma unat_page_addr: "r < 1048576 \<Longrightarrow> unat (push_bit 12 (of_nat r) :: u32) = r * 4096"
  unfolding unsigned_push_bit_eq by (simp add: push_bit_eq_mult take_bit_nat_eq_self unat_of_nat)

lemma touches_page_range:
  assumes "unat addr = r * 4096" and "unat len = n * 4096"
  shows "touches addr len i \<longleftrightarrow> r \<le> i \<and> i < r + n"
proof -
  have "(i * 4096 < r * 4096 + n * 4096) = (i * 4096 < (r + n) * 4096)" by simp
  then show ?thesis using assms by (auto simp: touches_def)
qed

lemma range_free_free_run:
  assumes "0 < unat len" and "unat len \<le> 2 ^ 33" and "4096 dvd unat b"
    and "unat b + n * 4096 \<le> unat (limit :: u32)" and "n = (unat len + 4095) div 4096"
  shows "range_free b len m \<longleftrightarrow> free_run (pages m) n (unat b div 4096)"
proof -
  have len: "unat (page_round_up len) = n * 4096" using assms by (simp add: page_round_up_no_wrap)
  have "unat b = unat b div 4096 * 4096" using assms(3) by simp
  note t = touches_page_range [OF this len]
  have "0 < n" using assms by (simp add: div_greater_zero_iff)
  moreover have "unat b + n * 4096 \<le> 4294967296" using assms(4) unat_less_u32 [of limit] by simp
  ultimately show ?thesis
    unfolding range_free_iff [OF assms(2)] Let_def t free_run_def len using assms(3) by auto
qed

text \<open>What \<open>find_free\<close> looks for: a page-aligned free range of \<open>len\<close> bytes, rounded up to
  pages, between 0x10000 and the limit.\<close>

definition free_candidate :: "u64 \<Rightarrow> u32 \<Rightarrow> guest_memory \<Rightarrow> u32 \<Rightarrow> bool" where
  "free_candidate len limit m b \<longleftrightarrow> 4096 dvd unat b \<and> 65536 \<le> unat b \<and>
     unat b + (unat len + 4095) div 4096 * 4096 \<le> unat limit \<and> range_free b len m"

lemma free_candidate_iff:
  assumes "0 < unat len" and "unat len \<le> 2 ^ 33" and "n = (unat len + 4095) div 4096"
  shows "free_candidate len limit m b \<longleftrightarrow> 4096 dvd unat b \<and> kLowestAllocPage \<le> unat b div 4096 \<and>
      unat b div 4096 + n \<le> unat limit div 4096 \<and> free_run (pages m) n (unat b div 4096)"
proof -
  have "65536 \<le> unat b \<longleftrightarrow> 16 \<le> unat b div 4096"
    by (simp add: less_eq_div_iff_mult_less_eq)
  moreover have "unat b + n * 4096 \<le> unat limit \<longleftrightarrow> unat b div 4096 + n \<le> unat limit div 4096"
    if "4096 dvd unat b"
    using that by (auto simp: less_eq_div_iff_mult_less_eq algebra_simps elim!: dvdE)
  ultimately show ?thesis
    unfolding free_candidate_def kLowestAllocPage_def assms(3) [symmetric]
    using range_free_free_run [OF assms(1,2) _ _ assms(3)] by blast
qed

lemma find_free_cases:
  assumes "0 < unat len" and "unat len \<le> 2 ^ 33" and "n = (unat len + 4095) div 4096"
  obtains r where "unat (find_free len limit m) = r * 4096"
    "if r = 0 then \<forall>k \<ge> kLowestAllocPage. k + n \<le> unat limit div 4096 \<longrightarrow> \<not> free_run (pages m) n k
     else kLowestAllocPage \<le> r \<and> r + n \<le> unat limit div 4096 \<and> free_run (pages m) n r \<and>
       (\<forall>k > r. k + n \<le> unat limit div 4096 \<longrightarrow> \<not> free_run (pages m) n k)"
proof -
  let ?hi = "unat limit div 4096" and ?pg = "pages m"
  have n: "0 < n" using assms by (simp add: div_greater_zero_iff)
  have pages: "unat (drop_bit 12 (page_round_up len)) = n"
    using assms by (simp add: word_nat page_round_up_no_wrap)
  have hi: "unat (drop_bit 12 limit) = ?hi" by (simp add: word_nat)
  show ?thesis
  proof (cases "?hi < kLowestAllocPage \<or> ?hi - kLowestAllocPage < n")
    case True
    then have "find_free len limit m = 0" unfolding find_free_def Let_def pages hi by simp
    with True show ?thesis by (intro that [of 0]) auto
  next
    case False
    define r where "r = find_free_loop ?pg n ?hi 0"
    have "run_inv ?pg n ?hi ?hi 0" using n by (auto simp: run_inv_def free_run_def)
    note spec = find_free_loop_spec [OF this r_def [symmetric]]
    have ff: "find_free len limit m = push_bit 12 (of_nat r)"
      using False n unfolding find_free_def Let_def pages hi r_def by simp
    have "?hi < 1048576" using unat_less_u32 [of limit] by (simp add: less_mult_imp_div_less)
    then have "r < 1048576" using spec by (cases "r = 0") auto
    with spec show ?thesis by (intro that [of r]) (simp_all only: ff unat_page_addr)
  qed
qed

lemma find_free_spec:
  assumes "0 < unat len" and "unat len \<le> 2 ^ 33"
  shows "if find_free len limit m = 0 then \<forall>b. \<not> free_candidate len limit m b
    else free_candidate len limit m (find_free len limit m) \<and>
      (\<forall>b. free_candidate len limit m b \<longrightarrow> b \<le> find_free len limit m)"
proof -
  note cand = free_candidate_iff [OF assms refl, of limit m]
  obtain r where addr: "unat (find_free len limit m) = r * 4096"
    and spec: "if r = 0 then \<forall>k \<ge> kLowestAllocPage. k + (unat len + 4095) div 4096 \<le> unat limit div 4096 \<longrightarrow>
         \<not> free_run (pages m) ((unat len + 4095) div 4096) k
     else kLowestAllocPage \<le> r \<and> r + (unat len + 4095) div 4096 \<le> unat limit div 4096 \<and>
       free_run (pages m) ((unat len + 4095) div 4096) r \<and>
       (\<forall>k > r. k + (unat len + 4095) div 4096 \<le> unat limit div 4096 \<longrightarrow>
         \<not> free_run (pages m) ((unat len + 4095) div 4096) k)"
    using find_free_cases [OF assms refl] .
  show ?thesis
  proof (cases "r = 0")
    case True
    then have "find_free len limit m = 0" using addr by (simp add: word_unat_eq_iff)
    moreover have "\<not> free_candidate len limit m b" for b using spec True unfolding cand by auto
    ultimately show ?thesis by simp
  next
    case r: False
    then have "find_free len limit m \<noteq> 0" using addr by auto
    moreover have "free_candidate len limit m (find_free len limit m)"
      using spec r addr unfolding cand by simp
    moreover have "b \<le> find_free len limit m" if "free_candidate len limit m b" for b
    proof -
      have "unat b div 4096 \<le> r" using that spec r unfolding cand by (auto simp: not_less [symmetric])
      moreover have "unat b = unat b div 4096 * 4096" using that unfolding cand by simp
      ultimately have "unat b \<le> r * 4096" by (metis mult_le_mono1)
      then show ?thesis by (simp add: word_le_nat_alt addr)
    qed
    ultimately show ?thesis by simp
  qed
qed

text \<open>
  C3: \<open>find_free\<close> returns the highest free range: page-aligned, not below 0x10000, ending at
  or below the limit, with every page unmapped and no higher candidate free; it returns 0 exactly
  when there is no such range.
\<close>

theorem find_free_highest:
  assumes "0 < unat len" and "unat len \<le> 2 ^ 33"
  shows "if find_free len limit m = 0 then \<forall>b. \<not> free_candidate len limit m b
    else free_candidate len limit m (find_free len limit m) \<and>
      (\<forall>b. free_candidate len limit m b \<longrightarrow> b \<le> find_free len limit m)"
  using find_free_spec [OF assms] .

theorem find_free_highest_witness:
  "find_free 4097 0x20000 (new_guest_memory True) = 0x1E000 \<and>
   range_free 0x1E000 4097 (new_guest_memory True)"
proof -
  have e: "find_free 4097 0x20000 (new_guest_memory True) = 0x1E000"
    by (simp add: find_free_def page_round_up_def kPageMask_def kPageSize_def new_guest_memory_def
        find_free_loop.simps kLowestAllocPage_def Let_def)
  show ?thesis
    using find_free_highest [of 4097 "0x20000" "new_guest_memory True"] e
    by (simp add: free_candidate_def)
qed

lemma touches_addr: "unat addr \<le> a \<Longrightarrow> a < unat addr + unat len \<Longrightarrow> touches addr len (a div 4096)"
  using div_times_less_eq_dividend [of a 4096] by (simp add: touches_def div_le_mono)


definition accept_all :: kernel where
  "accept_all hist c \<longleftrightarrow> unat (call_len c) < 2 ^ 63"

lemma accept_all_bounded: "kernel_bounded accept_all"
  by (simp add: kernel_bounded_def accept_all_def)

lemmas mem_eval = new_guest_memory_def map_anon_def unmap_def protect_def range_valid_def accessible_def
  set_flags_def set_hprot_def set_range_def log_call_def page_round_up_def kPageMask_def kPageSize_def
  kGuestSpaceSize_def host_prot_def flags_from_prot_def page_flag_defs prot_defs accept_all_def Let_def

definition mem_w :: guest_memory where
  "mem_w = snd (map_anon accept_all 0x10000 4096 3 (new_guest_memory True))"

lemma mem_w_step: "mem_step accept_all (new_guest_memory True) mem_w"
  unfolding mem_w_def by (rule step_map_anon)

lemma mem_w_ok: "map_anon accept_all 0x10000 4096 3 (new_guest_memory True) = (True, mem_w)"
  unfolding mem_w_def by (rule prod_eqI) (simp_all add: mem_eval)


text \<open>
  C12: host memory is never executable, and a page the guest has not mapped is \<open>PROT_NONE\<close> on
  the host, in every state the operations can reach.
\<close>

theorem host_pages_contained:
  assumes "kernel_bounded K" and "(mem_step K)\<^sup>*\<^sup>* (new_guest_memory r) m"
  shows "hprot m i AND PROT_EXEC = 0 \<and>
    (pages m i AND kPageMapped = 0 \<longrightarrow> pages m i = 0 \<and> hprot m i = PROT_NONE) \<and>
    (1048576 \<le> i \<longrightarrow> pages m i = 0)"
  using mem_reachable_inv [OF assms(2,1)] page_ok_no_exec page_ok_unmapped
  by (fastforce simp: mem_inv_def)

theorem host_pages_contained_witness:
  "hprot mem_w 16 AND PROT_EXEC = 0 \<and> pages mem_w 17 AND kPageMapped = 0 \<and> hprot mem_w 17 = PROT_NONE"
proof -
  have "pages mem_w 17 AND kPageMapped = 0" by (simp add: mem_w_def mem_eval)
  then show ?thesis
    using host_pages_contained [OF accept_all_bounded, where r = True and m = mem_w] mem_w_step by blast
qed

lemma map_anon_trueD:
  assumes "map_anon K addr len prot m = (True, m')" and "kernel_bounded K"
  shows "4096 dvd unat addr" and "0 < unat (page_round_up len)"
    and "unat addr + unat (page_round_up len) \<le> 4294967296"
    and "pages m' i = (if touches addr (page_round_up len) i then flags_from_prot prot else pages m i)"
    and "bytes m' a = (if unat addr \<le> a \<and> a < unat addr + unat (page_round_up len) then 0 else bytes m a)"
proof -
  have rv: "range_valid addr (page_round_up len)"
    and K: "K (hlog m) (Mmap_anon addr (page_round_up len) (host_prot prot))"
    using assms(1) by (auto simp: map_anon_def Let_def split: if_splits)
  from K have "unat (page_round_up len) < 2 ^ 63" using kernel_boundedD [OF assms(2)] by fastforce
  then have "unat addr + unat (page_round_up len) < 18446744073709551616"
    using unat_less_u32 [of addr] by simp
  from rv [unfolded range_valid_fits [OF this]]
  show dvd: "4096 dvd unat addr" and "0 < unat (page_round_up len)"
    and "unat addr + unat (page_round_up len) \<le> 4294967296" by simp_all
  have m': "m' = set_flags addr (page_round_up len) (flags_from_prot prot)
                 (set_hprot addr (page_round_up len) (host_prot prot)
                   ((log_call (Mmap_anon addr (page_round_up len) (host_prot prot)) m)\<lparr>bytes :=
                     set_range (unat addr) (unat (page_round_up len)) 0 (bytes m)\<rparr>))"
    using assms(1) by (auto simp: map_anon_def Let_def split: if_splits)
  show "pages m' i = (if touches addr (page_round_up len) i then flags_from_prot prot else pages m i)"
    unfolding m' pages_set_flags [OF dvd] by simp
  show "bytes m' a = (if unat addr \<le> a \<and> a < unat addr + unat (page_round_up len) then 0 else bytes m a)"
    unfolding m' by (simp add: set_range_def)
qed

text \<open>
  C13: a successful anonymous mapping gives exactly the pages of the rounded range the requested
  flags, makes them read as zero, and leaves every other page and byte as it was.
\<close>

theorem map_anon_contract:
  assumes "kernel_bounded K" and "map_anon K addr len prot m = (True, m')"
  shows "unat addr + unat (page_round_up len) \<le> 2 ^ 32 \<and>
    (\<forall>i. pages m' i = (if touches addr (page_round_up len) i then flags_from_prot prot else pages m i)) \<and>
    (\<forall>a. bytes m' a = (if unat addr \<le> a \<and> a < unat addr + unat (page_round_up len) then 0 else bytes m a)) \<and>
    accessible addr (page_round_up len) 0 m'"
proof -
  note t = map_anon_trueD [OF assms(2,1)]
  have "flags_from_prot prot AND kPageMapped = kPageMapped"
    by (simp add: flags_from_prot_alt kPageMapped_def)
  then have "accessible addr (page_round_up len) 0 m'"
    using accessible_iff [of addr "page_round_up len" 0 m'] t(3,4) by simp
  then show ?thesis using t by simp
qed

theorem map_anon_contract_witness:
  "accessible 0x10000 (page_round_up 4096) 0 mem_w \<and> pages mem_w 16 = flags_from_prot 3 \<and> pages mem_w 17 = 0"
proof -
  have t: "touches 0x10000 (page_round_up 4096) 16" "\<not> touches 0x10000 (page_round_up 4096) 17"
    by (simp_all add: touches_def mem_eval)
  show ?thesis
    using map_anon_contract [OF accept_all_bounded mem_w_ok] t by (auto simp: new_guest_memory_def)
qed


lemma mem_w_protect_fails: "protect accept_all 0x10000 8192 1 mem_w = (False, mem_w)"
  by (simp add: mem_w_def mem_eval)


text \<open>
  Mapping at the address \<open>find_free\<close> chose never touches a page that is already mapped.
\<close>

lemma find_free_then_map_preserves:
  assumes "kernel_bounded K" and "0 < unat len" and "unat len \<le> 2 ^ 33"
    and "find_free len limit m \<noteq> 0" and "map_anon K (find_free len limit m) len prot m = (True, m')"
    and "pages m i \<noteq> 0"
  shows "pages m' i = pages m i"
proof -
  let ?at = "find_free len limit m"
  have "range_free ?at len m"
    using find_free_spec [OF assms(2,3), of limit m] assms(4) by (simp add: free_candidate_def)
  then have "\<not> touches ?at (page_round_up len) i"
    using assms(6) by (auto simp: range_free_iff [OF assms(3)] Let_def)
  then show ?thesis using map_anon_trueD(4) [OF assms(5,1)] by simp
qed

text \<open>
  After a successful \<open>unmap\<close> the range is free again and no access to it is allowed.
\<close>

lemma unmap_frees:
  assumes "kernel_bounded K" and "unmap K addr len m = (True, m')" and "unat len \<le> 2 ^ 33"
    and "0 < unat n" and "unat addr \<le> unat a" and "unat a + unat n \<le> unat addr + unat (page_round_up len)"
  shows "range_free addr len m' \<and> \<not> accessible a n need m'"
proof -
  let ?l = "page_round_up len"
  have rv: "range_valid addr ?l" using assms(2) by (auto simp: unmap_def Let_def split: if_splits)
  have "unat ?l \<le> 2 ^ 33 + 4096" using assms(3) by (simp add: page_round_up_no_wrap)
  then have fits: "unat addr + unat ?l < 18446744073709551616" using unat_less_u32 [of addr] by simp
  note rv = rv [unfolded range_valid_fits [OF fits]]
  have "pages m' i = (if touches addr ?l i then 0 else pages m i)" for i
    using assms(2) rv pages_set_flags [of addr len] by (auto simp: unmap_def Let_def split: if_splits)
  note p = this
  have "touches addr ?l (unat a div 4096)" "touches a n (unat a div 4096)"
    using assms(4-6) by (auto intro!: touches_addr)
  moreover have "n \<noteq> 0" using assms(4) by auto
  moreover have "(0 :: u8) \<noteq> need OR kPageMapped"
    by (simp add: eq_commute [of 0] or_eq_0_iff kPageMapped_def)
  ultimately have "\<not> accessible a n need m'"
    using accessible_iff [of a n need m'] assms(6) fits p by auto
  then show ?thesis using p rv by (simp add: range_free_iff [OF assms(3)] Let_def)
qed

text \<open>
  C15: \<open>range_valid\<close> checks the end of a range in 64-bit arithmetic that wraps: it accepts exactly
  the aligned non-empty ranges inside the guest space as long as the sum of address and length
  stays below \<open>2\<^sup>6\<^sup>4\<close>, but also the page-aligned length \<open>2\<^sup>6\<^sup>4 - 0x1000\<close> at address 0x1000,
  whose end wraps to 0.
\<close>

theorem range_valid_exact_unless_wrapped:
  "(unat addr + unat len < 2 ^ 64 \<longrightarrow>
     (range_valid addr len \<longleftrightarrow> 0 < unat len \<and> 4096 dvd unat addr \<and> unat addr + unat len \<le> 2 ^ 32)) \<and>
   range_valid 0x1000 (- 0x1000) \<and> range_free 0x1000 (- 0x1000) m"
proof -
  have "range_free 0x1000 (- 0x1000) m" by (simp add: range_free_def mem_eval)
  moreover have "range_valid 0x1000 (- 0x1000)" by (simp add: mem_eval)
  ultimately show ?thesis using range_valid_fits [of addr len] by simp
qed

theorem range_valid_exact_unless_wrapped_witness:
  "range_valid 0x10000 0x1000 \<and> range_valid 0x1000 (- 0x1000)"
  using range_valid_exact_unless_wrapped [of "0x10000" "0x1000"] by (simp add: dvd_def)

end
