(* ===== verification/Guest_Abi.thy ===== *)
theory Guest_Abi
  imports Guest_Memory
begin

text \<open>
  The 32-bit ARM structures of \<open>core/include/zb/guest_abi.h\<close>: every structure is a record with
  the source's fields, its image in guest memory a list of bytes.  A \<open>memcpy\<close> of a structure
  out of or into guest memory is its decoding or encoding.  Signed fields are words read with
  \<open>sint\<close>; padding that the compiler inserts or that the code clears is written as zero bytes.

  The encodings have exactly the sizes that the source asserts, and decoding inverts encoding.
\<close>

section \<open>Little-endian integers\<close>

definition le16 :: "u16 \<Rightarrow> u8 list" where
  "le16 w = [ucast w, ucast (drop_bit 8 w)]"

definition le32 :: "u32 \<Rightarrow> u8 list" where
  "le32 w = [ucast w, ucast (drop_bit 8 w), ucast (drop_bit 16 w), ucast (drop_bit 24 w)]"

definition le64 :: "u64 \<Rightarrow> u8 list" where
  "le64 w = le32 (ucast w) @ le32 (ucast (drop_bit 32 w))"

fun of_le :: "u8 list \<Rightarrow> 'a::len word" where
  "of_le [] = 0"
| "of_le (b # bs) = ucast b OR push_bit 8 (of_le bs)"

definition of_le16 :: "u8 list \<Rightarrow> u16" where "of_le16 bs = of_le (take 2 bs)"
definition of_le32 :: "u8 list \<Rightarrow> u32" where "of_le32 bs = of_le (take 4 bs)"
definition of_le64 :: "u8 list \<Rightarrow> u64" where "of_le64 bs = of_le (take 8 bs)"

definition words_bytes :: "u32 list \<Rightarrow> u8 list" where
  "words_bytes ws = concat (map le32 ws)"

text \<open>\<open>n\<close> words from the front of a byte image.\<close>

primrec bytes_words :: "nat \<Rightarrow> u8 list \<Rightarrow> u32 list" where
  "bytes_words 0 bs = []"
| "bytes_words (Suc n) bs = of_le32 bs # bytes_words n (drop 4 bs)"

lemma length_le [simp]: "length (le16 h) = 2" "length (le32 w) = 4" "length (le64 d) = 8"
  by (simp_all add: le16_def le32_def le64_def)

lemma of_le16_le16 [simp]: "of_le16 (le16 w @ r) = w"
proof (rule bit_word_eqI)
  fix n assume n: "n < LENGTH(16)"
  have "bit (of_le16 (le16 w @ r)) n \<longleftrightarrow> (n < 8 \<and> bit w n) \<or> (8 \<le> n \<and> bit w n)"
    using n by (auto simp: of_le16_def le16_def bit_simps)
  then show "bit (of_le16 (le16 w @ r)) n = bit w n" by linarith
qed

lemma of_le32_le32 [simp]: "of_le32 (le32 w @ r) = w"
proof (rule bit_word_eqI)
  fix n assume n: "n < LENGTH(32)"
  have "bit (of_le32 (le32 w @ r)) n \<longleftrightarrow>
      (n < 8 \<and> bit w n) \<or> (8 \<le> n \<and> n < 16 \<and> bit w n) \<or> (16 \<le> n \<and> n < 24 \<and> bit w n) \<or> (24 \<le> n \<and> bit w n)"
    using n by (auto simp: of_le32_def le32_def bit_simps)
  then show "bit (of_le32 (le32 w @ r)) n = bit w n" by linarith
qed

lemma of_le_append: "of_le (xs @ ys) = of_le xs OR push_bit (8 * length xs) (of_le ys)"
  by (induction xs) (simp_all add: ac_simps push_bit_add)

lemma of_le_le32: "of_le (le32 w) = (ucast w :: u64)"
proof (rule bit_word_eqI)
  fix n assume n: "n < LENGTH(64)"
  have "bit (of_le (le32 w) :: u64) n \<longleftrightarrow>
      (n < 8 \<and> bit w n) \<or> (8 \<le> n \<and> n < 16 \<and> bit w n) \<or> (16 \<le> n \<and> n < 24 \<and> bit w n) \<or>
      (24 \<le> n \<and> n < 32 \<and> bit w n)"
    using n by (auto simp: le32_def bit_simps)
  then show "bit (of_le (le32 w) :: u64) n = bit (ucast w :: u64) n"
    using n by (auto simp: bit_simps dest: bit_imp_le_length)
qed

lemma of_le64_le64 [simp]: "of_le64 (le64 w @ r) = w"
proof -
  have "of_le64 (le64 w @ r) = of_le (le32 (ucast w) @ le32 (ucast (drop_bit 32 w)))"
    by (simp add: of_le64_def le64_def)
  also have "\<dots> = ucast (ucast w :: u32) OR push_bit 32 (ucast (ucast (drop_bit 32 w) :: u32))"
    by (simp add: of_le_append of_le_le32)
  also have "\<dots> = w" by (rule bit_word_eqI) (auto simp: bit_simps)
  finally show ?thesis .
qed

lemma of_le32_Nil [simp]: "of_le32 (le32 w) = w"
  using of_le32_le32 [of w "[]"] by simp

lemma of_le64_Nil [simp]: "of_le64 (le64 w) = w"
  using of_le64_le64 [of w "[]"] by simp

lemma length_words_bytes [simp]: "length (words_bytes ws) = 4 * length ws"
  by (induction ws) (simp_all add: words_bytes_def)

lemma length_bytes_words [simp]: "length (bytes_words n bs) = n"
  by (induction n arbitrary: bs) simp_all

lemma words_bytes_Cons: "words_bytes (w # ws) = le32 w @ words_bytes ws"
  by (simp add: words_bytes_def)

lemma words_bytes_Nil [simp]: "words_bytes [] = []"
  by (simp add: words_bytes_def)

lemma words_bytes_append: "words_bytes (xs @ ys) = words_bytes xs @ words_bytes ys"
  by (simp add: words_bytes_def)

lemma bytes_words_bytes: "n = length ws \<Longrightarrow> bytes_words n (words_bytes ws @ r) = ws"
  by (induction ws arbitrary: n) (simp_all add: words_bytes_Cons)

section \<open>The structures\<close>

record timespec32 =
  ts_sec :: u32
  ts_nsec :: u32

definition timespec32_bytes :: "timespec32 \<Rightarrow> u8 list" where
  "timespec32_bytes x =
    le32 (ts_sec x) @ le32 (ts_nsec x)"

definition timespec32_of :: "u8 list \<Rightarrow> timespec32" where
  "timespec32_of bs =
    \<lparr>ts_sec = of_le32 bs, ts_nsec = of_le32 (drop 4 bs)\<rparr>"

record timeval32 =
  tv_sec :: u32
  tv_usec :: u32

definition timeval32_bytes :: "timeval32 \<Rightarrow> u8 list" where
  "timeval32_bytes x =
    le32 (tv_sec x) @ le32 (tv_usec x)"

definition timeval32_of :: "u8 list \<Rightarrow> timeval32" where
  "timeval32_of bs =
    \<lparr>tv_sec = of_le32 bs, tv_usec = of_le32 (drop 4 bs)\<rparr>"

record timespec64 =
  ts64_sec :: u64
  ts64_nsec :: u64

definition timespec64_bytes :: "timespec64 \<Rightarrow> u8 list" where
  "timespec64_bytes x =
    le64 (ts64_sec x) @ le64 (ts64_nsec x)"

definition timespec64_of :: "u8 list \<Rightarrow> timespec64" where
  "timespec64_of bs =
    \<lparr>ts64_sec = of_le64 bs, ts64_nsec = of_le64 (drop 8 bs)\<rparr>"

record iovec32 =
  iov_base :: u32
  iov_len :: u32

definition iovec32_bytes :: "iovec32 \<Rightarrow> u8 list" where
  "iovec32_bytes x =
    le32 (iov_base x) @ le32 (iov_len x)"

definition iovec32_of :: "u8 list \<Rightarrow> iovec32" where
  "iovec32_of bs =
    \<lparr>iov_base = of_le32 bs, iov_len = of_le32 (drop 4 bs)\<rparr>"

record stack32 =
  ss_sp :: u32
  ss_flags :: u32
  ss_size :: u32

definition stack32_bytes :: "stack32 \<Rightarrow> u8 list" where
  "stack32_bytes x =
    le32 (ss_sp x) @ le32 (ss_flags x) @ le32 (ss_size x)"

definition stack32_of :: "u8 list \<Rightarrow> stack32" where
  "stack32_of bs =
    \<lparr>ss_sp = of_le32 bs, ss_flags = of_le32 (drop 4 bs),
      ss_size = of_le32 (drop 8 bs)\<rparr>"

record rlimit32 =
  rlim_cur :: u32
  rlim_max :: u32

definition rlimit32_bytes :: "rlimit32 \<Rightarrow> u8 list" where
  "rlimit32_bytes x =
    le32 (rlim_cur x) @ le32 (rlim_max x)"

definition rlimit32_of :: "u8 list \<Rightarrow> rlimit32" where
  "rlimit32_of bs =
    \<lparr>rlim_cur = of_le32 bs, rlim_max = of_le32 (drop 4 bs)\<rparr>"

record ksigaction32 =
  sa_handler :: u32
  sa_flags :: u32
  sa_restorer :: u32
  sa_mask :: "u32 list"

definition ksigaction32_bytes :: "ksigaction32 \<Rightarrow> u8 list" where
  "ksigaction32_bytes x =
    le32 (sa_handler x) @ le32 (sa_flags x) @ le32 (sa_restorer x) @
      words_bytes (vec_resize 2 0 (sa_mask x))"

definition ksigaction32_of :: "u8 list \<Rightarrow> ksigaction32" where
  "ksigaction32_of bs =
    \<lparr>sa_handler = of_le32 bs, sa_flags = of_le32 (drop 4 bs),
      sa_restorer = of_le32 (drop 8 bs), sa_mask = bytes_words 2 (drop 12 bs)\<rparr>"

definition wf_ksigaction32 :: "ksigaction32 \<Rightarrow> bool" where
  "wf_ksigaction32 x \<longleftrightarrow> length (sa_mask x) = 2"

record stat64 =
  st_dev :: u64
  st_ino_trunc :: u32
  st_mode :: u32
  st_nlink :: u32
  st_uid :: u32
  st_gid :: u32
  st_rdev :: u64
  st_size :: u64
  st_blksize :: u32
  st_blocks :: u64
  atime_sec :: u32
  atime_nsec :: u32
  mtime_sec :: u32
  mtime_nsec :: u32
  ctime_sec :: u32
  ctime_nsec :: u32
  st_ino :: u64

definition stat64_bytes :: "stat64 \<Rightarrow> u8 list" where
  "stat64_bytes x =
    le64 (st_dev x) @ replicate 4 0 @ le32 (st_ino_trunc x) @ le32 (st_mode x) @
      le32 (st_nlink x) @ le32 (st_uid x) @ le32 (st_gid x) @ le64 (st_rdev x) @ replicate 8 0 @
      le64 (st_size x) @ le32 (st_blksize x) @ replicate 4 0 @ le64 (st_blocks x) @
      le32 (atime_sec x) @ le32 (atime_nsec x) @ le32 (mtime_sec x) @ le32 (mtime_nsec x) @
      le32 (ctime_sec x) @ le32 (ctime_nsec x) @ le64 (st_ino x)"

definition stat64_of :: "u8 list \<Rightarrow> stat64" where
  "stat64_of bs =
    \<lparr>st_dev = of_le64 bs, st_ino_trunc = of_le32 (drop 12 bs),
      st_mode = of_le32 (drop 16 bs), st_nlink = of_le32 (drop 20 bs),
      st_uid = of_le32 (drop 24 bs), st_gid = of_le32 (drop 28 bs),
      st_rdev = of_le64 (drop 32 bs), st_size = of_le64 (drop 48 bs),
      st_blksize = of_le32 (drop 56 bs), st_blocks = of_le64 (drop 64 bs),
      atime_sec = of_le32 (drop 72 bs), atime_nsec = of_le32 (drop 76 bs),
      mtime_sec = of_le32 (drop 80 bs), mtime_nsec = of_le32 (drop 84 bs),
      ctime_sec = of_le32 (drop 88 bs), ctime_nsec = of_le32 (drop 92 bs),
      st_ino = of_le64 (drop 96 bs)\<rparr>"

record statfs64 =
  f_type :: u32
  f_bsize :: u32
  f_blocks :: u64
  f_bfree :: u64
  f_bavail :: u64
  f_files :: u64
  f_ffree :: u64
  f_fsid :: "u32 list"
  f_namelen :: u32
  f_frsize :: u32
  f_flags :: u32

definition statfs64_bytes :: "statfs64 \<Rightarrow> u8 list" where
  "statfs64_bytes x =
    le32 (f_type x) @ le32 (f_bsize x) @ le64 (f_blocks x) @ le64 (f_bfree x) @
      le64 (f_bavail x) @ le64 (f_files x) @ le64 (f_ffree x) @
      words_bytes (vec_resize 2 0 (f_fsid x)) @ le32 (f_namelen x) @ le32 (f_frsize x) @
      le32 (f_flags x) @ replicate 16 0"

definition statfs64_of :: "u8 list \<Rightarrow> statfs64" where
  "statfs64_of bs =
    \<lparr>f_type = of_le32 bs, f_bsize = of_le32 (drop 4 bs), f_blocks = of_le64 (drop 8 bs),
      f_bfree = of_le64 (drop 16 bs), f_bavail = of_le64 (drop 24 bs),
      f_files = of_le64 (drop 32 bs), f_ffree = of_le64 (drop 40 bs),
      f_fsid = bytes_words 2 (drop 48 bs), f_namelen = of_le32 (drop 56 bs),
      f_frsize = of_le32 (drop 60 bs), f_flags = of_le32 (drop 64 bs)\<rparr>"

definition wf_statfs64 :: "statfs64 \<Rightarrow> bool" where
  "wf_statfs64 x \<longleftrightarrow> length (f_fsid x) = 2"

record siginfo32 =
  si_signo :: u32
  si_errno :: u32
  si_code :: u32
  si_fields :: "u32 list"

definition siginfo32_bytes :: "siginfo32 \<Rightarrow> u8 list" where
  "siginfo32_bytes x =
    le32 (si_signo x) @ le32 (si_errno x) @ le32 (si_code x) @
      words_bytes (vec_resize 29 0 (si_fields x))"

definition siginfo32_of :: "u8 list \<Rightarrow> siginfo32" where
  "siginfo32_of bs =
    \<lparr>si_signo = of_le32 bs, si_errno = of_le32 (drop 4 bs), si_code = of_le32 (drop 8 bs),
      si_fields = bytes_words 29 (drop 12 bs)\<rparr>"

definition wf_siginfo32 :: "siginfo32 \<Rightarrow> bool" where
  "wf_siginfo32 x \<longleftrightarrow> length (si_fields x) = 29"

record sigcontext32 =
  trap_no :: u32
  error_code :: u32
  oldmask :: u32
  sc_regs :: "u32 list"
  sc_cpsr :: u32
  fault_address :: u32

definition sigcontext32_bytes :: "sigcontext32 \<Rightarrow> u8 list" where
  "sigcontext32_bytes x =
    le32 (trap_no x) @ le32 (error_code x) @ le32 (oldmask x) @
      words_bytes (vec_resize 16 0 (sc_regs x)) @ le32 (sc_cpsr x) @ le32 (fault_address x)"

definition sigcontext32_of :: "u8 list \<Rightarrow> sigcontext32" where
  "sigcontext32_of bs =
    \<lparr>trap_no = of_le32 bs, error_code = of_le32 (drop 4 bs),
      oldmask = of_le32 (drop 8 bs), sc_regs = bytes_words 16 (drop 12 bs),
      sc_cpsr = of_le32 (drop 76 bs), fault_address = of_le32 (drop 80 bs)\<rparr>"

definition wf_sigcontext32 :: "sigcontext32 \<Rightarrow> bool" where
  "wf_sigcontext32 x \<longleftrightarrow> length (sc_regs x) = 16"

record ucontext32 =
  uc_flags :: u32
  uc_link :: u32
  uc_stack :: stack32
  uc_mcontext :: sigcontext32
  uc_sigmask :: u64
  uc_regspace :: "u32 list"

definition ucontext32_bytes :: "ucontext32 \<Rightarrow> u8 list" where
  "ucontext32_bytes x =
    le32 (uc_flags x) @ le32 (uc_link x) @ stack32_bytes (uc_stack x) @
      sigcontext32_bytes (uc_mcontext x) @ le64 (uc_sigmask x) @ replicate 120 0 @
      words_bytes (vec_resize 128 0 (uc_regspace x))"

definition ucontext32_of :: "u8 list \<Rightarrow> ucontext32" where
  "ucontext32_of bs =
    \<lparr>uc_flags = of_le32 bs, uc_link = of_le32 (drop 4 bs),
      uc_stack = stack32_of (drop 8 bs), uc_mcontext = sigcontext32_of (drop 20 bs),
      uc_sigmask = of_le64 (drop 104 bs), uc_regspace = bytes_words 128 (drop 232 bs)\<rparr>"

definition wf_ucontext32 :: "ucontext32 \<Rightarrow> bool" where
  "wf_ucontext32 x \<longleftrightarrow> wf_sigcontext32 (uc_mcontext x) \<and> length (uc_regspace x) = 128"

record rt_sigframe32 =
  rt_info :: siginfo32
  rt_uc :: ucontext32

definition rt_sigframe32_bytes :: "rt_sigframe32 \<Rightarrow> u8 list" where
  "rt_sigframe32_bytes x =
    siginfo32_bytes (rt_info x) @ ucontext32_bytes (rt_uc x) @ replicate 16 0"

definition rt_sigframe32_of :: "u8 list \<Rightarrow> rt_sigframe32" where
  "rt_sigframe32_of bs =
    \<lparr>rt_info = siginfo32_of bs, rt_uc = ucontext32_of (drop 128 bs)\<rparr>"

definition wf_rt_sigframe32 :: "rt_sigframe32 \<Rightarrow> bool" where
  "wf_rt_sigframe32 x \<longleftrightarrow> wf_siginfo32 (rt_info x) \<and> wf_ucontext32 (rt_uc x)"

record sigframe32 =
  sf_uc :: ucontext32

definition sigframe32_bytes :: "sigframe32 \<Rightarrow> u8 list" where
  "sigframe32_bytes x =
    ucontext32_bytes (sf_uc x) @ replicate 16 0"

definition sigframe32_of :: "u8 list \<Rightarrow> sigframe32" where
  "sigframe32_of bs =
    \<lparr>sf_uc = ucontext32_of bs\<rparr>"

definition wf_sigframe32 :: "sigframe32 \<Rightarrow> bool" where
  "wf_sigframe32 x \<longleftrightarrow> wf_ucontext32 (sf_uc x)"

record itimerval32 =
  itv_interval :: timeval32
  itv_value :: timeval32

definition itimerval32_bytes :: "itimerval32 \<Rightarrow> u8 list" where
  "itimerval32_bytes x =
    timeval32_bytes (itv_interval x) @ timeval32_bytes (itv_value x)"

definition itimerval32_of :: "u8 list \<Rightarrow> itimerval32" where
  "itimerval32_of bs =
    \<lparr>itv_interval = timeval32_of bs, itv_value = timeval32_of (drop 8 bs)\<rparr>"

record itimerspec32 =
  its_interval :: timespec32
  its_value :: timespec32

definition itimerspec32_bytes :: "itimerspec32 \<Rightarrow> u8 list" where
  "itimerspec32_bytes x =
    timespec32_bytes (its_interval x) @ timespec32_bytes (its_value x)"

definition itimerspec32_of :: "u8 list \<Rightarrow> itimerspec32" where
  "itimerspec32_of bs =
    \<lparr>its_interval = timespec32_of bs, its_value = timespec32_of (drop 8 bs)\<rparr>"

record tms32 =
  tms_utime :: u32
  tms_stime :: u32
  tms_cutime :: u32
  tms_cstime :: u32

definition tms32_bytes :: "tms32 \<Rightarrow> u8 list" where
  "tms32_bytes x =
    le32 (tms_utime x) @ le32 (tms_stime x) @ le32 (tms_cutime x) @ le32 (tms_cstime x)"

definition tms32_of :: "u8 list \<Rightarrow> tms32" where
  "tms32_of bs =
    \<lparr>tms_utime = of_le32 bs, tms_stime = of_le32 (drop 4 bs),
      tms_cutime = of_le32 (drop 8 bs), tms_cstime = of_le32 (drop 12 bs)\<rparr>"

record rusage32 =
  ru_utime :: timeval32
  ru_stime :: timeval32
  ru_fields :: "u32 list"

definition rusage32_bytes :: "rusage32 \<Rightarrow> u8 list" where
  "rusage32_bytes x =
    timeval32_bytes (ru_utime x) @ timeval32_bytes (ru_stime x) @
      words_bytes (vec_resize 14 0 (ru_fields x))"

definition rusage32_of :: "u8 list \<Rightarrow> rusage32" where
  "rusage32_of bs =
    \<lparr>ru_utime = timeval32_of bs, ru_stime = timeval32_of (drop 8 bs),
      ru_fields = bytes_words 14 (drop 16 bs)\<rparr>"

definition wf_rusage32 :: "rusage32 \<Rightarrow> bool" where
  "wf_rusage32 x \<longleftrightarrow> length (ru_fields x) = 14"

record sysinfo32 =
  uptime :: u32
  loads :: "u32 list"
  totalram :: u32
  freeram :: u32
  sharedram :: u32
  bufferram :: u32
  totalswap :: u32
  freeswap :: u32
  procs :: u16
  totalhigh :: u32
  freehigh :: u32
  mem_unit :: u32

definition sysinfo32_bytes :: "sysinfo32 \<Rightarrow> u8 list" where
  "sysinfo32_bytes x =
    le32 (uptime x) @ words_bytes (vec_resize 3 0 (loads x)) @ le32 (totalram x) @
      le32 (freeram x) @ le32 (sharedram x) @ le32 (bufferram x) @ le32 (totalswap x) @
      le32 (freeswap x) @ le16 (procs x) @ replicate 2 0 @ le32 (totalhigh x) @
      le32 (freehigh x) @ le32 (mem_unit x) @ replicate 8 0"

definition sysinfo32_of :: "u8 list \<Rightarrow> sysinfo32" where
  "sysinfo32_of bs =
    \<lparr>uptime = of_le32 bs, loads = bytes_words 3 (drop 4 bs),
      totalram = of_le32 (drop 16 bs), freeram = of_le32 (drop 20 bs),
      sharedram = of_le32 (drop 24 bs), bufferram = of_le32 (drop 28 bs),
      totalswap = of_le32 (drop 32 bs), freeswap = of_le32 (drop 36 bs),
      procs = of_le16 (drop 40 bs), totalhigh = of_le32 (drop 44 bs),
      freehigh = of_le32 (drop 48 bs), mem_unit = of_le32 (drop 52 bs)\<rparr>"

definition wf_sysinfo32 :: "sysinfo32 \<Rightarrow> bool" where
  "wf_sysinfo32 x \<longleftrightarrow> length (loads x) = 3"

record msghdr32 =
  msg_name :: u32
  msg_namelen :: u32
  msg_iov :: u32
  msg_iovlen :: u32
  msg_control :: u32
  msg_controllen :: u32
  msg_flags :: u32

definition msghdr32_bytes :: "msghdr32 \<Rightarrow> u8 list" where
  "msghdr32_bytes x =
    le32 (msg_name x) @ le32 (msg_namelen x) @ le32 (msg_iov x) @ le32 (msg_iovlen x) @
      le32 (msg_control x) @ le32 (msg_controllen x) @ le32 (msg_flags x)"

definition msghdr32_of :: "u8 list \<Rightarrow> msghdr32" where
  "msghdr32_of bs =
    \<lparr>msg_name = of_le32 bs, msg_namelen = of_le32 (drop 4 bs),
      msg_iov = of_le32 (drop 8 bs), msg_iovlen = of_le32 (drop 12 bs),
      msg_control = of_le32 (drop 16 bs), msg_controllen = of_le32 (drop 20 bs),
      msg_flags = of_le32 (drop 24 bs)\<rparr>"

record cmsghdr32 =
  cmsg_len :: u32
  cmsg_level :: u32
  cmsg_type :: u32

definition cmsghdr32_bytes :: "cmsghdr32 \<Rightarrow> u8 list" where
  "cmsghdr32_bytes x =
    le32 (cmsg_len x) @ le32 (cmsg_level x) @ le32 (cmsg_type x)"

definition cmsghdr32_of :: "u8 list \<Rightarrow> cmsghdr32" where
  "cmsghdr32_of bs =
    \<lparr>cmsg_len = of_le32 bs, cmsg_level = of_le32 (drop 4 bs),
      cmsg_type = of_le32 (drop 8 bs)\<rparr>"

section \<open>Sizes and round trips\<close>

lemma vec_resize_id: "length ws = n \<Longrightarrow> vec_resize n x ws = ws"
  by (simp add: vec_resize_def)

lemma length_timespec32 [simp]: "length (timespec32_bytes x) = 8"
  by (simp add: timespec32_bytes_def)

lemma timespec32_of_bytes [simp]: "timespec32_of (timespec32_bytes x @ r) = x"
  by (simp add: timespec32_of_def timespec32_bytes_def bytes_words_bytes vec_resize_id)

lemma length_timeval32 [simp]: "length (timeval32_bytes x) = 8"
  by (simp add: timeval32_bytes_def)

lemma timeval32_of_bytes [simp]: "timeval32_of (timeval32_bytes x @ r) = x"
  by (simp add: timeval32_of_def timeval32_bytes_def bytes_words_bytes vec_resize_id)

lemma length_timespec64 [simp]: "length (timespec64_bytes x) = 16"
  by (simp add: timespec64_bytes_def)

lemma timespec64_of_bytes [simp]: "timespec64_of (timespec64_bytes x @ r) = x"
  by (simp add: timespec64_of_def timespec64_bytes_def bytes_words_bytes vec_resize_id)

lemma length_iovec32 [simp]: "length (iovec32_bytes x) = 8"
  by (simp add: iovec32_bytes_def)

lemma iovec32_of_bytes [simp]: "iovec32_of (iovec32_bytes x @ r) = x"
  by (simp add: iovec32_of_def iovec32_bytes_def bytes_words_bytes vec_resize_id)

lemma length_stack32 [simp]: "length (stack32_bytes x) = 12"
  by (simp add: stack32_bytes_def)

lemma stack32_of_bytes [simp]: "stack32_of (stack32_bytes x @ r) = x"
  by (simp add: stack32_of_def stack32_bytes_def bytes_words_bytes vec_resize_id)

lemma length_rlimit32 [simp]: "length (rlimit32_bytes x) = 8"
  by (simp add: rlimit32_bytes_def)

lemma rlimit32_of_bytes [simp]: "rlimit32_of (rlimit32_bytes x @ r) = x"
  by (simp add: rlimit32_of_def rlimit32_bytes_def bytes_words_bytes vec_resize_id)

lemma length_ksigaction32 [simp]: "length (ksigaction32_bytes x) = 20"
  by (simp add: ksigaction32_bytes_def)

lemma ksigaction32_of_bytes [simp]: "wf_ksigaction32 x \<Longrightarrow> ksigaction32_of (ksigaction32_bytes x @ r) = x"
  by (simp add: ksigaction32_of_def ksigaction32_bytes_def bytes_words_bytes vec_resize_id wf_ksigaction32_def)

lemma length_stat64 [simp]: "length (stat64_bytes x) = 104"
  by (simp add: stat64_bytes_def)

lemma stat64_of_bytes [simp]: "stat64_of (stat64_bytes x @ r) = x"
  by (simp add: stat64_of_def stat64_bytes_def bytes_words_bytes vec_resize_id)

lemma length_statfs64 [simp]: "length (statfs64_bytes x) = 84"
  by (simp add: statfs64_bytes_def)

lemma statfs64_of_bytes [simp]: "wf_statfs64 x \<Longrightarrow> statfs64_of (statfs64_bytes x @ r) = x"
  by (simp add: statfs64_of_def statfs64_bytes_def bytes_words_bytes vec_resize_id wf_statfs64_def)

lemma length_siginfo32 [simp]: "length (siginfo32_bytes x) = 128"
  by (simp add: siginfo32_bytes_def)

lemma siginfo32_of_bytes [simp]: "wf_siginfo32 x \<Longrightarrow> siginfo32_of (siginfo32_bytes x @ r) = x"
  by (simp add: siginfo32_of_def siginfo32_bytes_def bytes_words_bytes vec_resize_id wf_siginfo32_def)

lemma length_sigcontext32 [simp]: "length (sigcontext32_bytes x) = 84"
  by (simp add: sigcontext32_bytes_def)

lemma sigcontext32_of_bytes [simp]: "wf_sigcontext32 x \<Longrightarrow> sigcontext32_of (sigcontext32_bytes x @ r) = x"
  by (simp add: sigcontext32_of_def sigcontext32_bytes_def bytes_words_bytes vec_resize_id wf_sigcontext32_def)

lemma length_ucontext32 [simp]: "length (ucontext32_bytes x) = 744"
  by (simp add: ucontext32_bytes_def)

lemma ucontext32_of_bytes [simp]: "wf_ucontext32 x \<Longrightarrow> ucontext32_of (ucontext32_bytes x @ r) = x"
  by (simp add: ucontext32_of_def ucontext32_bytes_def bytes_words_bytes vec_resize_id wf_ucontext32_def)

lemma length_rt_sigframe32 [simp]: "length (rt_sigframe32_bytes x) = 888"
  by (simp add: rt_sigframe32_bytes_def)

lemma rt_sigframe32_of_bytes [simp]: "wf_rt_sigframe32 x \<Longrightarrow> rt_sigframe32_of (rt_sigframe32_bytes x @ r) = x"
  by (simp add: rt_sigframe32_of_def rt_sigframe32_bytes_def bytes_words_bytes vec_resize_id wf_rt_sigframe32_def)

lemma length_sigframe32 [simp]: "length (sigframe32_bytes x) = 760"
  by (simp add: sigframe32_bytes_def)

lemma sigframe32_of_bytes [simp]: "wf_sigframe32 x \<Longrightarrow> sigframe32_of (sigframe32_bytes x @ r) = x"
  by (simp add: sigframe32_of_def sigframe32_bytes_def bytes_words_bytes vec_resize_id wf_sigframe32_def)

lemma length_itimerval32 [simp]: "length (itimerval32_bytes x) = 16"
  by (simp add: itimerval32_bytes_def)

lemma itimerval32_of_bytes [simp]: "itimerval32_of (itimerval32_bytes x @ r) = x"
  by (simp add: itimerval32_of_def itimerval32_bytes_def bytes_words_bytes vec_resize_id)

lemma length_itimerspec32 [simp]: "length (itimerspec32_bytes x) = 16"
  by (simp add: itimerspec32_bytes_def)

lemma itimerspec32_of_bytes [simp]: "itimerspec32_of (itimerspec32_bytes x @ r) = x"
  by (simp add: itimerspec32_of_def itimerspec32_bytes_def bytes_words_bytes vec_resize_id)

lemma length_tms32 [simp]: "length (tms32_bytes x) = 16"
  by (simp add: tms32_bytes_def)

lemma tms32_of_bytes [simp]: "tms32_of (tms32_bytes x @ r) = x"
  by (simp add: tms32_of_def tms32_bytes_def bytes_words_bytes vec_resize_id)

lemma length_rusage32 [simp]: "length (rusage32_bytes x) = 72"
  by (simp add: rusage32_bytes_def)

lemma rusage32_of_bytes [simp]: "wf_rusage32 x \<Longrightarrow> rusage32_of (rusage32_bytes x @ r) = x"
  by (simp add: rusage32_of_def rusage32_bytes_def bytes_words_bytes vec_resize_id wf_rusage32_def)

lemma length_sysinfo32 [simp]: "length (sysinfo32_bytes x) = 64"
  by (simp add: sysinfo32_bytes_def)

lemma sysinfo32_of_bytes [simp]: "wf_sysinfo32 x \<Longrightarrow> sysinfo32_of (sysinfo32_bytes x @ r) = x"
  by (simp add: sysinfo32_of_def sysinfo32_bytes_def bytes_words_bytes vec_resize_id wf_sysinfo32_def)

lemma length_msghdr32 [simp]: "length (msghdr32_bytes x) = 28"
  by (simp add: msghdr32_bytes_def)

lemma msghdr32_of_bytes [simp]: "msghdr32_of (msghdr32_bytes x @ r) = x"
  by (simp add: msghdr32_of_def msghdr32_bytes_def bytes_words_bytes vec_resize_id)

lemma length_cmsghdr32 [simp]: "length (cmsghdr32_bytes x) = 12"
  by (simp add: cmsghdr32_bytes_def)

lemma cmsghdr32_of_bytes [simp]: "cmsghdr32_of (cmsghdr32_bytes x @ r) = x"
  by (simp add: cmsghdr32_of_def cmsghdr32_bytes_def bytes_words_bytes vec_resize_id)


end
