(* ===== verification/Guest_Thread.thy ===== *)
theory Guest_Thread
  imports Guest_Abi Native_Call
begin

text \<open>
  One guest CPU context (\<open>core/src/guest_thread.cpp\<close>, \<open>core/include/zb/guest_thread.h\<close>) and its
  coprocessor 15 (\<open>core/src/cp15.cpp\<close>).  The JIT (Dynarmic) is third-party code: the registers
  it keeps are fields of the thread, and what it may do between two stops is a sequence of
  \<open>jit_step\<close>s, that is changes of its own registers and calls of the callbacks the thread hands
  it.  \<open>run\<close> and the host-to-guest \<open>call\<close> take the JIT as an argument.

  Atomics are plain fields (each operation is one step); a \<open>compare_exchange_weak\<close> loop is its
  successful iteration.  The futex calls of \<open>park\<close> and \<open>wake\<close> have no state besides the park
  word.
\<close>

section \<open>State\<close>

definition kHostReturnSwi :: u32 where "kHostReturnSwi = 0x5AFFFF"
definition kHostReturnAddress :: u32 where "kHostReturnAddress = 0xFFFF0F00"
definition kCpsrThumb :: u32 where "kCpsrThumb = 0x20"
definition kCpsrEndian :: u32 where "kCpsrEndian = 0x200"
definition kCpsrItMask :: u32 where "kCpsrItMask = 0x0600FC00"

datatype stop_kind = StopNone | StopSvc | StopMemoryFault | StopException | StopInterrupted

text \<open>\<open>Dynarmic::A32::Exception\<close>.\<close>

datatype exception_kind =
    UndefinedInstruction | UnpredictableInstruction | DecodeError | SendEvent | SendEventLocal
  | WaitForInterrupt | WaitForEvent | YieldHint | Breakpoint | PreloadData
  | PreloadDataWithIntentToWrite | PreloadInstruction | NoExecuteFault

record stop =
  kind :: stop_kind
  swi :: u32
  fault_addr :: u32
  fault_write :: bool
  stop_exception :: exception_kind
  stop_pc :: u32

definition empty_stop :: stop where
  "empty_stop = \<lparr>kind = StopNone, swi = 0, fault_addr = 0, fault_write = False,
     stop_exception = UndefinedInstruction, stop_pc = 0\<rparr>"

record guest_thread =
  regs :: "u32 list"
  ext_regs :: "u32 list"
  cpsr :: u32
  fpscr :: u32
  tls :: u32
  tpidrurw :: u32
  processor_id :: nat
  pending_stop :: stop
  interrupt_halt :: bool
  pending_signals :: u64
  pending_info :: "nat \<Rightarrow> siginfo32"
  park_word :: u32
  sigmask :: u64
  altstack :: stack32
  clear_child_tid :: u32
  exit_status :: int
  call_depth :: int
  child_code_cache_size :: nat
  tid :: int

definition zero_info :: siginfo32 where
  "zero_info = \<lparr>si_signo = 0, si_errno = 0, si_code = 0, si_fields = replicate 29 0\<rparr>"

definition new_thread :: "nat \<Rightarrow> guest_thread" where
  "new_thread pid =
     \<lparr>regs = replicate 16 0, ext_regs = replicate 64 0, cpsr = 0, fpscr = 0, tls = 0, tpidrurw = 0,
      processor_id = pid, pending_stop = empty_stop, interrupt_halt = False, pending_signals = 0,
      pending_info = (\<lambda>_. zero_info), park_word = 0, sigmask = 0,
      altstack = \<lparr>ss_sp = 0, ss_flags = 2, ss_size = 0\<rparr>, clear_child_tid = 0, exit_status = 0,
      call_depth = 0, child_code_cache_size = 0, tid = 0\<rparr>"

section \<open>Callbacks of the JIT\<close>

definition check_access :: "guest_memory \<Rightarrow> u32 \<Rightarrow> u32 \<Rightarrow> u8 \<Rightarrow> bool \<Rightarrow> guest_thread \<Rightarrow> bool \<times> guest_thread" where
  "check_access m vaddr len need wr t =
     (if accessible vaddr (ucast len) need m then (True, t)
      else (False,
        if kind (pending_stop t) = StopNone
        then t\<lparr>pending_stop := (pending_stop t)\<lparr>kind := StopMemoryFault, fault_addr := vaddr, fault_write := wr\<rparr>\<rparr>
        else t))"

definition MemoryRead8 :: "guest_memory \<Rightarrow> u32 \<Rightarrow> guest_thread \<Rightarrow> u8 \<times> guest_thread" where
  "MemoryRead8 m vaddr t =
     (let (ok, t') = check_access m vaddr 1 kPageRead False t in (if ok then bytes m (unat vaddr) else 0, t'))"

definition MemoryRead16 :: "guest_memory \<Rightarrow> u32 \<Rightarrow> guest_thread \<Rightarrow> u16 \<times> guest_thread" where
  "MemoryRead16 m vaddr t =
     (let (ok, t') = check_access m vaddr 2 kPageRead False t
      in (if ok then of_le16 (load_bytes (unat vaddr) 2 m) else 0, t'))"

definition MemoryRead32 :: "guest_memory \<Rightarrow> u32 \<Rightarrow> guest_thread \<Rightarrow> u32 \<times> guest_thread" where
  "MemoryRead32 m vaddr t =
     (let (ok, t') = check_access m vaddr 4 kPageRead False t
      in (if ok then of_le32 (load_bytes (unat vaddr) 4 m) else 0, t'))"

definition MemoryRead64 :: "guest_memory \<Rightarrow> u32 \<Rightarrow> guest_thread \<Rightarrow> u64 \<times> guest_thread" where
  "MemoryRead64 m vaddr t =
     (let (ok, t') = check_access m vaddr 8 kPageRead False t
      in (if ok then of_le64 (load_bytes (unat vaddr) 8 m) else 0, t'))"

definition MemoryWrite8 :: "u32 \<Rightarrow> u8 \<Rightarrow> guest_memory \<times> guest_thread \<Rightarrow> guest_memory \<times> guest_thread" where
  "MemoryWrite8 vaddr v = (\<lambda>(m, t).
     let (ok, t') = check_access m vaddr 1 kPageWrite True t
     in (if ok then store_bytes (unat vaddr) [v] m else m, t'))"

definition MemoryWrite16 :: "u32 \<Rightarrow> u16 \<Rightarrow> guest_memory \<times> guest_thread \<Rightarrow> guest_memory \<times> guest_thread" where
  "MemoryWrite16 vaddr v = (\<lambda>(m, t).
     let (ok, t') = check_access m vaddr 2 kPageWrite True t
     in (if ok then store_bytes (unat vaddr) (le16 v) m else m, t'))"

definition MemoryWrite32 :: "u32 \<Rightarrow> u32 \<Rightarrow> guest_memory \<times> guest_thread \<Rightarrow> guest_memory \<times> guest_thread" where
  "MemoryWrite32 vaddr v = (\<lambda>(m, t).
     let (ok, t') = check_access m vaddr 4 kPageWrite True t
     in (if ok then store_bytes (unat vaddr) (le32 v) m else m, t'))"

definition MemoryWrite64 :: "u32 \<Rightarrow> u64 \<Rightarrow> guest_memory \<times> guest_thread \<Rightarrow> guest_memory \<times> guest_thread" where
  "MemoryWrite64 vaddr v = (\<lambda>(m, t).
     let (ok, t') = check_access m vaddr 8 kPageWrite True t
     in (if ok then store_bytes (unat vaddr) (le64 v) m else m, t'))"

definition MemoryWriteExclusive8 ::
  "u32 \<Rightarrow> u8 \<Rightarrow> u8 \<Rightarrow> guest_memory \<times> guest_thread \<Rightarrow> bool \<times> guest_memory \<times> guest_thread" where
  "MemoryWriteExclusive8 vaddr v expected = (\<lambda>(m, t).
     let (ok, t') = check_access m vaddr 1 (kPageRead OR kPageWrite) True t
     in if \<not> ok \<or> bytes m (unat vaddr) \<noteq> expected then (False, m, t')
        else (True, store_bytes (unat vaddr) [v] m, t'))"

definition MemoryWriteExclusive16 ::
  "u32 \<Rightarrow> u16 \<Rightarrow> u16 \<Rightarrow> guest_memory \<times> guest_thread \<Rightarrow> bool \<times> guest_memory \<times> guest_thread" where
  "MemoryWriteExclusive16 vaddr v expected = (\<lambda>(m, t).
     let (ok, t') = check_access m vaddr 2 (kPageRead OR kPageWrite) True t
     in if \<not> ok \<or> of_le16 (load_bytes (unat vaddr) 2 m) \<noteq> expected then (False, m, t')
        else (True, store_bytes (unat vaddr) (le16 v) m, t'))"

definition MemoryWriteExclusive32 ::
  "u32 \<Rightarrow> u32 \<Rightarrow> u32 \<Rightarrow> guest_memory \<times> guest_thread \<Rightarrow> bool \<times> guest_memory \<times> guest_thread" where
  "MemoryWriteExclusive32 vaddr v expected = (\<lambda>(m, t).
     let (ok, t') = check_access m vaddr 4 (kPageRead OR kPageWrite) True t
     in if \<not> ok \<or> of_le32 (load_bytes (unat vaddr) 4 m) \<noteq> expected then (False, m, t')
        else (True, store_bytes (unat vaddr) (le32 v) m, t'))"

definition MemoryWriteExclusive64 ::
  "u32 \<Rightarrow> u64 \<Rightarrow> u64 \<Rightarrow> guest_memory \<times> guest_thread \<Rightarrow> bool \<times> guest_memory \<times> guest_thread" where
  "MemoryWriteExclusive64 vaddr v expected = (\<lambda>(m, t).
     let (ok, t') = check_access m vaddr 8 (kPageRead OR kPageWrite) True t
     in if \<not> ok \<or> of_le64 (load_bytes (unat vaddr) 8 m) \<noteq> expected then (False, m, t')
        else (True, store_bytes (unat vaddr) (le64 v) m, t'))"

definition MemoryReadCode :: "guest_memory \<Rightarrow> u32 \<Rightarrow> u32 option" where
  "MemoryReadCode m vaddr =
     (if \<not> accessible vaddr 4 kPageExec m then None else Some (of_le32 (load_bytes (unat vaddr) 4 m)))"

definition ExceptionRaised :: "u32 \<Rightarrow> exception_kind \<Rightarrow> guest_thread \<Rightarrow> guest_thread" where
  "ExceptionRaised pc ex t =
     (if kind (pending_stop t) = StopNone
      then t\<lparr>pending_stop := (pending_stop t)\<lparr>kind := StopException, stop_exception := ex, stop_pc := pc\<rparr>\<rparr>
      else t)"

definition InterpreterFallback :: "u32 \<Rightarrow> guest_thread \<Rightarrow> guest_thread" where
  "InterpreterFallback pc t =
     (if kind (pending_stop t) = StopNone
      then t\<lparr>pending_stop := (pending_stop t)\<lparr>kind := StopException, stop_exception := UndefinedInstruction,
             stop_pc := pc\<rparr>\<rparr>
      else t)"

definition CallSVC :: "u32 \<Rightarrow> guest_thread \<Rightarrow> guest_thread" where
  "CallSVC n t =
     (if kind (pending_stop t) = StopNone
      then t\<lparr>pending_stop := (pending_stop t)\<lparr>kind := StopSvc, swi := n\<rparr>\<rparr>
      else t)"

section \<open>Coprocessor 15\<close>

text \<open>What an access compiles to: one of the words of the thread, the counter frequency, the
  counter callback, or nothing (the instruction is undefined).\<close>

datatype cp15_access = TPIDRURO | TPIDRURW | CNTFRQ | CNTVCT

definition is_thread_id_reg :: "bool \<Rightarrow> nat \<Rightarrow> nat \<Rightarrow> nat \<Rightarrow> bool" where
  "is_thread_id_reg two opc1 CRn CRm \<longleftrightarrow> \<not> two \<and> opc1 = 0 \<and> CRn = 13 \<and> CRm = 0"

definition CompileSendOneWord :: "bool \<Rightarrow> nat \<Rightarrow> nat \<Rightarrow> nat \<Rightarrow> nat \<Rightarrow> cp15_access option" where
  "CompileSendOneWord two opc1 CRn CRm opc2 =
     (if is_thread_id_reg two opc1 CRn CRm \<and> opc2 = 2 then Some TPIDRURW else None)"

definition CompileGetOneWord :: "bool \<Rightarrow> nat \<Rightarrow> nat \<Rightarrow> nat \<Rightarrow> nat \<Rightarrow> cp15_access option" where
  "CompileGetOneWord two opc1 CRn CRm opc2 =
     (if \<not> two \<and> opc1 = 0 \<and> CRn = 14 \<and> CRm = 0 \<and> opc2 = 0 then Some CNTFRQ
      else if is_thread_id_reg two opc1 CRn CRm then
        (if opc2 = 3 then Some TPIDRURO else if opc2 = 2 then Some TPIDRURW else None)
      else None)"

definition CompileGetTwoWords :: "bool \<Rightarrow> nat \<Rightarrow> nat \<Rightarrow> cp15_access option" where
  "CompileGetTwoWords two opc CRm = (if \<not> two \<and> opc = 1 \<and> CRm = 14 then Some CNTVCT else None)"

fun cp15_write :: "cp15_access \<Rightarrow> u32 \<Rightarrow> guest_thread \<Rightarrow> guest_thread" where
  "cp15_write TPIDRURW v t = t\<lparr>tpidrurw := v\<rparr>"
| "cp15_write TPIDRURO v t = t\<lparr>tls := v\<rparr>"
| "cp15_write _ v t = t"

text \<open>\<open>read_virtual_counter\<close>: nanoseconds from \<open>CLOCK_MONOTONIC\<close>, given as the result of
  \<open>clock_gettime\<close>.\<close>

definition read_virtual_counter :: "(u64 \<times> u64) option \<Rightarrow> u64" where
  "read_virtual_counter now = (case now of None \<Rightarrow> 0 | Some (sec, nsec) \<Rightarrow> sec * 1000000000 + nsec)"

section \<open>Running the JIT\<close>

datatype halt_reason = HaltStop | HaltInterrupt | HaltMemoryAbort | HaltCacheInvalidation

text \<open>\<open>run\<close>: \<open>jit\<close> is \<open>Jit::Run\<close>, which returns the halt reasons.  The loop only goes round
  when another thread invalidated code.\<close>

partial_function (option) run_loop ::
  "(guest_memory \<times> guest_thread \<times> 'w \<Rightarrow> halt_reason set \<times> guest_memory \<times> guest_thread \<times> 'w)
     \<Rightarrow> guest_memory \<times> guest_thread \<times> 'w \<Rightarrow> (guest_memory \<times> guest_thread \<times> 'w) option" where
  "run_loop jit s =
     (let (reason, m, t, w) = jit s
      in if kind (pending_stop t) = StopNone \<and> HaltInterrupt \<in> reason
         then Some (m, t\<lparr>interrupt_halt := False, pending_stop := (pending_stop t)\<lparr>kind := StopInterrupted\<rparr>\<rparr>, w)
         else if kind (pending_stop t) = StopNone \<and> HaltCacheInvalidation \<in> reason
         then run_loop jit (m, t, w)
         else Some (m, t, w))"

definition run ::
  "(guest_memory \<times> guest_thread \<times> 'w \<Rightarrow> halt_reason set \<times> guest_memory \<times> guest_thread \<times> 'w)
     \<Rightarrow> guest_memory \<times> guest_thread \<times> 'w \<Rightarrow> (stop \<times> guest_memory \<times> guest_thread \<times> 'w) option" where
  "run jit = (\<lambda>(m, t, w).
     case run_loop jit (m, t\<lparr>pending_stop := empty_stop\<rparr>, w) of
       None \<Rightarrow> None
     | Some (m', t', w') \<Rightarrow>
         let s = pending_stop t'
         in Some (if kind s \<noteq> StopException then s\<lparr>stop_pc := regs t' ! 15\<rparr> else s, m', t', w'))"

section \<open>Host-to-guest calls\<close>

record guest_result =
  res_r0 :: u32
  res_r1 :: u32

text \<open>The stop loop of \<open>call\<close>; \<open>runf\<close> is \<open>run\<close> and \<open>handle_stop\<close> the handler.\<close>

partial_function (option) call_loop ::
  "(guest_memory \<times> guest_thread \<times> 'w \<Rightarrow> (stop \<times> guest_memory \<times> guest_thread \<times> 'w) option)
     \<Rightarrow> (stop \<Rightarrow> guest_memory \<times> guest_thread \<times> 'w \<Rightarrow> bool \<times> guest_memory \<times> guest_thread \<times> 'w)
     \<Rightarrow> u32 \<Rightarrow> guest_memory \<times> guest_thread \<times> 'w
     \<Rightarrow> (guest_result option \<times> guest_memory \<times> guest_thread \<times> 'w) option" where
  "call_loop runf handle_stop call_sp s =
     (case runf s of
        None \<Rightarrow> None
      | Some (stp, m, t, w) \<Rightarrow>
          if kind stp = StopSvc \<and> swi stp = kHostReturnSwi \<and> regs t ! 13 = call_sp
          then Some (Some \<lparr>res_r0 = regs t ! 0, res_r1 = regs t ! 1\<rparr>, m, t, w)
          else (let (resume, s') = handle_stop stp (m, t, w)
                in if \<not> resume then Some (None, s') else call_loop runf handle_stop call_sp s'))"

definition enter_call :: "u32 \<Rightarrow> guest_call \<Rightarrow> u32 \<Rightarrow> guest_thread \<Rightarrow> guest_thread" where
  "enter_call target args call_sp t =
     t\<lparr>regs := (regs t)[0 := call_regs args ! 0, 1 := call_regs args ! 1, 2 := call_regs args ! 2,
                3 := call_regs args ! 3, 13 := call_sp, 14 := kHostReturnAddress, 15 := target AND NOT 1],
       cpsr := (cpsr t AND NOT (kCpsrThumb OR kCpsrItMask OR kCpsrEndian)) OR
               (if target AND 1 \<noteq> 0 then kCpsrThumb else 0),
       call_depth := call_depth t + 1\<rparr>"

text \<open>What \<open>call\<close> does before it runs the guest: the stack pointer of the frame, the memory
  with the stack arguments and the redirected CPU, or \<open>None\<close> when the call cannot be laid out.\<close>

definition call_setup ::
  "u32 \<Rightarrow> guest_call \<Rightarrow> guest_memory \<times> guest_thread \<Rightarrow> (u32 \<times> guest_memory \<times> guest_thread) option" where
  "call_setup target args = (\<lambda>(m, t).
     let bytes_n = of_nat (length (call_stack args)) * 4 :: u64;
         call_sp = ucast ((ucast (regs t ! 13) - bytes_n) AND (ucast (NOT 7 :: u32) :: u64)) :: u32
     in if bytes_n > ucast (regs t ! 13) then None
        else if bytes_n \<noteq> 0 \<and> host_ptr call_sp bytes_n kPageWrite m = None then None
        else Some (call_sp,
               if bytes_n \<noteq> 0 then store_bytes (unat call_sp) (words_bytes (call_stack args)) m else m,
               enter_call target args call_sp t))"

definition call ::
  "(guest_memory \<times> guest_thread \<times> 'w \<Rightarrow> (stop \<times> guest_memory \<times> guest_thread \<times> 'w) option)
     \<Rightarrow> (stop \<Rightarrow> guest_memory \<times> guest_thread \<times> 'w \<Rightarrow> bool \<times> guest_memory \<times> guest_thread \<times> 'w)
     \<Rightarrow> u32 \<Rightarrow> guest_call \<Rightarrow> guest_memory \<times> guest_thread \<times> 'w
     \<Rightarrow> (guest_result option \<times> guest_memory \<times> guest_thread \<times> 'w) option" where
  "call runf handle_stop target args = (\<lambda>(m, t, w).
     case call_setup target args (m, t) of
       None \<Rightarrow> Some (None, m, t, w)
     | Some (call_sp, m1, t1) \<Rightarrow>
         (case call_loop runf handle_stop call_sp (m1, t1, w) of
            None \<Rightarrow> None
          | Some (result, m', t', w') \<Rightarrow>
              Some (result, m', t'\<lparr>call_depth := call_depth t' - 1, regs := regs t, ext_regs := ext_regs t,
                cpsr := cpsr t, fpscr := fpscr t\<rparr>, w')))"

section \<open>Signals and parking\<close>

definition wake :: "guest_thread \<Rightarrow> guest_thread" where
  "wake t = t\<lparr>park_word := park_word t + 1\<rparr>"

text \<open>\<open>park\<close> sleeps only while the word still has the value \<open>token\<close>.\<close>

definition park_sleeps :: "u32 \<Rightarrow> guest_thread \<Rightarrow> bool" where
  "park_sleeps token t \<longleftrightarrow> park_word t = token"

definition valid_signo :: "u32 \<Rightarrow> bool" where
  "valid_signo s \<longleftrightarrow> 1 \<le> sint s \<and> sint s \<le> 64"

definition sig_bit :: "nat \<Rightarrow> u64" where
  "sig_bit sig = push_bit (sig - 1) 1"

definition post_signal :: "siginfo32 \<Rightarrow> guest_thread \<Rightarrow> guest_thread" where
  "post_signal info t =
     (let sig = unat (si_signo info)
      in if \<not> valid_signo (si_signo info) then t
         else wake (t\<lparr>pending_info := (pending_info t)(sig := info),
                      pending_signals := pending_signals t OR sig_bit sig,
                      interrupt_halt := True\<rparr>))"

text \<open>\<open>std::countr_zero\<close> of a non-zero word.\<close>

definition countr_zero :: "u64 \<Rightarrow> nat" where
  "countr_zero w = (case find (bit w) [0..<64] of None \<Rightarrow> 64 | Some n \<Rightarrow> n)"

definition take_signal :: "u64 \<Rightarrow> guest_thread \<Rightarrow> (siginfo32 \<times> guest_thread) option" where
  "take_signal blocked t =
     (let deliverable = pending_signals t AND NOT blocked
      in if deliverable = 0 then None
         else let b = countr_zero deliverable
              in Some (pending_info t (b + 1),
                       t\<lparr>pending_signals := pending_signals t AND NOT (push_bit b 1)\<rparr>))"

definition has_pending_signals :: "u64 \<Rightarrow> guest_thread \<Rightarrow> bool" where
  "has_pending_signals blocked t \<longleftrightarrow> pending_signals t AND NOT blocked \<noteq> 0"

section \<open>What guest code can change\<close>

text \<open>Between two stops the JIT changes its registers, accesses the coprocessor, and reads and
  writes memory: through the callbacks, or directly through the fastmem window, where the host
  page protections decide.\<close>

inductive jit_step :: "guest_memory \<times> guest_thread \<Rightarrow> guest_memory \<times> guest_thread \<Rightarrow> bool" where
  jit_registers: "jit_step (m, t) (m, t\<lparr>regs := r, ext_regs := e, cpsr := c, fpscr := f\<rparr>)"
| jit_cp15: "CompileSendOneWord two opc1 CRn CRm opc2 = Some a \<Longrightarrow> jit_step (m, t) (m, cp15_write a v t)"
| jit_read8: "jit_step (m, t) (m, snd (MemoryRead8 m addr t))"
| jit_read16: "jit_step (m, t) (m, snd (MemoryRead16 m addr t))"
| jit_read32: "jit_step (m, t) (m, snd (MemoryRead32 m addr t))"
| jit_read64: "jit_step (m, t) (m, snd (MemoryRead64 m addr t))"
| jit_write8: "jit_step (m, t) (MemoryWrite8 addr v8 (m, t))"
| jit_write16: "jit_step (m, t) (MemoryWrite16 addr v16 (m, t))"
| jit_write32: "jit_step (m, t) (MemoryWrite32 addr v32 (m, t))"
| jit_write64: "jit_step (m, t) (MemoryWrite64 addr v64 (m, t))"
| jit_exclusive8: "jit_step (m, t) (snd (MemoryWriteExclusive8 addr v8 x8 (m, t)))"
| jit_exclusive16: "jit_step (m, t) (snd (MemoryWriteExclusive16 addr v16 x16 (m, t)))"
| jit_exclusive32: "jit_step (m, t) (snd (MemoryWriteExclusive32 addr v32 x32 (m, t)))"
| jit_exclusive64: "jit_step (m, t) (snd (MemoryWriteExclusive64 addr v64 x64 (m, t)))"
| jit_fastmem: "hprot m (a div 4096) AND PROT_WRITE \<noteq> 0 \<Longrightarrow> jit_step (m, t) (store_bytes a [v8] m, t)"
| jit_exception: "jit_step (m, t) (m, ExceptionRaised pc ex t)"
| jit_fallback: "jit_step (m, t) (m, InterpreterFallback pc t)"
| jit_svc: "jit_step (m, t) (m, CallSVC n t)"

definition same_kernel_state :: "guest_thread \<Rightarrow> guest_thread \<Rightarrow> bool" where
  "same_kernel_state t t' \<longleftrightarrow> tls t' = tls t \<and> processor_id t' = processor_id t \<and>
     pending_signals t' = pending_signals t \<and> pending_info t' = pending_info t \<and> park_word t' = park_word t \<and>
     sigmask t' = sigmask t \<and> altstack t' = altstack t \<and> clear_child_tid t' = clear_child_tid t \<and>
     exit_status t' = exit_status t \<and> call_depth t' = call_depth t \<and> tid t' = tid t"

definition first_stop_wins :: "guest_thread \<Rightarrow> guest_thread \<Rightarrow> bool" where
  "first_stop_wins t t' \<longleftrightarrow> kind (pending_stop t) \<noteq> StopNone \<longrightarrow> pending_stop t' = pending_stop t"

definition writes_confined :: "guest_memory \<Rightarrow> guest_memory \<Rightarrow> bool" where
  "writes_confined m m' \<longleftrightarrow> mem_ok m' = mem_ok m \<and> pages m' = pages m \<and> hprot m' = hprot m \<and> hlog m' = hlog m \<and>
     (\<forall>a. bytes m' a \<noteq> bytes m a \<longrightarrow> pages m (a div 4096) AND kPageWrite \<noteq> 0)"

lemma page_ok_writable: "page_ok f p \<Longrightarrow> p AND PROT_WRITE \<noteq> 0 \<Longrightarrow> f AND kPageWrite \<noteq> 0"
  by (auto simp: page_ok_def prot_bit_cases need_bits bit_flags_from_prot [simplified] host_prot_alt prot_defs split: if_splits)

lemma check_access_thread:
  "check_access m vaddr len need w t = (ok, t') \<Longrightarrow> same_kernel_state t t' \<and> first_stop_wins t t'"
  by (auto simp: check_access_def same_kernel_state_def first_stop_wins_def split: if_splits)

lemma confined_refl [simp]: "writes_confined m m" "same_kernel_state t t" "first_stop_wins t t"
  by (simp_all add: writes_confined_def same_kernel_state_def first_stop_wins_def)

lemma accessible_writes:
  assumes "accessible vaddr (of_nat n) need m" "need AND kPageWrite = kPageWrite" "length xs = n" "n \<le> 8"
  shows "writes_confined m (store_bytes (unat vaddr) xs m)"
proof -
  have n: "unat (of_nat n :: u64) = n" using assms(4) by (simp add: unat_eq_of_nat)
  have "pages m (a div 4096) AND kPageWrite \<noteq> 0" if a: "unat vaddr \<le> a" "a < unat vaddr + n" for a
  proof -
    have "touches vaddr (of_nat n) (a div 4096)" using a n by (intro touches_addr) simp_all
    moreover have "unat vaddr + unat (of_nat n :: u64) < 18446744073709551616"
      using unat_less_u32 [of vaddr] n assms(4) by simp
    moreover have "(of_nat n :: u64) \<noteq> 0" using a n by auto
    ultimately have "pages m (a div 4096) AND (need OR kPageMapped) = need OR kPageMapped"
      using assms(1) accessible_iff by blast
    then have "bit (need OR kPageMapped) i \<Longrightarrow> bit (pages m (a div 4096)) i" for i by (metis bit_and_iff)
    moreover have "bit need 1"
    proof -
      have "bit kPageWrite 1" by (simp add: kPageWrite_def bit_simps)
      then show ?thesis using assms(2) by (metis bit_and_iff)
    qed
    ultimately have "bit (pages m (a div 4096)) 1" by (simp add: bit_or_iff)
    then show ?thesis by (simp add: need_bits)
  qed
  then show ?thesis using assms(3) by (auto simp: writes_confined_def store_bytes_def)
qed

lemma check_access_writes:
  assumes "check_access m vaddr len need w t = (True, t')" "need AND kPageWrite = kPageWrite"
    "length xs = unat len" "unat len \<le> 8"
  shows "writes_confined m (store_bytes (unat vaddr) xs m)"
proof -
  have "accessible vaddr (of_nat (unat len)) need m"
    using assms(1) by (auto simp: check_access_def of_nat_unat split: if_splits)
  then show ?thesis using accessible_writes assms by blast
qed

definition step_confined :: "guest_memory \<times> guest_thread \<Rightarrow> guest_memory \<times> guest_thread \<Rightarrow> bool" where
  "step_confined s s' \<longleftrightarrow> writes_confined (fst s) (fst s') \<and> same_kernel_state (snd s) (snd s') \<and>
     first_stop_wins (snd s) (snd s')"

lemma step_confinedI:
  "writes_confined m m' \<Longrightarrow> same_kernel_state t t' \<and> first_stop_wins t t' \<Longrightarrow> step_confined (m, t) (m', t')"
  by (simp add: step_confined_def)

lemma rw_need: "(kPageRead OR kPageWrite) AND kPageWrite = kPageWrite" "kPageWrite AND kPageWrite = kPageWrite"
  by (simp_all add: page_flag_defs)

lemma callback_writes_confined:
  "step_confined (m, t) (MemoryWrite8 a v8 (m, t))" "step_confined (m, t) (MemoryWrite16 a v16 (m, t))"
  "step_confined (m, t) (MemoryWrite32 a v32 (m, t))" "step_confined (m, t) (MemoryWrite64 a v64 (m, t))"
  "step_confined (m, t) (snd (MemoryWriteExclusive8 a v8 x8 (m, t)))"
  "step_confined (m, t) (snd (MemoryWriteExclusive16 a v16 x16 (m, t)))"
  "step_confined (m, t) (snd (MemoryWriteExclusive32 a v32 x32 (m, t)))"
  "step_confined (m, t) (snd (MemoryWriteExclusive64 a v64 x64 (m, t)))"
  by (auto simp: MemoryWrite8_def MemoryWrite16_def MemoryWrite32_def MemoryWrite64_def
      MemoryWriteExclusive8_def MemoryWriteExclusive16_def MemoryWriteExclusive32_def MemoryWriteExclusive64_def
      split: prod.splits intro!: step_confinedI dest: check_access_thread
      elim!: check_access_writes [OF _ rw_need(1)] check_access_writes [OF _ rw_need(2)])

lemma callback_reads_confined:
  "step_confined (m, t) (m, snd (MemoryRead8 m a t))" "step_confined (m, t) (m, snd (MemoryRead16 m a t))"
  "step_confined (m, t) (m, snd (MemoryRead32 m a t))" "step_confined (m, t) (m, snd (MemoryRead64 m a t))"
  by (auto simp: MemoryRead8_def MemoryRead16_def MemoryRead32_def MemoryRead64_def
      split: prod.splits intro!: step_confinedI dest: check_access_thread)

lemma cp15_confined:
  "CompileSendOneWord two opc1 CRn CRm opc2 = Some a \<Longrightarrow> step_confined (m, t) (m, cp15_write a v t)"
  by (auto simp: CompileSendOneWord_def step_confined_def same_kernel_state_def first_stop_wins_def split: if_splits)

lemma events_confined:
  "step_confined (m, t) (m, t\<lparr>regs := r, ext_regs := e, cpsr := c, fpscr := f\<rparr>)"
  "step_confined (m, t) (m, ExceptionRaised pc ex t)" "step_confined (m, t) (m, InterpreterFallback pc t)"
  "step_confined (m, t) (m, CallSVC n t)"
  by (auto simp: step_confined_def same_kernel_state_def first_stop_wins_def ExceptionRaised_def
      InterpreterFallback_def CallSVC_def)

lemma fastmem_confined:
  assumes "mem_inv m" "hprot m (a div 4096) AND PROT_WRITE \<noteq> 0"
  shows "step_confined (m, t) (store_bytes a [v] m, t)"
proof -
  have "pages m (a div 4096) AND kPageWrite \<noteq> 0"
    using assms page_ok_writable by (auto simp: mem_inv_def)
  then have "writes_confined m (store_bytes a [v] m)"
    unfolding writes_confined_def store_bytes_def by (auto simp: le_less_Suc_eq)
  then show ?thesis by (simp add: step_confined_def)
qed

lemmas confined = callback_writes_confined callback_reads_confined events_confined

lemma jit_step_confined: "jit_step s s' \<Longrightarrow> mem_inv (fst s) \<Longrightarrow> step_confined s s'"
  by (induction rule: jit_step.induct) (simp_all add: confined cp15_confined fastmem_confined)

lemma writes_confined_inv: "writes_confined m m' \<Longrightarrow> mem_inv m \<Longrightarrow> mem_inv m'"
  by (simp add: writes_confined_def mem_inv_def)

lemma writes_confined_trans: "writes_confined m m' \<Longrightarrow> writes_confined m' m'' \<Longrightarrow> writes_confined m m''"
  unfolding writes_confined_def by metis

lemma step_confined_trans: "step_confined s s' \<Longrightarrow> step_confined s' s'' \<Longrightarrow> step_confined s s''"
  by (auto simp: step_confined_def same_kernel_state_def first_stop_wins_def intro: writes_confined_trans)

lemma jit_steps_confined: "jit_step\<^sup>*\<^sup>* s s' \<Longrightarrow> mem_inv (fst s) \<Longrightarrow> step_confined s s'"
proof (induction rule: rtranclp_induct)
  case base
  show ?case by (simp add: step_confined_def)
next
  case (step s' s'')
  then have "mem_inv (fst s')" using writes_confined_inv by (auto simp: step_confined_def)
  then show ?case using step jit_step_confined step_confined_trans by blast
qed



section \<open>Host-to-guest calls: layout and return\<close>

definition loads_words :: "guest_memory \<Rightarrow> u32 \<Rightarrow> nat \<Rightarrow> u32 list" where
  "loads_words m addr n = bytes_words n (load_bytes (unat addr) (4 * n) m)"

lemma and_not_mask_low:
  "(ucast ((x :: u64) AND ucast (NOT (mask k) :: u32)) :: u32) = ucast x AND NOT (mask k)"
  by (rule bit_word_eqI) (auto simp: bit_simps)

lemma unat_and_not7:
  assumes "unat x < 2 ^ 32"
  shows "unat (ucast ((x :: u64) AND ucast (NOT 7 :: u32)) :: u32) = unat x div 8 * 8"
proof -
  have "(7 :: u32) = mask 3" by (simp add: mask_eq_exp_minus_1)
  then have "(ucast (x AND ucast (NOT 7 :: u32)) :: u32) = ucast x AND NOT (mask 3)"
    by (simp only: and_not_mask_low)
  moreover have "unat (ucast x :: u32) = unat x"
    using assms by (simp add: unsigned_ucast_eq take_bit_nat_eq_self)
  ultimately show ?thesis by (simp only: unat_and_not_mask) simp
qed

lemma store_bytes_Nil [simp]: "store_bytes a [] m = m"
proof -
  have "(\<lambda>i. if a \<le> i \<and> i < a then [] ! (i - a) else bytes m i) = bytes m" by (rule ext) auto
  then show ?thesis by (simp add: store_bytes_def)
qed

text \<open>The conditions under which a call can be laid out, as numbers.\<close>

lemma call_setup_numbers:
  assumes "length (call_stack args) < 2 ^ 30" and "call_setup target args (m, t) = Some (sp, m1, t1)"
  shows "4 * length (call_stack args) \<le> unat (regs t ! 13)"
    "unat sp = (unat (regs t ! 13) - 4 * length (call_stack args)) div 8 * 8"
    "call_stack args \<noteq> [] \<Longrightarrow> accessible sp (of_nat (4 * length (call_stack args))) kPageWrite m"
    "m1 = store_bytes (unat sp) (words_bytes (call_stack args)) m"
    "t1 = enter_call target args sp t"
proof -
  let ?n = "of_nat (length (call_stack args)) * 4 :: u64" and ?l = "length (call_stack args)"
  have "?n = of_nat (4 * ?l)" by simp
  then have n: "unat ?n = 4 * ?l" using assms(1) unat_eq_of_nat [where ?'a = 64, of "4 * ?l"]
    by (simp add: mult.commute)
  have le: "4 * ?l \<le> unat (regs t ! 13)"
    using assms(2) n by (auto simp: call_setup_def Let_def word_less_nat_alt word_nat split: if_splits)
  then show "4 * ?l \<le> unat (regs t ! 13)" .
  have "unat (ucast (regs t ! 13) - ?n) = unat (regs t ! 13) - 4 * ?l"
    using le n by (simp add: unat_sub_if' word_nat)
  moreover have "unat (regs t ! 13) < 2 ^ 32" using unat_less_u32 by simp
  ultimately have sp: "unat (ucast ((ucast (regs t ! 13) - ?n) AND ucast (NOT 7 :: u32)) :: u32) =
      (unat (regs t ! 13) - 4 * ?l) div 8 * 8"
    by (subst unat_and_not7) simp_all
  show "unat sp = (unat (regs t ! 13) - 4 * ?l) div 8 * 8"
    using assms(2) sp unfolding call_setup_def by (auto simp: Let_def split: if_splits)
  have z: "(?n = 0) = (call_stack args = [])" using n by (auto simp: unat_eq_zero [symmetric])
  show "call_stack args \<noteq> [] \<Longrightarrow> accessible sp (of_nat (4 * ?l)) kPageWrite m"
    using assms(2) z by (auto simp: call_setup_def Let_def host_ptr_def mult.commute split: if_splits)
  show "m1 = store_bytes (unat sp) (words_bytes (call_stack args)) m"
    using assms(2) z by (auto simp: call_setup_def Let_def split: if_splits)
  show "t1 = enter_call target args sp t"
    using assms(2) by (auto simp: call_setup_def Let_def split: if_splits)
qed

lemma list4: "length xs = 4 \<Longrightarrow> [xs ! 0, xs ! 1, xs ! 2, xs ! 3] = xs"
  by (rule nth_equalityI) (auto simp: less_Suc_eq numeral_eq_Suc)

lemma enter_call_regs:
  assumes "length (regs t) = 16" "length (call_regs args) = 4"
  shows "take 4 (regs (enter_call target args sp t)) = call_regs args"
    "regs (enter_call target args sp t) ! 13 = sp" "regs (enter_call target args sp t) ! 14 = kHostReturnAddress"
    "regs (enter_call target args sp t) ! 15 = target AND NOT 1"
proof -
  have "take 4 (regs (enter_call target args sp t)) =
      [call_regs args ! 0, call_regs args ! 1, call_regs args ! 2, call_regs args ! 3]"
    using assms(1) by (intro nth_equalityI) (auto simp: enter_call_def less_Suc_eq numeral_eq_Suc)
  then show "take 4 (regs (enter_call target args sp t)) = call_regs args" using list4 [OF assms(2)] by simp
qed (use assms in \<open>simp_all add: enter_call_def\<close>)

lemma bit_cpsr_thumb: "bit ((c AND NOT (kCpsrThumb OR kCpsrItMask OR kCpsrEndian)) OR (if b then kCpsrThumb else 0)) 5 = b"
  by (simp add: kCpsrThumb_def kCpsrItMask_def kCpsrEndian_def bit_simps)

lemma cpsr_enter_call: "cpsr (enter_call target args sp t) =
    (cpsr t AND NOT (kCpsrThumb OR kCpsrItMask OR kCpsrEndian)) OR (if target AND 1 \<noteq> 0 then kCpsrThumb else 0)"
  by (simp add: enter_call_def)

text \<open>
  C26: The frame of a host-to-guest call follows the AAPCS32: the stack pointer is 8-byte aligned
  and below the interrupted one, r0-r3 followed by the words at the stack pointer are exactly the
  arguments, the return address is the host return stub, the Thumb bit follows bit 0 of the
  target, and no other byte of guest memory changes.
\<close>

theorem guest_call_layout:
  assumes "length (regs t) = 16" and "length (call_regs args) = 4" and "length (call_stack args) < 2 ^ 30"
    and "call_setup target args (m, t) = Some (sp, m1, t1)"
  shows "8 dvd unat sp \<and> unat sp + 4 * length (call_stack args) \<le> unat (regs t ! 13) \<and>
     take 4 (regs t1) @ loads_words m1 sp (length (call_stack args)) = call_regs args @ call_stack args \<and>
     regs t1 ! 13 = sp \<and> regs t1 ! 14 = kHostReturnAddress \<and> regs t1 ! 15 = target AND NOT 1 \<and>
     bit (cpsr t1) 5 = (target AND 1 \<noteq> 0) \<and> pages m1 = pages m \<and>
     (\<forall>a. a < unat sp \<or> unat sp + 4 * length (call_stack args) \<le> a \<longrightarrow> bytes m1 a = bytes m a)"
proof -
  note c = call_setup_numbers [OF assms(3,4)]
  note r = enter_call_regs [OF assms(1,2), of target sp]
  have "loads_words m1 sp (length (call_stack args)) = call_stack args"
    using bytes_words_bytes [of "length (call_stack args)" "call_stack args" "[]"]
    by (simp add: loads_words_def c(4) load_store_same)
  moreover have "bytes m1 a = bytes m a" if "a < unat sp \<or> unat sp + 4 * length (call_stack args) \<le> a" for a
    using that by (auto simp: c(4) store_bytes_def)
  moreover have "unat sp + 4 * length (call_stack args) \<le> unat (regs t ! 13)"
    using c(1,2) div_times_less_eq_dividend [of "unat (regs t ! 13) - 4 * length (call_stack args)" 8] by linarith
  moreover have "bit (cpsr t1) 5 = (target AND 1 \<noteq> 0)"
    by (simp only: c(5) cpsr_enter_call bit_cpsr_thumb)
  moreover have "8 dvd unat sp" using c(2) by simp
  moreover have "pages m1 = pages m" by (simp add: c(4))
  ultimately show ?thesis unfolding c(5) r by simp
qed

definition thread_w :: guest_thread where
  "thread_w = (new_thread 0)\<lparr>regs := (replicate 16 0)[13 := 0x10ffc], cpsr := 0x10\<rparr>"

definition call_w :: guest_call where
  "call_w = \<lparr>call_regs = [1, 2, 3, 4], call_stack = [5, 6]\<rparr>"

lemma call_setup_w:
  "call_setup 0x20001 call_w (mem_w, thread_w) =
     Some (0x10ff0, store_bytes 0x10ff0 (words_bytes [5, 6]) mem_w, enter_call 0x20001 call_w 0x10ff0 thread_w)"
  by (simp add: call_setup_def call_w_def thread_w_def host_ptr_def mem_w_def mem_eval)

theorem guest_call_layout_witness:
  "take 4 (regs (enter_call 0x20001 call_w 0x10ff0 thread_w)) @
     loads_words (store_bytes 0x10ff0 (words_bytes [5, 6]) mem_w) 0x10ff0 2 = [1, 2, 3, 4, 5, 6] \<and>
   bit (cpsr (enter_call 0x20001 call_w 0x10ff0 thread_w)) 5"
proof -
  have "length (regs thread_w) = 16" "length (call_regs call_w) = 4" "length (call_stack call_w) < 2 ^ 30"
    by (simp_all add: thread_w_def call_w_def)
  from guest_call_layout [OF this call_setup_w] show ?thesis by (simp add: call_w_def numeral_2_eq_2)
qed

section \<open>Host-to-guest calls: the stop loop\<close>

text \<open>One round of the loop that the handler resumes.\<close>

definition handled_stop ::
  "(guest_memory \<times> guest_thread \<times> 'w \<Rightarrow> (stop \<times> guest_memory \<times> guest_thread \<times> 'w) option)
     \<Rightarrow> (stop \<Rightarrow> guest_memory \<times> guest_thread \<times> 'w \<Rightarrow> bool \<times> guest_memory \<times> guest_thread \<times> 'w)
     \<Rightarrow> u32 \<Rightarrow> guest_memory \<times> guest_thread \<times> 'w \<Rightarrow> guest_memory \<times> guest_thread \<times> 'w \<Rightarrow> bool" where
  "handled_stop runf h sp s s' \<longleftrightarrow> (\<exists>stp m t w. runf s = Some (stp, m, t, w) \<and>
     \<not> (kind stp = StopSvc \<and> swi stp = kHostReturnSwi \<and> regs t ! 13 = sp) \<and> h stp (m, t, w) = (True, s'))"

lemma call_loop_handled:
  assumes "(handled_stop runf h sp)\<^sup>*\<^sup>* s s'"
  shows "call_loop runf h sp s = call_loop runf h sp s'"
  using assms
proof (induction rule: converse_rtranclp_induct)
  case (step s u)
  then show ?case by (auto simp: handled_stop_def call_loop.simps [of runf h sp s])
qed simp

lemma call_loop_return:
  assumes "(handled_stop runf h sp)\<^sup>*\<^sup>* s s'" "runf s' = Some (stp, m, t, w)"
    "kind stp = StopSvc" "swi stp = kHostReturnSwi" "regs t ! 13 = sp"
  shows "call_loop runf h sp s = Some (Some \<lparr>res_r0 = regs t ! 0, res_r1 = regs t ! 1\<rparr>, m, t, w)"
  using assms by (simp add: call_loop_handled [OF assms(1)] call_loop.simps [of runf h sp s'])

text \<open>
  C27: A host-to-guest call ends and gives the CPU back.  When, after any number of stops that the
  handler resumes, the guest executes the return stub with the frame's stack pointer, the call
  returns the guest's r0 and r1, and the general, extension and status registers are those of the
  interrupted context; the handler's effects on memory and on the rest of the thread stay.
\<close>

theorem guest_call_returns:
  assumes "call_setup target args (m, t) = Some (sp, m1, t1)"
    and "(handled_stop runf h sp)\<^sup>*\<^sup>* (m1, t1, w) s" and "runf s = Some (stp, m2, t2, w2)"
    and "kind stp = StopSvc" and "swi stp = kHostReturnSwi" and "regs t2 ! 13 = sp"
  shows "\<exists>t'. call runf h target args (m, t, w) =
       Some (Some \<lparr>res_r0 = regs t2 ! 0, res_r1 = regs t2 ! 1\<rparr>, m2, t', w2) \<and>
     regs t' = regs t \<and> ext_regs t' = ext_regs t \<and> cpsr t' = cpsr t \<and> fpscr t' = fpscr t \<and>
     call_depth t' = call_depth t2 - 1 \<and> sigmask t' = sigmask t2 \<and> pending_signals t' = pending_signals t2"
  using call_loop_return [OF assms(2-6)] assms(1) by (simp add: call_def)

text \<open>A guest function that returns its first argument plus one.\<close>

definition run_w :: "guest_memory \<times> guest_thread \<times> unit \<Rightarrow> (stop \<times> guest_memory \<times> guest_thread \<times> unit) option" where
  "run_w = (\<lambda>(m, t, w). Some (empty_stop\<lparr>kind := StopSvc, swi := kHostReturnSwi\<rparr>, m,
     t\<lparr>regs := (regs t)[0 := regs t ! 0 + 1]\<rparr>, w))"

theorem guest_call_returns_witness:
  "\<exists>t' m'. call run_w (\<lambda>_ s. (False, s)) 0x20001 call_w (mem_w, thread_w, ()) =
       Some (Some \<lparr>res_r0 = 2, res_r1 = 2\<rparr>, m', t', ()) \<and> regs t' = regs thread_w \<and> cpsr t' = 0x10"
proof -
  let ?t1 = "enter_call 0x20001 call_w 0x10ff0 thread_w"
  have "\<exists>t'. call run_w (\<lambda>_ s. (False, s)) 0x20001 call_w (mem_w, thread_w, ()) =
      Some (Some \<lparr>res_r0 = (regs ?t1)[0 := regs ?t1 ! 0 + 1] ! 0, res_r1 = (regs ?t1)[0 := regs ?t1 ! 0 + 1] ! 1\<rparr>,
        store_bytes 0x10ff0 (words_bytes [5, 6]) mem_w, t', ()) \<and> regs t' = regs thread_w \<and> cpsr t' = cpsr thread_w"
    using guest_call_returns [OF call_setup_w rtranclp.rtrancl_refl, where runf = run_w and w = "()"
        and h = "\<lambda>_ s. (False, s)"]
    by (auto simp: run_w_def empty_stop_def enter_call_regs thread_w_def call_w_def new_thread_def enter_call_def)
  then show ?thesis by (auto simp: enter_call_def thread_w_def call_w_def new_thread_def)
qed

section \<open>Pending signals\<close>

lemma find_upt:
  assumes "P k" "k < n"
  shows "\<exists>b. find P [0..<n] = Some b \<and> b < n \<and> P b \<and> (\<forall>i < b. \<not> P i)"
proof -
  have "find P [0..<n] \<noteq> None" using assms by (auto simp: find_None_iff)
  then obtain b where b: "find P [0..<n] = Some b" by auto
  then obtain i where "i < n" "P ([0..<n] ! i)" "b = [0..<n] ! i" "\<forall>j < i. \<not> P ([0..<n] ! j)"
    by (auto simp: find_Some_iff)
  then show ?thesis using b by auto
qed

lemma countr_zero_spec:
  assumes "w \<noteq> 0"
  shows "countr_zero w < 64" "bit w (countr_zero w)" "i < countr_zero w \<Longrightarrow> \<not> bit w i"
proof -
  obtain k where k: "bit w k" using assms by (auto simp: bit_eq_iff)
  moreover have "k < 64" using bit_imp_le_length [OF k] by simp
  ultimately have "bit w k" "k < 64" by simp_all
  from find_upt [of "bit w", OF this] obtain b where
    "find (bit w) [0..<64] = Some b" "b < 64" "bit w b" "\<forall>i < b. \<not> bit w i" by blast
  then show "countr_zero w < 64" "bit w (countr_zero w)" "i < countr_zero w \<Longrightarrow> \<not> bit w i"
    by (simp_all add: countr_zero_def)
qed

lemma take_signal_SomeD:
  assumes "take_signal blocked t = Some (info, t')"
  obtains b where "b < 64" "bit (pending_signals t) b" "\<not> bit blocked b"
    "\<And>i. i < b \<Longrightarrow> bit (pending_signals t) i \<Longrightarrow> bit blocked i"
    "info = pending_info t (b + 1)" "t' = t\<lparr>pending_signals := pending_signals t AND NOT (push_bit b 1)\<rparr>"
proof -
  let ?d = "pending_signals t AND NOT blocked" let ?b = "countr_zero ?d"
  have d: "?d \<noteq> 0" using assms by (auto simp: take_signal_def Let_def)
  note c = countr_zero_spec [OF d]
  show thesis
  proof (rule that [of ?b])
    show "?b < 64" by (rule c)
    show "bit (pending_signals t) ?b" "\<not> bit blocked ?b" using c(1,2) by (auto simp: bit_simps)
    fix i assume i: "i < ?b" "bit (pending_signals t) i"
    then show "bit blocked i" using c(3) [OF i(1)] c(1) by (auto simp: bit_simps)
  qed (use assms d in \<open>auto simp: take_signal_def Let_def\<close>)
qed

lemma take_signal_NoneD: "take_signal blocked t = None \<Longrightarrow> bit (pending_signals t) i \<Longrightarrow> bit blocked i"
proof -
  assume a: "take_signal blocked t = None" and i: "bit (pending_signals t) i"
  then have "pending_signals t AND NOT blocked = 0" by (auto simp: take_signal_def Let_def split: if_splits)
  then have "\<not> bit (pending_signals t AND NOT blocked) i" by simp
  then show ?thesis using i by (auto simp: bit_simps dest: bit_imp_le_length)
qed

lemma bit_clear:
  "bit (w AND NOT (push_bit b 1) :: u64) i \<longleftrightarrow> bit w i \<and> i \<noteq> b"
  "bit (w AND NOT (2 ^ b) :: u64) i \<longleftrightarrow> bit w i \<and> i \<noteq> b"
  by (auto simp: bit_simps dest: bit_imp_le_length)

lemma finite_bits: "finite {i. bit (w :: u64) i}"
  by (rule finite_subset [of _ "{..<64}"]) (auto dest: bit_imp_le_length)

lemma take_signal_decreases:
  "take_signal blocked t = Some (info, t') \<Longrightarrow>
   card {i. bit (pending_signals t') i} < card {i. bit (pending_signals t) i}"
  by (erule take_signal_SomeD) (rule psubset_card_mono; auto simp: finite_bits bit_clear)

text \<open>\<open>while (take_signal(blocked, info)) ...\<close>: the signals taken, in order, and the thread left.\<close>

function drain_signals :: "u64 \<Rightarrow> guest_thread \<Rightarrow> siginfo32 list \<times> guest_thread" where
  "drain_signals blocked t =
     (case take_signal blocked t of
        None \<Rightarrow> ([], t)
      | Some (info, t') \<Rightarrow> (let (infos, t'') = drain_signals blocked t' in (info # infos, t'')))"
  by pat_completeness auto
termination
  by (relation "measure (\<lambda>(blocked, t). card {i. bit (pending_signals t) i})") (auto dest: take_signal_decreases)

declare drain_signals.simps [simp del]

lemma drain_signals_takes:
  "bit (pending_signals t) b \<Longrightarrow> \<not> bit blocked b \<Longrightarrow> pending_info t (b + 1) \<in> set (fst (drain_signals blocked t))"
proof (induction blocked t rule: drain_signals.induct)
  case (1 blocked t)
  show ?case
  proof (cases "take_signal blocked t")
    case None
    then show ?thesis using take_signal_NoneD 1 by blast
  next
    case (Some p)
    obtain info t' where p: "p = (info, t')" by fastforce
    with Some obtain c where c: "info = pending_info t (c + 1)"
      "t' = t\<lparr>pending_signals := pending_signals t AND NOT (push_bit c 1)\<rparr>"
      using take_signal_SomeD by metis
    show ?thesis
    proof (cases "c = b")
      case True
      then show ?thesis using Some p c by (simp add: drain_signals.simps [of blocked t] split_beta)
    next
      case False
      then have "bit (pending_signals t') b" using 1(2) c(2) by (simp add: bit_clear)
      then have "pending_info t' (b + 1) \<in> set (fst (drain_signals blocked t'))" using 1 Some p by blast
      then show ?thesis using Some p c(2) by (simp add: drain_signals.simps [of blocked t] split_beta)
    qed
  qed
qed

lemma drain_signals_leaves: "bit (pending_signals (snd (drain_signals blocked t))) i \<Longrightarrow> bit blocked i"
proof (induction blocked t rule: drain_signals.induct)
  case (1 blocked t)
  then show ?case
    by (cases "take_signal blocked t")
      (auto simp: drain_signals.simps [of blocked t] split_beta dest: take_signal_NoneD)
qed

text \<open>
  \<open>take_signal\<close> returns the lowest-numbered pending signal that is not blocked, with the
  information it was posted with, clears exactly that signal, and reports none only when every
  pending signal is blocked.
\<close>

lemma take_signal_lowest:
  "case take_signal blocked t of
     None \<Rightarrow> (\<forall>i. bit (pending_signals t) i \<longrightarrow> bit blocked i)
   | Some (info, t') \<Rightarrow> (\<exists>b. bit (pending_signals t) b \<and> \<not> bit blocked b \<and>
       (\<forall>i < b. bit (pending_signals t) i \<longrightarrow> bit blocked i) \<and> info = pending_info t (b + 1) \<and>
       (\<forall>i. bit (pending_signals t') i \<longleftrightarrow> bit (pending_signals t) i \<and> i \<noteq> b) \<and>
       t' = t\<lparr>pending_signals := pending_signals t'\<rparr>)"
proof (cases "take_signal blocked t")
  case None
  then show ?thesis using take_signal_NoneD by auto
next
  case (Some p)
  obtain info t' where p: "p = (info, t')" by fastforce
  with Some have "take_signal blocked t = Some (info, t')" by simp
  then obtain b where b: "bit (pending_signals t) b" "\<not> bit blocked b"
      "\<forall>i < b. bit (pending_signals t) i \<longrightarrow> bit blocked i" "info = pending_info t (b + 1)"
      "t' = t\<lparr>pending_signals := pending_signals t AND NOT (push_bit b 1)\<rparr>"
    using take_signal_SomeD by metis
  then have "\<forall>i. bit (pending_signals t') i \<longleftrightarrow> bit (pending_signals t) i \<and> i \<noteq> b"
    "t' = t\<lparr>pending_signals := pending_signals t'\<rparr>" by (simp_all add: bit_clear)
  then show ?thesis using b Some p by auto
qed

lemma valid_signo_range: "valid_signo s \<Longrightarrow> 1 \<le> unat s \<and> unat s \<le> 64"
proof -
  assume a: "valid_signo s"
  have "uint s = uint (word_of_int (sint s) :: u32)" by simp
  also have "\<dots> = sint s mod 4294967296" by (simp only: uint_word_of_int) simp
  also have "\<dots> = sint s" using a by (intro mod_pos_pos_trivial) (simp_all add: valid_signo_def)
  finally show ?thesis using a by (simp add: valid_signo_def unat_eq_nat_uint le_nat_iff nat_le_iff)
qed


end
