(* ===== verification/Process_State.thy ===== *)
theory Process_State
  imports Guest_Thread
begin

text \<open>
  The state of one guest process (\<open>core/include/zb/process.h\<close>) and the operations of
  \<open>core/src/process.cpp\<close> on its tables: path translation into the sysroot, executable
  eligibility of pages, file mappings, text relocation ranges, and the registry of threads,
  borrowers and processor ids.

  Guest threads are objects in a heap \<open>theap\<close>, addressed by numbers, because the registry, the
  signal target and the running code share them by pointer.  Each operation holds the mutex of
  its table in the source, so it is one step here.  Host files are a parameter (\<open>host_fs\<close>):
  functions of \<open>std::filesystem\<close> and the C library by their documented results.
\<close>

section \<open>State\<close>

record file_mapping =
  fm_start :: u32
  fm_length :: u32
  fm_offset :: u64
  fm_path :: string
  fm_vaddr :: bool

record textrel_range =
  tr_start :: u32
  tr_length :: u32
  tr_prot :: u32

definition kStackTop :: u32 where "kStackTop = 0xFF000000"
definition kStackSize :: u32 where "kStackSize = 8 * 1024 * 1024"
definition kMmapLimit :: u32 where "kMmapLimit = 0xFE000000"
definition kMaxThreads :: nat where "kMaxThreads = 256"

record process =
  pmem :: guest_memory
  theap :: "nat \<Rightarrow> guest_thread"
  threads :: "nat list"
  borrowers :: "nat list"
  processor_ids :: "bool list"
  signal_target :: "nat option"
  seen :: "u64 set"
  file_mappings :: "file_mapping list"
  textrel_ranges :: "textrel_range list"
  sysroot :: string
  guest_library_roots :: "string list"
  exec_eligible :: "nat \<Rightarrow> bool"
  exe_path :: string
  precise_faults :: bool
  linker_start :: u32
  linker_end :: u32
  exiting :: bool
  proc_exit_status :: int
  brk_start :: u32
  brk_current :: u32
  mmap_limit :: u32
  personality :: u32
  initial_sp :: u32
  sigactions :: "nat \<Rightarrow> ksigaction32"
  invalidations :: "(nat list \<times> u32 \<times> u32) list"

definition zero_action :: ksigaction32 where
  "zero_action = \<lparr>sa_handler = 0, sa_flags = 0, sa_restorer = 0, sa_mask = [0, 0]\<rparr>"

definition new_process :: process where
  "new_process = \<lparr>pmem = new_guest_memory True, theap = (\<lambda>_. new_thread 0), threads = [], borrowers = [],
     processor_ids = replicate kMaxThreads False, signal_target = None, seen = {}, file_mappings = [],
     textrel_ranges = [], sysroot = [], guest_library_roots = [], exec_eligible = (\<lambda>_. True), exe_path = [],
     precise_faults = False, linker_start = 0, linker_end = 0, exiting = False, proc_exit_status = 0,
     brk_start = 0, brk_current = 0, mmap_limit = kMmapLimit, personality = 0, initial_sp = 0,
     sigactions = (\<lambda>_. zero_action), invalidations = []\<rparr>"

definition upd_thread :: "nat \<Rightarrow> (guest_thread \<Rightarrow> guest_thread) \<Rightarrow> process \<Rightarrow> process" where
  "upd_thread tp f p = p\<lparr>theap := (theap p)(tp := f (theap p tp))\<rparr>"

section \<open>Exit, log keys, translated code\<close>

definition request_exit :: "int \<Rightarrow> process \<Rightarrow> process" where
  "request_exit status p = p\<lparr>proc_exit_status := status, exiting := True\<rparr>"

definition first_time :: "u64 \<Rightarrow> process \<Rightarrow> bool \<times> process" where
  "first_time key p = (key \<notin> seen p, p\<lparr>seen := insert key (seen p)\<rparr>)"

text \<open>Every registered thread and borrower drops its translated code for the range.\<close>

definition invalidate :: "u32 \<Rightarrow> u32 \<Rightarrow> process \<Rightarrow> process" where
  "invalidate addr len p = p\<lparr>invalidations := invalidations p @ [(threads p @ borrowers p, addr, len)]\<rparr>"

section \<open>File mappings and text relocations\<close>

definition range_overlaps :: "u32 \<Rightarrow> u32 \<Rightarrow> u32 \<Rightarrow> u64 \<Rightarrow> bool" where
  "range_overlaps ms ml start e \<longleftrightarrow> (ucast ms :: u64) < e \<and> (ucast ms :: u64) + ucast ml > ucast start"

definition forget_mappings :: "u32 \<Rightarrow> u64 \<Rightarrow> process \<Rightarrow> process" where
  "forget_mappings start len p =
     (let e = ucast start + len
      in p\<lparr>file_mappings := filter (\<lambda>m. \<not> range_overlaps (fm_start m) (fm_length m) start e) (file_mappings p),
           textrel_ranges := filter (\<lambda>r. \<not> range_overlaps (tr_start r) (tr_length r) start e) (textrel_ranges p)\<rparr>)"

definition record_file_mapping :: "u32 \<Rightarrow> u32 \<Rightarrow> u64 \<Rightarrow> string \<Rightarrow> bool \<Rightarrow> process \<Rightarrow> process" where
  "record_file_mapping start len offset path is_vaddr p =
     (let p1 = forget_mappings start (ucast len) p
      in p1\<lparr>file_mappings := file_mappings p1 @
           [\<lparr>fm_start = start, fm_length = len, fm_offset = offset, fm_path = path, fm_vaddr = is_vaddr\<rparr>]\<rparr>)"

text \<open>The mapping that names an address, and the number printed after its path.\<close>

definition describe_address :: "u32 \<Rightarrow> process \<Rightarrow> (string \<times> bool \<times> u64) option" where
  "describe_address addr p =
     (case find (\<lambda>m. addr \<ge> fm_start m \<and> addr - fm_start m < fm_length m) (file_mappings p) of
        None \<Rightarrow> None
      | Some m \<Rightarrow> Some (fm_path m, fm_vaddr m, fm_offset m + ucast (addr - fm_start m)))"

definition add_textrel_range :: "u32 \<Rightarrow> u32 \<Rightarrow> u32 \<Rightarrow> process \<Rightarrow> process" where
  "add_textrel_range start len prot p =
     p\<lparr>textrel_ranges := textrel_ranges p @ [\<lparr>tr_start = start, tr_length = len, tr_prot = prot\<rparr>]\<rparr>"

fun seal_loop :: "kernel \<Rightarrow> textrel_range list \<Rightarrow> process \<Rightarrow> bool \<times> process" where
  "seal_loop K [] p = (True, p)"
| "seal_loop K (r # rs) p =
     (let (ok, m) = protect K (tr_start r) (ucast (tr_length r)) (tr_prot r) (pmem p);
          p1 = p\<lparr>pmem := m\<rparr>
      in if \<not> ok then (False, p1)
         else seal_loop K rs (invalidate (tr_start r) (tr_length r) p1))"

definition seal_textrel_ranges :: "kernel \<Rightarrow> process \<Rightarrow> bool \<times> process" where
  "seal_textrel_ranges K p =
     (let (ok, p1) = seal_loop K (textrel_ranges p) p
      in if \<not> ok then (False, p1) else (True, p1\<lparr>textrel_ranges := []\<rparr>))"

section \<open>Paths\<close>

record host_fs =
  fs_weakly_canonical :: "string \<Rightarrow> string option"
  fs_is_symlink :: "string \<Rightarrow> bool"
  fs_canonical :: "string \<Rightarrow> string option"
  fs_exists :: "string \<Rightarrow> bool"

definition kPathMappings :: "(string \<times> string) list" where
  "kPathMappings =
     [(''/apex/com.android.runtime/lib/bionic/'', ''/system/lib/''),
      (''/apex/com.android.runtime/bin/'', ''/system/bin/''),
      (''/system/'', ''/system/''), (''/vendor/'', ''/vendor/''), (''/odm/'', ''/odm/''),
      (''/product/'', ''/product/''), (''/system_ext/'', ''/system_ext/''), (''/apex/'', ''/apex/''),
      (''/linkerconfig/'', ''/linkerconfig/'')]"

definition starts_with :: "string \<Rightarrow> string \<Rightarrow> bool" where
  "starts_with s pre \<longleftrightarrow> take (length pre) s = pre"

definition ends_with :: "string \<Rightarrow> string \<Rightarrow> bool" where
  "ends_with s suf \<longleftrightarrow> length suf \<le> length s \<and> drop (length s - length suf) s = suf"

text \<open>The loop over the components after the mapped prefix: true when one of them is empty
  (but for the last), a dot or a double dot.\<close>

function bad_component :: "string \<Rightarrow> bool" where
  "bad_component s =
     (if s = [] then False
      else let part = takeWhile (\<lambda>c. c \<noteq> CHR ''/'') s;
               rest = dropWhile (\<lambda>c. c \<noteq> CHR ''/'') s
           in if (part = [] \<and> rest \<noteq> []) \<or> part = ''.'' \<or> part = ''..'' then True
              else if rest = [] then False
              else bad_component (tl rest))"
  by pat_completeness auto
termination
proof (relation "measure length", simp)
  fix s :: string and part rest
  assume "s \<noteq> []" and r: "rest = dropWhile (\<lambda>c. c \<noteq> CHR ''/'') s" and "rest \<noteq> []"
  then have "length (tl rest) < length rest" by (cases rest) simp_all
  moreover have "length rest \<le> length s" unfolding r by (rule length_dropWhile_le)
  ultimately have "length (tl rest) < length s" by linarith
  then show "(tl rest, s) \<in> measure length" by (simp only: in_measure)
qed

declare bad_component.simps [simp del]

text \<open>The prefixes that the iteration over a \<open>fs::path\<close> builds with \<open>/=\<close>.\<close>

fun split_slash :: "string \<Rightarrow> string \<Rightarrow> string list" where
  "split_slash acc [] = [acc]"
| "split_slash acc (c # cs) = (if c = CHR ''/'' then acc # split_slash [] cs else split_slash (acc @ [c]) cs)"

fun prefixes_from :: "string \<Rightarrow> string list \<Rightarrow> string list" where
  "prefixes_from pre [] = []"
| "prefixes_from pre (c # cs) =
     (let next = (if pre = [] \<or> last pre = CHR ''/'' then pre @ c else pre @ ''/'' @ c)
      in next # prefixes_from next cs)"

definition path_prefixes :: "string \<Rightarrow> string list" where
  "path_prefixes path =
     (let parts = split_slash [] path;
          inner = filter (\<lambda>c. c \<noteq> []) (butlast parts) @ [last parts]
      in if path = [] then []
         else if hd path = CHR ''/'' then ''/'' # prefixes_from ''/'' (if length path = 1 then [] else inner)
         else prefixes_from [] inner)"

definition inside_root :: "string \<Rightarrow> string \<Rightarrow> bool" where
  "inside_root root value \<longleftrightarrow> value = root \<or> starts_with value (root @ ''/'')"

definition is_font_path :: "string \<Rightarrow> bool" where
  "is_font_path path \<longleftrightarrow>
     (starts_with path ''/system/fonts/'' \<and>
        (ends_with path ''.ttf'' \<or> ends_with path ''.ttc'' \<or> ends_with path ''.otf'')) \<or>
     path = ''/system/etc/fonts.xml''"

definition translate_mapped :: "host_fs \<Rightarrow> string \<Rightarrow> string \<Rightarrow> string \<times> string \<Rightarrow> string" where
  "translate_mapped fs root_dir path = (\<lambda>(guest_prefix, sysroot_prefix).
     let denied = root_dir @ ''/.zb-denied'';
         rest = drop (length guest_prefix) path;
         out = root_dir @ sysroot_prefix @ rest
     in if bad_component rest then denied
        else case fs_weakly_canonical fs root_dir of
            None \<Rightarrow> denied
          | Some root \<Rightarrow>
              if list_ex (\<lambda>pre. fs_is_symlink fs pre \<and>
                   (case fs_canonical fs pre of None \<Rightarrow> True | Some t \<Rightarrow> \<not> inside_root root t))
                   (path_prefixes out)
              then denied
              else case fs_weakly_canonical fs out of
                  None \<Rightarrow> denied
                | Some resolved \<Rightarrow>
                    if \<not> inside_root root resolved then denied
                    else if fs_exists fs out then out
                    else if is_font_path path then path
                    else out)"

definition translate_path :: "host_fs \<Rightarrow> process \<Rightarrow> string \<Rightarrow> string" where
  "translate_path fs p path =
     (if path = ''/proc/self/exe'' then exe_path p
      else if sysroot p \<noteq> [] then
        (case find (\<lambda>m. starts_with path (fst m)) kPathMappings of
           None \<Rightarrow> path
         | Some m \<Rightarrow> translate_mapped fs (sysroot p) path m)
      else path)"

section \<open>Executable pages\<close>

definition set_exec_eligibility :: "u32 \<Rightarrow> u64 \<Rightarrow> bool \<Rightarrow> process \<Rightarrow> process" where
  "set_exec_eligibility start len allowed p =
     (let e = ucast start + page_round_up len
      in if e > kGuestSpaceSize then p
         else p\<lparr>exec_eligible := (\<lambda>i. if unat start div 4096 \<le> i \<and> i < unat e div 4096 then allowed
                                      else exec_eligible p i)\<rparr>)"

definition may_execute_range :: "u32 \<Rightarrow> u64 \<Rightarrow> process \<Rightarrow> bool" where
  "may_execute_range start len p =
     (let e = ucast start + page_round_up len
      in if e > kGuestSpaceSize then False
         else list_all (exec_eligible p) [unat start div 4096..<unat e div 4096])"

text \<open>\<open>guest_executable_allowed\<close>: \<open>header\<close> is the result of the \<open>pread\<close> of the 52-byte ELF
  header, \<open>target\<close> the file's path after \<open>readlink\<close> and \<open>realpath\<close>, \<open>real\<close> the \<open>realpath\<close> of a
  directory.\<close>

definition elf32_arm_header :: "u8 list \<Rightarrow> bool" where
  "elf32_arm_header h \<longleftrightarrow> length h = 52 \<and> take 4 h = [0x7F, 0x45, 0x4C, 0x46] \<and> h ! 4 = 1 \<and> h ! 5 = 1 \<and>
     of_le16 (drop 18 h) = 40 \<and> (of_le16 (drop 16 h) = 3 \<or> of_le16 (drop 16 h) = 2)"

definition within_dir :: "(string \<Rightarrow> string option) \<Rightarrow> string \<Rightarrow> string \<Rightarrow> bool" where
  "within_dir real path dir =
     (case real dir of
        None \<Rightarrow> False
      | Some base \<Rightarrow> starts_with path base \<and> length path > length base \<and> path ! length base = CHR ''/'')"

definition guest_executable_allowed ::
  "u8 list option \<Rightarrow> string option \<Rightarrow> (string \<Rightarrow> string option) \<Rightarrow> process \<Rightarrow> bool" where
  "guest_executable_allowed header target real p =
     (if sysroot p = [] then True
      else case header of
          None \<Rightarrow> False
        | Some h \<Rightarrow>
            if \<not> elf32_arm_header h then False
            else case target of
                None \<Rightarrow> False
              | Some path \<Rightarrow>
                  within_dir real path (sysroot p) \<or> list_ex (within_dir real path) (guest_library_roots p))"

section \<open>Threads\<close>

definition thread_count :: "process \<Rightarrow> nat" where
  "thread_count p = length (threads p)"

definition is_borrower :: "nat \<Rightarrow> process \<Rightarrow> bool" where
  "is_borrower tp p \<longleftrightarrow> tp \<in> set (borrowers p)"

definition allocate_processor_id :: "process \<Rightarrow> nat option \<times> process" where
  "allocate_processor_id p =
     (case find (\<lambda>i. \<not> processor_ids p ! i) [0..<length (processor_ids p)] of
        None \<Rightarrow> (None, p)
      | Some i \<Rightarrow> (Some i, p\<lparr>processor_ids := (processor_ids p)[i := True]\<rparr>))"

definition find_thread :: "int \<Rightarrow> process \<Rightarrow> nat option" where
  "find_thread t p =
     (case find (\<lambda>tp. tid (theap p tp) = t) (borrowers p) of
        Some tp \<Rightarrow> Some tp
      | None \<Rightarrow> find (\<lambda>tp. tid (theap p tp) = t) (threads p))"

definition post_signal_to :: "int \<Rightarrow> siginfo32 \<Rightarrow> process \<Rightarrow> bool \<times> process" where
  "post_signal_to t info p =
     (case find (\<lambda>tp. tid (theap p tp) = t) (borrowers p) of
        Some tp \<Rightarrow> (True, upd_thread tp (post_signal info) p)
      | None \<Rightarrow>
          (case find (\<lambda>tp. tid (theap p tp) = t) (threads p) of
             Some tp \<Rightarrow> (True, upd_thread tp (post_signal info) p)
           | None \<Rightarrow> (False, p)))"

text \<open>\<open>create_borrower\<close> builds its thread at the unused address \<open>bp\<close>.\<close>

definition create_borrower :: "nat \<Rightarrow> nat \<Rightarrow> process \<Rightarrow> nat option \<times> process" where
  "create_borrower bp carrier p =
     (case allocate_processor_id p of
        (None, p1) \<Rightarrow> (None, p1)
      | (Some pid, p1) \<Rightarrow>
          (let c = theap p1 carrier;
               b = (new_thread pid)\<lparr>regs := (replicate 16 0)[13 := regs c ! 13 AND NOT 7],
                     ext_regs := replicate 64 0, cpsr := 0x10, fpscr := fpscr c, tls := tls c, tid := tid c,
                     sigmask := sigmask c, altstack := altstack c\<rparr>
           in (Some bp, p1\<lparr>theap := (theap p1)(bp := b), borrowers := borrowers p1 @ [bp]\<rparr>)))"

definition destroy_borrower :: "nat \<Rightarrow> nat \<Rightarrow> process \<Rightarrow> process" where
  "destroy_borrower bp carrier p =
     (let b = theap p bp;
          p1 = upd_thread carrier (\<lambda>c. c\<lparr>sigmask := sigmask b, altstack := altstack b\<rparr>) p;
          p2 = p1\<lparr>borrowers := filter (\<lambda>x. x \<noteq> bp) (borrowers p1)\<rparr>;
          infos = fst (drain_signals 0 (theap p2 bp));
          p3 = upd_thread carrier (fold post_signal infos) (upd_thread bp (snd \<circ> drain_signals 0) p2)
      in p3\<lparr>processor_ids := (processor_ids p3)[processor_id b := False]\<rparr>)"

definition register_thread :: "nat \<Rightarrow> process \<Rightarrow> process" where
  "register_thread tp p = p\<lparr>threads := threads p @ [tp]\<rparr>"

definition clear_process_signal_target :: "nat \<Rightarrow> process \<Rightarrow> process" where
  "clear_process_signal_target tp p =
     (if signal_target p = Some tp then p\<lparr>signal_target := None\<rparr> else p)"

definition unregister_thread :: "nat \<Rightarrow> process \<Rightarrow> process" where
  "unregister_thread tp p =
     (let p1 = clear_process_signal_target tp p
      in p1\<lparr>threads := filter (\<lambda>x. x \<noteq> tp) (threads p1),
            processor_ids := (processor_ids p1)[processor_id (theap p1 tp) := False]\<rparr>)"

definition write_guest_u32 :: "u32 \<Rightarrow> u32 \<Rightarrow> process \<Rightarrow> process" where
  "write_guest_u32 addr v p =
     (case host_ptr addr 4 kPageWrite (pmem p) of
        None \<Rightarrow> p
      | Some a \<Rightarrow> p\<lparr>pmem := store_bytes a (le32 v) (pmem p)\<rparr>)"

definition finish_thread :: "nat \<Rightarrow> process \<Rightarrow> process" where
  "finish_thread tp p =
     (let a = clear_child_tid (theap p tp);
          p1 = (if a \<noteq> 0 then write_guest_u32 a 0 p else p)
      in unregister_thread tp p1)"

definition kCloneSetTls :: u32 where "kCloneSetTls = 0x00080000"
definition kCloneParentSetTid :: u32 where "kCloneParentSetTid = 0x00100000"
definition kCloneChildClearTid :: u32 where "kCloneChildClearTid = 0x00200000"
definition kCloneChildSetTid :: u32 where "kCloneChildSetTid = 0x01000000"
definition kDefaultCodeCacheSize :: nat where "kDefaultCodeCacheSize = 32 * 1024 * 1024"

text \<open>\<open>clone_thread\<close>: the child object is built at the unused address \<open>cp\<close>; \<open>new_tid\<close> is the
  kernel's id of the new host thread.  The code cache size only configures the JIT.\<close>

definition clone_thread ::
  "nat \<Rightarrow> int \<Rightarrow> nat \<Rightarrow> u32 \<Rightarrow> u32 \<Rightarrow> u32 \<Rightarrow> u32 \<Rightarrow> u32 \<Rightarrow> process \<Rightarrow> int option \<times> process" where
  "clone_thread cp new_tid parent flags stack parent_tid_addr tls_v child_tid_addr p =
     (case allocate_processor_id p of
        (None, p1) \<Rightarrow> (None, p1)
      | (Some pid, p1) \<Rightarrow>
          (let pt = theap p1 parent;
               r0 = (regs pt)[0 := 0];
               child = (new_thread pid)\<lparr>regs := (if stack \<noteq> 0 then r0[13 := stack] else r0),
                 ext_regs := ext_regs pt, cpsr := cpsr pt, fpscr := fpscr pt,
                 tls := (if flags AND kCloneSetTls \<noteq> 0 then tls_v else tls pt), sigmask := sigmask pt,
                 clear_child_tid := (if flags AND kCloneChildClearTid \<noteq> 0 then child_tid_addr else 0)\<rparr>;
               p2 = register_thread cp (p1\<lparr>theap := (theap p1)(cp := child)\<rparr>);
               p3 = upd_thread cp (\<lambda>t. t\<lparr>tid := new_tid\<rparr>) p2;
               p4 = (if flags AND kCloneChildSetTid \<noteq> 0 then write_guest_u32 child_tid_addr (of_int new_tid) p3 else p3);
               p5 = (if flags AND kCloneParentSetTid \<noteq> 0 then write_guest_u32 parent_tid_addr (of_int new_tid) p4 else p4)
           in (Some new_tid, p5)))"

definition in_guest_linker :: "u32 \<Rightarrow> process \<Rightarrow> bool" where
  "in_guest_linker addr p \<longleftrightarrow> addr \<ge> linker_start p \<and> addr < linker_end p"


section \<open>Paths stay inside the sysroot\<close>

definition dot_component :: "string \<Rightarrow> bool" where
  "dot_component c \<longleftrightarrow> c = ''.'' \<or> c = ''..''"

lemma if_chain:
  "\<not> a \<Longrightarrow> (if a then False else if b \<or> c \<or> d then True else if e then False else f) \<longleftrightarrow> b \<or> (c \<or> d) \<or> \<not> e \<and> f"
  by auto

lemma bad_component_step:
  "s \<noteq> [] \<Longrightarrow> bad_component s =
     (let part = takeWhile (\<lambda>c. c \<noteq> CHR ''/'') s; rest = dropWhile (\<lambda>c. c \<noteq> CHR ''/'') s
      in part = [] \<and> rest \<noteq> [] \<or> dot_component part \<or> rest \<noteq> [] \<and> bad_component (tl rest))"
  unfolding Let_def dot_component_def bad_component.simps [of s] by (rule if_chain)

lemma split_slash_acc: "split_slash acc s = (acc @ hd (split_slash [] s)) # tl (split_slash [] s)"
proof (induction s arbitrary: acc)
  case (Cons c s)
  show ?case using Cons [of "acc @ [c]"] Cons [of "[c]"] by simp
qed simp

lemma split_slash_word: "CHR ''/'' \<notin> set s \<Longrightarrow> split_slash [] (s @ r) = (s @ hd (split_slash [] r)) # tl (split_slash [] r)"
proof (induction s)
  case (Cons c s)
  then show ?case using split_slash_acc [of "[c]" "s @ r"] by auto
qed (use split_slash_acc [of "[]" r] in simp)

text \<open>What the component check means: no component is a dot or a double dot, and none but the
  last is empty.\<close>

lemma bad_component_iff:
  "bad_component s \<longleftrightarrow> s \<noteq> [] \<and> ((\<exists>c \<in> set (split_slash [] s). dot_component c) \<or> [] \<in> set (butlast (split_slash [] s)))"
proof (induction "length s" arbitrary: s rule: less_induct)
  case less
  let ?P = "\<lambda>c. c \<noteq> CHR ''/''"
  let ?part = "takeWhile ?P s" and ?rest = "dropWhile ?P s"
  have s: "s = ?part @ ?rest" by simp
  have np: "CHR ''/'' \<notin> set ?part" by (auto dest: set_takeWhileD)
  show ?case
  proof (cases "s = []")
    case True
    then show ?thesis by (simp add: bad_component.simps)
  next
    case ne: False
    show ?thesis
    proof (cases "?rest = []")
      case True
      then have p: "?part = s" using s by simp
      then have "split_slash [] s = [s]" using split_slash_word [of s "[]"] np by (simp only: p) simp
      then show ?thesis using ne True unfolding bad_component_step [OF ne] Let_def p by simp
    next
      case False
      then have "hd ?rest = CHR ''/''" using hd_dropWhile [of ?P s] by simp
      with False obtain r where r: "?rest = CHR ''/'' # r" by (cases ?rest) simp_all
      have "split_slash [] (?part @ CHR ''/'' # r) = ?part # split_slash [] r"
        using split_slash_word [OF np, of "CHR ''/'' # r"] by simp
      then have sp: "split_slash [] s = ?part # split_slash [] r" using s r by simp
      have "length ?rest \<le> length s" by (rule length_dropWhile_le)
      then have "length r < length s" using r by simp
      note IH = less.hyps [OF this]
      have ss: "split_slash [] r \<noteq> []" using split_slash_acc [of "[]" r] by (metis list.distinct(1))
      have nil: "split_slash [] [] = [[]]" "\<not> dot_component []" by (simp_all add: dot_component_def)
      show ?thesis unfolding bad_component_step [OF ne] Let_def r sp list.sel IH
        using ne ss nil by (cases "r = []") auto
    qed
  qed
qed

lemma translate_mapped_cases:
  fixes fs :: host_fs
  assumes "r = translate_mapped fs root_dir path (gp, sp)"
  shows "r = root_dir @ ''/.zb-denied'' \<or> (r = path \<and> is_font_path path) \<or>
    (\<not> bad_component (drop (length gp) path) \<and> r = root_dir @ sp @ drop (length gp) path \<and>
     (\<exists>root resolved. fs_weakly_canonical fs root_dir = Some root \<and> fs_weakly_canonical fs r = Some resolved \<and>
        inside_root root resolved \<and>
        (\<forall>pre \<in> set (path_prefixes r). fs_is_symlink fs pre \<longrightarrow>
           (\<exists>t. fs_canonical fs pre = Some t \<and> inside_root root t))))"
proof (cases "r = root_dir @ ''/.zb-denied'' \<or> (r = path \<and> is_font_path path)")
  case False
  let ?out = "root_dir @ sp @ drop (length gp) path"
  have b: "\<not> bad_component (drop (length gp) path)" using False assms by (auto simp: translate_mapped_def)
  from b False assms obtain root where root: "fs_weakly_canonical fs root_dir = Some root"
    by (cases "fs_weakly_canonical fs root_dir") (auto simp: translate_mapped_def Let_def)
  let ?bad = "list_ex (\<lambda>pre. fs_is_symlink fs pre \<and>
    (case fs_canonical fs pre of None \<Rightarrow> True | Some t \<Rightarrow> \<not> inside_root root t)) (path_prefixes ?out)"
  have nb: "\<not> ?bad" using b root False assms by (auto simp: translate_mapped_def Let_def)
  obtain resolved where res: "fs_weakly_canonical fs ?out = Some resolved"
    using b root nb False assms by (cases "fs_weakly_canonical fs ?out") (auto simp: translate_mapped_def Let_def)
  have "inside_root root resolved" "r = ?out"
    using b root nb res False assms by (auto simp: translate_mapped_def Let_def split: if_splits)
  moreover have "\<forall>pre \<in> set (path_prefixes ?out). fs_is_symlink fs pre \<longrightarrow>
      (\<exists>t. fs_canonical fs pre = Some t \<and> inside_root root t)"
    using nb by (auto simp: list_ex_iff split: option.splits)
  ultimately show ?thesis using b root res by blast
qed blast

text \<open>
  C8: Android system paths cannot leave the sysroot.  With a sysroot configured, a guest path
  below one of the mapped prefixes is translated to the denied name, to itself (only for a font),
  or to the sysroot copy of the same path: then no component of it is a dot or a double dot,
  its canonical form lies inside the canonical sysroot, and so does the target of every symbolic
  link on the way.
\<close>

theorem translate_path_contained:
  assumes "sysroot p \<noteq> []" and "path \<noteq> ''/proc/self/exe''"
    and "find (\<lambda>m. starts_with path (fst m)) kPathMappings = Some (gp, sp)"
    and "r = translate_path fs p path"
  shows "r = sysroot p @ ''/.zb-denied'' \<or> (r = path \<and> is_font_path path) \<or>
    (path = gp @ drop (length gp) path \<and> r = sysroot p @ sp @ drop (length gp) path \<and>
     (\<forall>c \<in> set (split_slash [] (drop (length gp) path)). c \<noteq> ''.'' \<and> c \<noteq> ''..'') \<and>
     (\<exists>root resolved. fs_weakly_canonical fs (sysroot p) = Some root \<and> fs_weakly_canonical fs r = Some resolved \<and>
        inside_root root resolved \<and>
        (\<forall>pre \<in> set (path_prefixes r). fs_is_symlink fs pre \<longrightarrow>
           (\<exists>t. fs_canonical fs pre = Some t \<and> inside_root root t))))"
proof -
  have "starts_with path gp" using assms(3) unfolding find_Some_iff by (metis fst_conv)
  then have "path = gp @ drop (length gp) path" by (metis append_take_drop_id starts_with_def)
  moreover have "r = translate_mapped fs (sysroot p) path (gp, sp)"
    using assms by (simp add: translate_path_def)
  moreover have "\<forall>c \<in> set (split_slash [] s). c \<noteq> ''.'' \<and> c \<noteq> ''..''" if "\<not> bad_component s" for s
    using that by (cases "s = []") (auto simp: bad_component_iff dot_component_def)
  ultimately show ?thesis using translate_mapped_cases [of r fs "sysroot p" path gp sp] by blast
qed

definition fs_w :: host_fs where
  "fs_w = \<lparr>fs_weakly_canonical = Some, fs_is_symlink = (\<lambda>_. False), fs_canonical = Some, fs_exists = (\<lambda>_. True)\<rparr>"

theorem translate_path_contained_witness:
  "translate_path fs_w (new_process\<lparr>sysroot := ''/r''\<rparr>) ''/apex/com.android.runtime/bin/linker'' = ''/r/system/bin/linker'' \<and>
   (\<exists>root resolved. fs_weakly_canonical fs_w ''/r'' = Some root \<and>
      fs_weakly_canonical fs_w ''/r/system/bin/linker'' = Some resolved \<and> inside_root root resolved)"
proof -
  let ?p = "new_process\<lparr>sysroot := ''/r''\<rparr>" and ?g = "''/apex/com.android.runtime/bin/linker''"
  have f: "find (\<lambda>m. starts_with ?g (fst m)) kPathMappings = Some (''/apex/com.android.runtime/bin/'', ''/system/bin/'')"
    by (simp add: kPathMappings_def starts_with_def)
  have t: "translate_path fs_w ?p ?g = ''/r/system/bin/linker''"
  proof -
    have "translate_path fs_w ?p ?g =
        translate_mapped fs_w ''/r'' ?g (''/apex/com.android.runtime/bin/'', ''/system/bin/'')"
      by (simp add: translate_path_def f)
    then show ?thesis
      by (simp add: translate_mapped_def fs_w_def bad_component.simps inside_root_def starts_with_def Let_def list_ex_iff)
  qed
  have "sysroot ?p \<noteq> []" "?g \<noteq> ''/proc/self/exe''" by simp_all
  from translate_path_contained [OF this f refl, of fs_w] t show ?thesis
    by (auto simp: is_font_path_def starts_with_def ends_with_def)
qed

section \<open>Processor ids\<close>

definition live_contexts :: "process \<Rightarrow> nat set" where
  "live_contexts p = set (threads p) \<union> set (borrowers p)"

definition registry_inv :: "process \<Rightarrow> bool" where
  "registry_inv p \<longleftrightarrow> length (processor_ids p) = kMaxThreads \<and>
     set (threads p) \<inter> set (borrowers p) = {} \<and>
     inj_on (\<lambda>tp. processor_id (theap p tp)) (live_contexts p) \<and>
     (\<forall>tp \<in> live_contexts p. processor_id (theap p tp) < kMaxThreads \<and> processor_ids p ! processor_id (theap p tp))"

lemma registry_inv_cong:
  assumes "registry_inv p" "threads p' = threads p" "borrowers p' = borrowers p" "processor_ids p' = processor_ids p"
    "\<And>tp. processor_id (theap p' tp) = processor_id (theap p tp)"
  shows "registry_inv p'"
  using assms by (simp add: registry_inv_def live_contexts_def)

lemma upd_thread_sel [simp]:
  "threads (upd_thread tp f p) = threads p" "borrowers (upd_thread tp f p) = borrowers p"
  "processor_ids (upd_thread tp f p) = processor_ids p" "pmem (upd_thread tp f p) = pmem p"
  "signal_target (upd_thread tp f p) = signal_target p" "sigactions (upd_thread tp f p) = sigactions p"
  "theap (upd_thread tp f p) = (theap p)(tp := f (theap p tp))" "exiting (upd_thread tp f p) = exiting p"
  by (simp_all add: upd_thread_def)

lemma write_guest_u32_sel [simp]:
  "threads (write_guest_u32 a v p) = threads p" "borrowers (write_guest_u32 a v p) = borrowers p"
  "processor_ids (write_guest_u32 a v p) = processor_ids p" "theap (write_guest_u32 a v p) = theap p"
  "signal_target (write_guest_u32 a v p) = signal_target p"
  by (simp_all add: write_guest_u32_def split: option.splits)

lemma allocate_processor_id_Some:
  assumes "allocate_processor_id p = (Some i, p')"
  shows "i < length (processor_ids p)" "\<not> processor_ids p ! i" "p' = p\<lparr>processor_ids := (processor_ids p)[i := True]\<rparr>"
proof -
  let ?f = "find (\<lambda>i. \<not> processor_ids p ! i) [0..<length (processor_ids p)]"
  have f: "?f = Some i \<and> p' = p\<lparr>processor_ids := (processor_ids p)[i := True]\<rparr>"
    using assms by (cases ?f) (simp_all add: allocate_processor_id_def)
  then show "p' = p\<lparr>processor_ids := (processor_ids p)[i := True]\<rparr>" by simp
  show "i < length (processor_ids p)" "\<not> processor_ids p ! i" using f by (auto simp: find_Some_iff)
qed

lemma allocate_processor_id_None: "allocate_processor_id p = (None, p') \<Longrightarrow> p' = p"
  by (auto simp: allocate_processor_id_def split: option.splits)

text \<open>A new context with a freshly allocated id.\<close>

lemma registry_inv_new:
  assumes inv: "registry_inv p" and "allocate_processor_id p = (Some i, p1)" and fresh: "cp \<notin> live_contexts p"
    and "processor_id (theap p' cp) = i"
    and "\<And>tp. tp \<noteq> cp \<Longrightarrow> processor_id (theap p' tp) = processor_id (theap p tp)"
    and "processor_ids p' = processor_ids p1"
    and live: "threads p' = threads p @ [cp] \<and> borrowers p' = borrowers p \<or>
      threads p' = threads p \<and> borrowers p' = borrowers p @ [cp]"
  shows "registry_inv p'"
proof -
  note a = allocate_processor_id_Some [OF assms(2)]
  have live': "live_contexts p' = insert cp (live_contexts p)" using live by (auto simp: live_contexts_def)
  have old: "processor_id (theap p' tp) = processor_id (theap p tp) \<and> processor_id (theap p tp) \<noteq> i"
    if "tp \<in> live_contexts p" for tp
  proof
    have "tp \<noteq> cp" using that fresh by blast
    then show "processor_id (theap p' tp) = processor_id (theap p tp)" by (rule assms(5))
    show "processor_id (theap p tp) \<noteq> i" using that inv a(2) unfolding registry_inv_def by blast
  qed
  have "inj_on (\<lambda>tp. processor_id (theap p' tp)) (live_contexts p')"
    using inv old assms(4) fresh unfolding live' registry_inv_def inj_on_def by (metis insert_iff)
  moreover have "processor_id (theap p' tp) < kMaxThreads \<and> processor_ids p' ! processor_id (theap p' tp)"
    if "tp \<in> live_contexts p'" for tp
    using that inv old a assms(4,6) unfolding live' by (cases "tp = cp") (auto simp: registry_inv_def nth_list_update)
  moreover have "set (threads p') \<inter> set (borrowers p') = {}"
    using inv live fresh by (auto simp: registry_inv_def live_contexts_def)
  ultimately show ?thesis using inv a(3) assms(6) by (simp add: registry_inv_def)
qed

text \<open>A context that leaves gives back its own id only.\<close>

lemma registry_inv_remove:
  assumes inv: "registry_inv p" and "tp \<in> live_contexts p"
    and "\<And>x. processor_id (theap p' x) = processor_id (theap p x)"
    and "processor_ids p' = (processor_ids p)[processor_id (theap p tp) := False]"
    and "live_contexts p' = live_contexts p - {tp}" and "set (threads p') \<subseteq> set (threads p)"
    and "set (borrowers p') \<subseteq> set (borrowers p)"
  shows "registry_inv p'"
proof -
  have "inj_on (\<lambda>tp. processor_id (theap p' tp)) (live_contexts p')"
    using inv assms(3,5) by (auto simp: registry_inv_def inj_on_def)
  moreover have "processor_id (theap p' x) < kMaxThreads \<and> processor_ids p' ! processor_id (theap p' x)"
    if x: "x \<in> live_contexts p'" for x
  proof -
    have "processor_id (theap p x) \<noteq> processor_id (theap p tp)"
      using x assms(2,5) inv by (auto simp: registry_inv_def inj_on_def)
    then show ?thesis using x assms(3-5) inv by (auto simp: registry_inv_def)
  qed
  ultimately show ?thesis using inv assms(4,6,7) by (auto simp: registry_inv_def)
qed

lemma clone_thread_inv:
  assumes "registry_inv p" "cp \<notin> live_contexts p" "clone_thread cp nt parent fl st pta tv cta p = (r, p')"
  shows "registry_inv p'"
proof (cases "allocate_processor_id p")
  case (Pair o1 p1)
  show ?thesis
  proof (cases o1)
    case None
    then have "p' = p" using assms(3) Pair allocate_processor_id_None by (auto simp: clone_thread_def)
    then show ?thesis using assms(1) by simp
  next
    case (Some i)
    have p1: "p1 = p\<lparr>processor_ids := (processor_ids p)[i := True]\<rparr>"
      using allocate_processor_id_Some(3) Pair Some by blast
    show ?thesis
    proof (rule registry_inv_new [OF assms(1) _ assms(2)])
      show "allocate_processor_id p = (Some i, p1)" using Pair Some by simp
      show "processor_id (theap p' cp) = i"
        using assms(3) Pair Some by (auto simp: clone_thread_def Let_def register_thread_def new_thread_def split: if_splits)
      show "processor_id (theap p' tp) = processor_id (theap p tp)" if "tp \<noteq> cp" for tp
        using assms(3) Pair Some p1 that by (auto simp: clone_thread_def Let_def register_thread_def split: if_splits)
      show "processor_ids p' = processor_ids p1"
        using assms(3) Pair Some by (auto simp: clone_thread_def Let_def register_thread_def split: if_splits)
      show "threads p' = threads p @ [cp] \<and> borrowers p' = borrowers p \<or>
          threads p' = threads p \<and> borrowers p' = borrowers p @ [cp]"
        using assms(3) Pair Some p1 by (auto simp: clone_thread_def Let_def register_thread_def split: if_splits)
    qed
  qed
qed

lemma create_borrower_inv:
  assumes "registry_inv p" "bp \<notin> live_contexts p" "create_borrower bp carrier p = (r, p')"
  shows "registry_inv p'"
proof (cases "allocate_processor_id p")
  case (Pair o1 p1)
  show ?thesis
  proof (cases o1)
    case None
    then have "p' = p" using assms(3) Pair allocate_processor_id_None by (auto simp: create_borrower_def)
    then show ?thesis using assms(1) by simp
  next
    case (Some i)
    have p1: "p1 = p\<lparr>processor_ids := (processor_ids p)[i := True]\<rparr>"
      using allocate_processor_id_Some(3) Pair Some by blast
    have "allocate_processor_id p = (Some i, p1)" using Pair Some by simp
    then show ?thesis
      by (rule registry_inv_new [OF assms(1) _ assms(2)])
        (use assms(3) Pair Some p1 in \<open>auto simp: create_borrower_def Let_def new_thread_def\<close>)
  qed
qed

lemma unregister_thread_inv:
  assumes "registry_inv p" "tp \<in> set (threads p)"
  shows "registry_inv (unregister_thread tp p)"
  by (rule registry_inv_remove [OF assms(1), of tp])
    (use assms in \<open>auto simp: unregister_thread_def clear_process_signal_target_def Let_def live_contexts_def registry_inv_def\<close>)

lemma finish_thread_inv:
  assumes "registry_inv p" "tp \<in> set (threads p)"
  shows "registry_inv (finish_thread tp p)"
proof -
  let ?p = "if clear_child_tid (theap p tp) \<noteq> 0 then write_guest_u32 (clear_child_tid (theap p tp)) 0 p else p"
  have "registry_inv ?p" using assms(1) by (rule registry_inv_cong) simp_all
  then have "registry_inv (unregister_thread tp ?p)" by (rule unregister_thread_inv) (use assms in simp)
  then show ?thesis by (simp add: finish_thread_def Let_def)
qed

lemma drain_signals_id: "processor_id (snd (drain_signals b t)) = processor_id t"
proof (induction b t rule: drain_signals.induct)
  case (1 b t)
  then show ?case
    by (cases "take_signal b t")
      (auto simp: drain_signals.simps [of b t] split_beta take_signal_def Let_def split: if_splits)
qed

lemma post_signal_id [simp]: "processor_id (post_signal info t) = processor_id t"
  by (simp add: post_signal_def wake_def Let_def)

lemma fold_post_signal_id: "processor_id (fold post_signal infos t) = processor_id t"
  by (induction infos arbitrary: t) simp_all

lemma destroy_borrower_inv:
  assumes "registry_inv p" "bp \<in> set (borrowers p)"
  shows "registry_inv (destroy_borrower bp carrier p)"
  by (rule registry_inv_remove [OF assms(1), of bp])
    (use assms in \<open>auto simp: destroy_borrower_def Let_def live_contexts_def registry_inv_def drain_signals_id
        fold_post_signal_id\<close>)

text \<open>What the exclusive monitor and the code caches rely on: an invariant of the registry that
  every step keeps and that gives distinct contexts distinct ids.\<close>

locale context_registry =
  fixes inv :: "'s \<Rightarrow> bool"
    and step :: "'s \<Rightarrow> 's \<Rightarrow> bool"
    and live :: "'s \<Rightarrow> nat set"
    and pid :: "'s \<Rightarrow> nat \<Rightarrow> nat"
  assumes inv_step: "inv s \<Longrightarrow> step s t \<Longrightarrow> inv t"
    and inv_unique: "inv s \<Longrightarrow> inj_on (pid s) (live s)"
begin

lemma reachable_inv: "step\<^sup>*\<^sup>* s t \<Longrightarrow> inv s \<Longrightarrow> inv t"
  by (induction rule: rtranclp_induct) (auto intro: inv_step)

lemma reachable_unique: "step\<^sup>*\<^sup>* s t \<Longrightarrow> inv s \<Longrightarrow> inj_on (pid t) (live t)"
  using reachable_inv inv_unique by blast

end

text \<open>The operations of the registry in any order; new objects have unused addresses, and any
  other change of a thread keeps its processor id.\<close>

inductive registry_step :: "process \<Rightarrow> process \<Rightarrow> bool" where
  reg_clone: "cp \<notin> live_contexts p \<Longrightarrow> clone_thread cp nt parent fl st pta tv cta p = (r, p') \<Longrightarrow> registry_step p p'"
| reg_main: "cp \<notin> live_contexts p \<Longrightarrow> allocate_processor_id p = (Some i, p1) \<Longrightarrow>
    registry_step p (register_thread cp (p1\<lparr>theap := (theap p1)(cp := new_thread i)\<rparr>))"
| reg_borrow: "bp \<notin> live_contexts p \<Longrightarrow> create_borrower bp carrier p = (r, p') \<Longrightarrow> registry_step p p'"
| reg_return: "bp \<in> set (borrowers p) \<Longrightarrow> registry_step p (destroy_borrower bp carrier p)"
| reg_finish: "tp \<in> set (threads p) \<Longrightarrow> registry_step p (finish_thread tp p)"
| reg_unregister: "tp \<in> set (threads p) \<Longrightarrow> registry_step p (unregister_thread tp p)"
| reg_run: "(\<And>t. processor_id (f t) = processor_id t) \<Longrightarrow> registry_step p (upd_thread tp f p)"

lemma registry_step_inv: "registry_step p p' \<Longrightarrow> registry_inv p \<Longrightarrow> registry_inv p'"
proof (induction rule: registry_step.induct)
  case (reg_main cp p i p1)
  have p1: "p1 = p\<lparr>processor_ids := (processor_ids p)[i := True]\<rparr>"
    using reg_main allocate_processor_id_Some(3) by blast
  show ?case
    by (rule registry_inv_new [OF reg_main(3) reg_main(2,1)])
      (use p1 in \<open>simp_all add: register_thread_def new_thread_def\<close>)
next
  case (reg_run f p tp)
  show ?case by (rule registry_inv_cong [OF reg_run(2)]) (simp_all add: reg_run(1))
next
  case (reg_clone cp p nt parent fl st pta tv cta r p')
  show ?case by (rule clone_thread_inv [OF reg_clone(3,1,2)])
next
  case (reg_borrow bp p carrier r p')
  show ?case by (rule create_borrower_inv [OF reg_borrow(3,1,2)])
qed (simp_all add: destroy_borrower_inv finish_thread_inv unregister_thread_inv)

interpretation reg: context_registry registry_inv registry_step live_contexts "\<lambda>p tp. processor_id (theap p tp)"
  by unfold_locales (blast intro: registry_step_inv, simp add: registry_inv_def)

lemma registry_inv_init: "registry_inv new_process"
  by (simp add: registry_inv_def new_process_def live_contexts_def)

text \<open>
  C30: No two live CPU contexts share a processor id.  Over any sequence of thread creations and
  exits, borrows and returns, and whatever the threads do in between, two registered threads or
  borrowers with the same processor id are the same context, so the exclusive monitor never
  confuses them.
\<close>

theorem processor_ids_unique:
  assumes "registry_step\<^sup>*\<^sup>* new_process p" and "a \<in> live_contexts p" and "b \<in> live_contexts p"
    and "processor_id (theap p a) = processor_id (theap p b)"
  shows "a = b"
  using reg.reachable_unique [OF assms(1) registry_inv_init] assms(2-4) by (auto simp: inj_on_def)

text \<open>A main thread and a borrower on it.\<close>

definition proc_w1 :: process where
  "proc_w1 = register_thread 1 (new_process\<lparr>processor_ids := (replicate 256 False)[0 := True],
     theap := (theap new_process)(1 := new_thread 0)\<rparr>)"

lemma find_zero: "find P (0 # xs) = (if P 0 then Some 0 else find P xs)"
  by simp

lemma allocate_new: "allocate_processor_id new_process = (Some 0, new_process\<lparr>processor_ids := (replicate 256 False)[0 := True]\<rparr>)"
proof -
  have "[0..<256] = 0 # [1..<256 :: nat]" by (simp add: upt_conv_Cons)
  then have "find (\<lambda>i. \<not> replicate 256 False ! i) [0..<256] = Some 0" by simp
  then show ?thesis by (simp add: allocate_processor_id_def new_process_def kMaxThreads_def)
qed

theorem processor_ids_unique_witness:
  "1 \<in> live_contexts proc_w1 \<and> (\<exists>b. b \<in> live_contexts proc_w1 \<and> processor_id (theap proc_w1 b) = 0 \<and> b = 1)"
proof -
  have "registry_step new_process proc_w1"
    unfolding proc_w1_def using reg_main [OF _ allocate_new, of 1] by (simp add: live_contexts_def new_process_def)
  then have r: "registry_step\<^sup>*\<^sup>* new_process proc_w1" by blast
  have l: "1 \<in> live_contexts proc_w1" "processor_id (theap proc_w1 1) = 0"
    by (simp_all add: proc_w1_def register_thread_def live_contexts_def new_thread_def)
  from processor_ids_unique [OF r l(1) l(1) refl] l show ?thesis by blast
qed

section \<open>Signals of a returned borrower\<close>

definition wf_pending :: "guest_thread \<Rightarrow> bool" where
  "wf_pending t \<longleftrightarrow> (\<forall>i. bit (pending_signals t) i \<longrightarrow> si_signo (pending_info t (i + 1)) = of_nat (i + 1))"

lemma valid_signo_of_nat: "i < 64 \<Longrightarrow> valid_signo (of_nat (i + 1)) \<and> unat (of_nat (i + 1) :: u32) = i + 1"
proof -
  assume i: "i < 64"
  have "unat (of_nat (i + 1) :: u32) = i + 1" using i by (intro unat_eq_of_nat) simp
  moreover have "sint (of_nat (i + 1) :: u32) = int (i + 1)"
    using i by (simp only: signed_of_nat) (simp add: signed_take_bit_int_eq_self)
  ultimately show ?thesis using i by (simp add: valid_signo_def)
qed

lemma post_signal_keeps: "bit (pending_signals t) i \<Longrightarrow> bit (pending_signals (post_signal info t)) i"
  by (simp add: post_signal_def wake_def Let_def bit_or_iff)

lemma fold_post_keeps: "bit (pending_signals t) i \<Longrightarrow> bit (pending_signals (fold post_signal infos t)) i"
  by (induction infos arbitrary: t) (simp_all add: post_signal_keeps)

lemma fold_post_posts:
  assumes "info \<in> set infos" "si_signo info = of_nat (i + 1)" "i < 64"
  shows "bit (pending_signals (fold post_signal infos t)) i"
  using assms(1)
proof (induction infos arbitrary: t)
  case (Cons x xs)
  show ?case
  proof (cases "x = info")
    case True
    have "bit (pending_signals (post_signal info t)) i"
      using valid_signo_of_nat [OF assms(3)] assms(2,3)
      by (simp add: post_signal_def wake_def Let_def sig_bit_def bit_simps)
    then show ?thesis using True fold_post_keeps by simp
  qed (use Cons in simp)
qed simp

lemma drain_signals_keeps: "sigmask (snd (drain_signals b t)) = sigmask t"
proof (induction b t rule: drain_signals.induct)
  case (1 b t)
  then show ?case
    by (cases "take_signal b t")
      (auto simp: drain_signals.simps [of b t] split_beta take_signal_def Let_def split: if_splits)
qed

lemma fold_post_sigmask: "sigmask (fold post_signal infos t) = sigmask t"
  by (induction infos arbitrary: t) (simp_all add: post_signal_def wake_def Let_def)

text \<open>
  C31: Returning a borrower loses no signal.  Every signal pending on the borrower or on its
  carrier is pending on the carrier afterwards, the carrier takes over the borrower's signal
  mask, and the borrower is no longer registered.
\<close>

theorem destroy_borrower_keeps_signals:
  assumes "wf_pending (theap p bp)" and "carrier \<noteq> bp"
    and "bit (pending_signals (theap p bp)) i \<or> bit (pending_signals (theap p carrier)) i"
  shows "bit (pending_signals (theap (destroy_borrower bp carrier p) carrier)) i \<and>
     sigmask (theap (destroy_borrower bp carrier p) carrier) = sigmask (theap p bp) \<and>
     bp \<notin> set (borrowers (destroy_borrower bp carrier p))"
proof -
  let ?infos = "fst (drain_signals 0 (theap p bp))"
  let ?c = "(theap p carrier)\<lparr>sigmask := sigmask (theap p bp), altstack := altstack (theap p bp)\<rparr>"
  have c: "theap (destroy_borrower bp carrier p) carrier = fold post_signal ?infos ?c"
    using assms(2) by (simp add: destroy_borrower_def Let_def)
  have "bit (pending_signals (fold post_signal ?infos ?c)) i"
  proof (cases "bit (pending_signals (theap p bp)) i")
    case True
    have "i < 64" using bit_imp_le_length [OF True] by simp
    moreover have "pending_info (theap p bp) (i + 1) \<in> set ?infos"
      using drain_signals_takes [OF True, of 0] by simp
    moreover have "si_signo (pending_info (theap p bp) (i + 1)) = of_nat (i + 1)"
      using True assms(1) by (simp add: wf_pending_def)
    ultimately show ?thesis using fold_post_posts by blast
  next
    case False
    then show ?thesis using assms(3) by (intro fold_post_keeps) simp
  qed
  then show ?thesis unfolding c by (simp add: fold_post_sigmask destroy_borrower_def Let_def)
qed

definition proc_w2 :: process where
  "proc_w2 = new_process\<lparr>theap := (theap new_process)(2 := post_signal (zero_info\<lparr>si_signo := 10\<rparr>) (new_thread 1)),
     borrowers := [2]\<rparr>"

theorem destroy_borrower_keeps_signals_witness:
  "bit (pending_signals (theap (destroy_borrower 2 1 proc_w2) 1)) 9 \<and>
   2 \<notin> set (borrowers (destroy_borrower 2 1 proc_w2))"
proof -
  have v: "valid_signo 10" by (simp add: valid_signo_def)
  have p: "pending_signals (theap proc_w2 2) = push_bit 9 1" "pending_info (theap proc_w2 2) 10 = zero_info\<lparr>si_signo := 10\<rparr>"
    by (simp_all add: proc_w2_def post_signal_def v wake_def sig_bit_def new_thread_def)
  have "wf_pending (theap proc_w2 2)"
    unfolding wf_pending_def p(1)
  proof (intro allI impI)
    fix i assume "bit (push_bit 9 1 :: u64) i"
    then have "i = 9" by (simp only: bit_push_bit_iff bit_1_iff) auto
    then show "si_signo (pending_info (theap proc_w2 2) (i + 1)) = of_nat (i + 1)" using p(2) by simp
  qed
  moreover have "bit (pending_signals (theap proc_w2 2)) 9" by (simp add: p(1) bit_simps)
  ultimately show ?thesis using destroy_borrower_keeps_signals [of proc_w2 2 1 9] by simp
qed
end
