(* ===== verification/Guest_Signals.thy ===== *)
theory Guest_Signals
  imports Process_State
begin

text \<open>
  Guest signal delivery (\<open>core/src/signals.cpp\<close>): the disposition table, the frame written on
  the guest stack, \<open>sigreturn\<close>, faults turned into signals, the loop that delivers pending
  signals, and the forwarding of host signals with the retirement of the process signal target.

  Signal numbers and flags are the ARM Linux values the source takes from the headers.  Setting
  the status registers through the JIT is an assignment of the thread's fields.
\<close>

section \<open>Constants\<close>

definition kSaSiginfo :: u32 where "kSaSiginfo = 0x00000004"
definition kSaRestorer :: u32 where "kSaRestorer = 0x04000000"
definition kSaOnstack :: u32 where "kSaOnstack = 0x08000000"
definition kSaNodefer :: u32 where "kSaNodefer = 0x40000000"
definition kSaResethand :: u32 where "kSaResethand = 0x80000000"
definition kSigDfl :: u32 where "kSigDfl = 0"
definition kSigIgn :: u32 where "kSigIgn = 1"
definition kSsOnstack :: u32 where "kSsOnstack = 1"
definition kSsDisable :: u32 where "kSsDisable = 2"
definition kCpsrUserMode :: u32 where "kCpsrUserMode = 0x10"

definition kCpsrUserRestorable :: u32 where
  "kCpsrUserRestorable = 0xF80F0000 OR kCpsrItMask OR kCpsrThumb"

definition kVfpFrameMagic :: u32 where "kVfpFrameMagic = 0x5A425646"

definition SIGILL :: nat where "SIGILL = 4"
definition SIGTRAP :: nat where "SIGTRAP = 5"
definition SIGBUS :: nat where "SIGBUS = 7"
definition SIGKILL :: nat where "SIGKILL = 9"
definition SIGSEGV :: nat where "SIGSEGV = 11"
definition SIGCHLD :: nat where "SIGCHLD = 17"
definition SIGCONT :: nat where "SIGCONT = 18"
definition SIGSTOP :: nat where "SIGSTOP = 19"
definition SIGURG :: nat where "SIGURG = 23"
definition SIGWINCH :: nat where "SIGWINCH = 28"

definition kUnblockable :: u64 where
  "kUnblockable = sig_bit SIGKILL OR sig_bit SIGSTOP"

definition default_ignored :: "nat \<Rightarrow> bool" where
  "default_ignored sig \<longleftrightarrow> sig = SIGCHLD \<or> sig = SIGCONT \<or> sig = SIGURG \<or> sig = SIGWINCH"

section \<open>Delivery\<close>

definition alt_enabled :: "guest_thread \<Rightarrow> bool" where
  "alt_enabled t \<longleftrightarrow> ss_flags (altstack t) \<noteq> kSsDisable \<and> ss_size (altstack t) \<noteq> 0"

definition on_altstack :: "guest_thread \<Rightarrow> bool" where
  "on_altstack t \<longleftrightarrow> alt_enabled t \<and> regs t ! 13 - ss_sp (altstack t) < ss_size (altstack t)"

definition frame_top :: "ksigaction32 \<Rightarrow> guest_thread \<Rightarrow> u32" where
  "frame_top act t =
     (if sa_flags act AND kSaOnstack \<noteq> 0 \<and> alt_enabled t \<and> \<not> on_altstack t
      then ss_sp (altstack t) + ss_size (altstack t) else regs t ! 13)"

definition frame_size :: "bool \<Rightarrow> u32" where
  "frame_size rt = (if rt then 888 else 760)"

definition make_ucontext :: "nat \<Rightarrow> siginfo32 \<Rightarrow> guest_thread \<Rightarrow> ucontext32" where
  "make_ucontext sig info t =
     \<lparr>uc_flags = 0, uc_link = 0,
      uc_stack = (altstack t)\<lparr>ss_flags := (if alt_enabled t then (if on_altstack t then kSsOnstack else 0) else kSsDisable)\<rparr>,
      uc_mcontext = \<lparr>trap_no = 0, error_code = 0, oldmask = ucast (sigmask t), sc_regs = regs t, sc_cpsr = cpsr t,
        fault_address = (if sig = SIGSEGV \<or> sig = SIGBUS then si_fields info ! 0 else 0)\<rparr>,
      uc_sigmask = sigmask t,
      uc_regspace = kVfpFrameMagic # ext_regs t @ [fpscr t] @ replicate 62 0\<rparr>"

text \<open>The registers and the mask with which the handler starts.\<close>

definition enter_handler :: "nat \<Rightarrow> ksigaction32 \<Rightarrow> bool \<Rightarrow> u32 \<Rightarrow> guest_thread \<Rightarrow> guest_thread" where
  "enter_handler sig act rt frame t =
     (let mask0 = sigmask t OR push_bit 32 (ucast (sa_mask act ! 1)) OR ucast (sa_mask act ! 0);
          mask = (if sa_flags act AND kSaNodefer = 0 then mask0 OR sig_bit sig else mask0);
          r0 = (regs t)[0 := of_nat sig];
          r1 = (if rt then r0[1 := frame, 2 := frame + 128] else r0)
      in t\<lparr>sigmask := mask AND NOT kUnblockable,
           regs := r1[13 := frame, 14 := (if sa_flags act AND kSaRestorer \<noteq> 0 then sa_restorer act else 0),
                      15 := sa_handler act AND NOT 1],
           cpsr := (cpsr t AND NOT (kCpsrThumb OR kCpsrItMask OR kCpsrEndian)) OR
                   (if sa_handler act AND 1 \<noteq> 0 then kCpsrThumb else 0)\<rparr>)"

text \<open>The part of \<open>deliver_signal\<close> after the disposition: the frame is written and the thread
  redirected, or the process dies because the frame cannot be written.\<close>

definition push_frame_and_enter :: "nat \<Rightarrow> nat \<Rightarrow> ksigaction32 \<Rightarrow> siginfo32 \<Rightarrow> process \<Rightarrow> bool \<times> process" where
  "push_frame_and_enter tp sig act info p =
     (let t = theap p tp;
          rt = (sa_flags act AND kSaSiginfo \<noteq> 0);
          frame = (frame_top act t - frame_size rt) AND NOT 7;
          uc = make_ucontext sig info t;
          image = (if rt then rt_sigframe32_bytes \<lparr>rt_info = info, rt_uc = uc\<rparr> else sigframe32_bytes \<lparr>sf_uc = uc\<rparr>)
      in case host_ptr frame (ucast (frame_size rt)) kPageWrite (pmem p) of
           None \<Rightarrow> (False, p)
         | Some dst \<Rightarrow>
             (True, upd_thread tp (enter_handler sig act rt frame) (p\<lparr>pmem := store_bytes dst image (pmem p)\<rparr>)))"

definition deliver_signal :: "nat \<Rightarrow> siginfo32 \<Rightarrow> bool \<Rightarrow> process \<Rightarrow> bool \<times> process" where
  "deliver_signal tp info forced p =
     (let sig = unat (si_signo info);
          act = sigactions p sig
      in if \<not> valid_signo (si_signo info) then (True, p)
         else if forced \<and> (\<not> sa_handler act > kSigIgn \<or> sigmask (theap p tp) AND sig_bit sig \<noteq> 0) then (False, p)
         else if sig = SIGKILL \<or> sig = SIGSTOP then (False, p)
         else if sa_handler act = kSigIgn then (True, p)
         else if sa_handler act = kSigDfl then (default_ignored sig, p)
         else let p1 = (if sa_flags act AND kSaResethand \<noteq> 0
                        then p\<lparr>sigactions := (sigactions p)(sig := act\<lparr>sa_handler := kSigDfl,
                               sa_flags := sa_flags act AND NOT kSaSiginfo\<rparr>)\<rparr>
                        else p)
              in push_frame_and_enter tp sig act info p1)"

definition sigreturn :: "nat \<Rightarrow> bool \<Rightarrow> process \<Rightarrow> bool \<times> process" where
  "sigreturn tp rt p =
     (let t = theap p tp;
          uc_addr = regs t ! 13 + (if rt then 128 else 0)
      in case host_ptr uc_addr 744 kPageRead (pmem p) of
           None \<Rightarrow> (False, p)
         | Some src \<Rightarrow>
             (let uc = ucontext32_of (load_bytes src 744 (pmem p));
                  t1 = t\<lparr>regs := sc_regs (uc_mcontext uc),
                         cpsr := (sc_cpsr (uc_mcontext uc) AND kCpsrUserRestorable) OR kCpsrUserMode,
                         sigmask := uc_sigmask uc AND NOT kUnblockable\<rparr>;
                  t2 = (if uc_regspace uc ! 0 = kVfpFrameMagic
                        then t1\<lparr>ext_regs := take 64 (drop 1 (uc_regspace uc)), fpscr := uc_regspace uc ! 65\<rparr>
                        else t1);
                  t3 = (if ss_flags (uc_stack uc) = 0 \<or> ss_flags (uc_stack uc) = kSsDisable
                        then t2\<lparr>altstack := uc_stack uc\<rparr> else t2)
              in (True, upd_thread tp (\<lambda>_. t3) p)))"

section \<open>Faults\<close>

definition SEGV_MAPERR :: u32 where "SEGV_MAPERR = 1"
definition SEGV_ACCERR :: u32 where "SEGV_ACCERR = 2"
definition TRAP_BRKPT :: u32 where "TRAP_BRKPT = 1"
definition ILL_ILLOPC :: u32 where "ILL_ILLOPC = 1"

definition deliver_fault :: "nat \<Rightarrow> stop \<Rightarrow> process \<Rightarrow> bool \<times> process" where
  "deliver_fault tp stp p =
     (if kind stp = StopMemoryFault then
        deliver_signal tp (zero_info\<lparr>si_signo := of_nat SIGSEGV,
          si_code := (if accessible (fault_addr stp) 1 0 (pmem p) then SEGV_ACCERR else SEGV_MAPERR),
          si_fields := (si_fields zero_info)[0 := fault_addr stp]\<rparr>) True p
      else
        (let breakpoint = (stop_exception stp = Breakpoint)
         in deliver_signal tp (zero_info\<lparr>si_signo := of_nat (if breakpoint then SIGTRAP else SIGILL),
              si_code := (if breakpoint then TRAP_BRKPT else ILL_ILLOPC),
              si_fields := (si_fields zero_info)[0 := stop_pc stp]\<rparr>) True
              (upd_thread tp (\<lambda>t. t\<lparr>regs := (regs t)[15 := stop_pc stp]\<rparr>) p)))"

section \<open>Pending signals\<close>

lemma enter_handler_pending [simp]: "pending_signals (enter_handler s a r f t) = pending_signals t"
  by (simp add: enter_handler_def Let_def)

lemma push_frame_pending:
  "push_frame_and_enter tp sig act info p = (ok, p') \<Longrightarrow> pending_signals (theap p' tp) = pending_signals (theap p tp)"
  by (auto simp: push_frame_and_enter_def Let_def split: option.splits)

lemma deliver_signal_pending:
  "deliver_signal tp info forced p = (ok, p') \<Longrightarrow> pending_signals (theap p' tp) = pending_signals (theap p tp)"
  by (auto simp: deliver_signal_def Let_def dest!: push_frame_pending split: if_splits)

text \<open>The loop of \<open>dispatch_pending_signals\<close>; it ends because every round takes one pending signal
  and delivery posts none.\<close>

function dispatch_pending_signals :: "nat \<Rightarrow> process \<Rightarrow> bool \<times> process" where
  "dispatch_pending_signals tp p =
     (case take_signal (sigmask (theap p tp)) (theap p tp) of
        None \<Rightarrow> (True, p)
      | Some (info, t') \<Rightarrow>
          (case deliver_signal tp info False (p\<lparr>theap := (theap p)(tp := t')\<rparr>) of
             (ok, p') \<Rightarrow>
               if \<not> ok then (False, request_exit (128 + sint (si_signo info)) p')
               else dispatch_pending_signals tp p'))"
  by pat_completeness auto
termination
  by (relation "measure (\<lambda>(tp, p). card {i. bit (pending_signals (theap p tp)) i})", simp)
    (auto dest!: take_signal_decreases dest: deliver_signal_pending [OF sym])

declare dispatch_pending_signals.simps [simp del]

section \<open>Forwarded host signals\<close>

definition kForwardedHostSignals :: "nat list" where
  "kForwardedHostSignals = [14, 13, 10, 12, 17, 28, 23, 26, 27, 29]"

text \<open>\<open>forward_host_signal\<close>: \<open>current\<close> is the guest thread of the interrupted host thread.\<close>

definition forward_host_signal :: "nat option \<Rightarrow> nat \<Rightarrow> u32 \<Rightarrow> u32 \<Rightarrow> u32 \<Rightarrow> process \<Rightarrow> process" where
  "forward_host_signal current sig code pid uid p =
     (let guest = zero_info\<lparr>si_signo := of_nat sig, si_code := code,
                    si_fields := (si_fields zero_info)[0 := pid, 1 := uid]\<rparr>
      in case current of
           Some tp \<Rightarrow> upd_thread tp (post_signal guest) p
         | None \<Rightarrow> (case signal_target p of
                     None \<Rightarrow> p
                   | Some tp \<Rightarrow> upd_thread tp (post_signal guest) p))"

section \<open>Retirement of the process signal target\<close>

text \<open>
  \<open>forward_host_signal\<close> on threads without guest code races with
  \<open>clear_process_signal_target\<close>.  One element of \<open>hands\<close> per host thread says where its handler
  stands; every step is one sequentially consistent atomic operation of the source, or the use of
  the loaded pointer.  The counter is the 32-bit word of the source.
\<close>

datatype handler_pc = HOutside | HCounted | HHolds nat | HPosted
datatype clear_pc = COutside | CWaiting nat | CReturned nat

record target_state =
  g_process_signal_target :: "nat option"
  g_target_readers :: u32
  hands :: "handler_pc list"
  clearer :: clear_pc

inductive target_step :: "target_state \<Rightarrow> target_state \<Rightarrow> bool" where
  h_register: "i < length (hands s) \<Longrightarrow> hands s ! i = HOutside \<Longrightarrow>
     target_step s (s\<lparr>g_target_readers := g_target_readers s + 1, hands := (hands s)[i := HCounted]\<rparr>)"
| h_load: "i < length (hands s) \<Longrightarrow> hands s ! i = HCounted \<Longrightarrow>
     target_step s (s\<lparr>hands := (hands s)[i := (case g_process_signal_target s of Some tp \<Rightarrow> HHolds tp | None \<Rightarrow> HPosted)]\<rparr>)"
| h_post: "i < length (hands s) \<Longrightarrow> hands s ! i = HHolds tp \<Longrightarrow>
     target_step s (s\<lparr>hands := (hands s)[i := HPosted]\<rparr>)"
| h_leave: "i < length (hands s) \<Longrightarrow> hands s ! i = HPosted \<Longrightarrow>
     target_step s (s\<lparr>g_target_readers := g_target_readers s - 1, hands := (hands s)[i := HOutside]\<rparr>)"
| c_exchange: "clearer s = COutside \<Longrightarrow> g_process_signal_target s = Some tp \<Longrightarrow>
     target_step s (s\<lparr>g_process_signal_target := None, clearer := CWaiting tp\<rparr>)"
| c_return: "clearer s = CWaiting tp \<Longrightarrow> g_target_readers s = 0 \<Longrightarrow>
     target_step s (s\<lparr>clearer := CReturned tp\<rparr>)"
| p_publish: "g_process_signal_target s = None \<Longrightarrow> clearer s = COutside \<or> clearer s = CReturned old \<and> tp \<noteq> old \<Longrightarrow>
     target_step s (s\<lparr>g_process_signal_target := Some tp\<rparr>)"

fun outside :: "handler_pc \<Rightarrow> bool" where
  "outside HOutside \<longleftrightarrow> True"
| "outside _ \<longleftrightarrow> False"

definition target_start :: "nat \<Rightarrow> target_state" where
  "target_start n = \<lparr>g_process_signal_target = None, g_target_readers = 0, hands = replicate n HOutside, clearer = COutside\<rparr>"

definition inside_count :: "handler_pc list \<Rightarrow> nat" where
  "inside_count hs = length (filter (\<lambda>h. \<not> outside h) hs)"

definition target_inv :: "target_state \<Rightarrow> bool" where
  "target_inv s \<longleftrightarrow> length (hands s) < 2 ^ 32 \<and> g_target_readers s = of_nat (inside_count (hands s)) \<and>
     (case clearer s of COutside \<Rightarrow> True
      | CWaiting tp \<Rightarrow> g_process_signal_target s \<noteq> Some tp
      | CReturned tp \<Rightarrow> g_process_signal_target s \<noteq> Some tp \<and> HHolds tp \<notin> set (hands s))"

lemma inside_count_update:
  "i < length hs \<Longrightarrow> int (inside_count (hs[i := h])) =
     int (inside_count hs) - of_bool (\<not> outside (hs ! i)) + of_bool (\<not> outside h)"
proof (induction hs arbitrary: i)
  case (Cons a hs)
  then show ?case by (cases i) (fastforce simp: inside_count_def)+
qed simp

lemma inside_count_word:
  "i < length hs \<Longrightarrow> (of_nat (inside_count (hs[i := h])) :: u32) =
     of_nat (inside_count hs) - of_bool (\<not> outside (hs ! i)) + of_bool (\<not> outside h)"
  using arg_cong [OF inside_count_update, of i hs of_int h] by simp

lemma inside_count_zero: "inside_count hs = 0 \<Longrightarrow> HHolds tp \<notin> set hs"
  by (fastforce simp: inside_count_def filter_empty_conv)

lemma inside_count_le: "inside_count hs \<le> length hs"
  by (simp add: inside_count_def)

lemma inside_count_of_nat_zero:
  assumes "(of_nat (inside_count hs) :: u32) = 0" "length hs < 2 ^ 32"
  shows "inside_count hs = 0"
proof -
  have "inside_count hs < 2 ^ 32" using assms(2) inside_count_le [of hs] by simp
  then have "unat (of_nat (inside_count hs) :: u32) = inside_count hs" by (simp add: unat_of_nat take_bit_nat_eq_self)
  then show ?thesis using assms(1) by simp
qed

lemma in_set_update: "x \<in> set (xs[i := y]) \<Longrightarrow> x = y \<or> x \<in> set xs"
  by (meson insertE set_update_subset_insert subsetD)

lemma target_step_inv:
  assumes "target_step s s'" "target_inv s" shows "target_inv s'"
  using assms
proof (cases rule: target_step.cases)
  case (c_return tp)
  then show ?thesis using assms(2) inside_count_zero inside_count_of_nat_zero
    by (auto simp: target_inv_def)
qed (auto simp: target_inv_def inside_count_word dest!: in_set_update split: clear_pc.splits option.splits)

lemma target_start_inv: "n < 2 ^ 32 \<Longrightarrow> target_inv (target_start n)"
  by (simp add: target_inv_def target_start_def inside_count_def)

lemma target_reach_inv: "target_step\<^sup>*\<^sup>* s s' \<Longrightarrow> target_inv s \<Longrightarrow> target_inv s'"
  by (induction rule: rtranclp_induct) (auto intro: target_step_inv)

text \<open>
  C34: When \<open>clear_process_signal_target\<close> has returned for a guest thread, no forwarding handler
  holds that thread and none can load it any more, so destroying it is safe.  This holds in every
  interleaving of any number of handlers with the retirement and with later publications of other
  threads.
\<close>

theorem retired_target_unused:
  assumes "n < 2 ^ 32" and "target_step\<^sup>*\<^sup>* (target_start n) s" and "clearer s = CReturned tp"
  shows "HHolds tp \<notin> set (hands s) \<and> g_process_signal_target s \<noteq> Some tp"
  using target_reach_inv [OF assms(2) target_start_inv [OF assms(1)]] assms(3) by (simp add: target_inv_def)

theorem retired_target_unused_witness:
  "\<exists>s. target_step\<^sup>*\<^sup>* (target_start 1) s \<and> clearer s = CReturned 7 \<and>
       HHolds 7 \<notin> set (hands s) \<and> g_process_signal_target s \<noteq> Some 7"
proof -
  let ?s1 = "(target_start 1)\<lparr>g_process_signal_target := Some 7\<rparr>"
  let ?s2 = "?s1\<lparr>g_process_signal_target := None, clearer := CWaiting 7\<rparr>"
  let ?s3 = "?s2\<lparr>clearer := CReturned 7\<rparr>"
  have "target_step (target_start 1) ?s1" by (rule p_publish [where old = 0]) (simp_all add: target_start_def)
  moreover have "target_step ?s1 ?s2" by (rule c_exchange) (simp_all add: target_start_def)
  moreover have "target_step ?s2 ?s3" by (rule c_return) (simp_all add: target_start_def)
  ultimately have "target_step\<^sup>*\<^sup>* (target_start 1) ?s3"
    by (meson rtranclp.rtrancl_refl rtranclp.rtrancl_into_rtrancl)
  then show ?thesis using retired_target_unused [of 1 ?s3 7] by auto
qed

section \<open>Frames\<close>

lemma make_ucontext_wf:
  "length (regs t) = 16 \<Longrightarrow> length (ext_regs t) = 64 \<Longrightarrow> wf_ucontext32 (make_ucontext sig info t)"
  by (simp add: wf_ucontext32_def make_ucontext_def wf_sigcontext32_def)

lemma frame_image:
  assumes "rt = (sa_flags act AND kSaSiginfo \<noteq> 0)"
    and "push_frame_and_enter tp sig act info p = (True, p')"
  defines "frame \<equiv> (frame_top act (theap p tp) - frame_size rt) AND NOT 7"
  shows "load_bytes (unat frame + (if rt then 128 else 0)) 744 (pmem p') =
           ucontext32_bytes (make_ucontext sig info (theap p tp))"
    and "theap p' tp = enter_handler sig act rt frame (theap p tp)"
    and "accessible frame (ucast (frame_size rt)) kPageWrite (pmem p)"
  using assms(2) unfolding push_frame_and_enter_def Let_def assms(1) [symmetric] frame_def [symmetric]
  by (auto simp: host_ptr_def load_store_inside rt_sigframe32_bytes_def sigframe32_bytes_def upd_thread_def
      split: if_splits)

lemma enter_handler_sp: "length (regs t) = 16 \<Longrightarrow> regs (enter_handler sig act rt frame t) ! 13 = frame"
  by (simp add: enter_handler_def Let_def)

lemma sigreturn_of_image:
  assumes "host_ptr (regs (theap q tp) ! 13 + (if rt then 128 else 0)) 744 kPageRead (pmem q) = Some src"
    and "load_bytes src 744 (pmem q) = ucontext32_bytes (make_ucontext sig info t)"
    and "length (regs t) = 16" and "length (ext_regs t) = 64"
  shows "sigreturn tp rt q =
     (True, upd_thread tp (\<lambda>u. u\<lparr>regs := regs t,
        cpsr := (cpsr t AND kCpsrUserRestorable) OR kCpsrUserMode, sigmask := sigmask t AND NOT kUnblockable,
        ext_regs := ext_regs t, fpscr := fpscr t, altstack := (if on_altstack t then altstack u
                     else (altstack t)\<lparr>ss_flags := (if alt_enabled t then 0 else kSsDisable)\<rparr>)\<rparr>) q)"
proof -
  have "ucontext32_of (load_bytes src 744 (pmem q)) = make_ucontext sig info t"
    using ucontext32_of_bytes [OF make_ucontext_wf [OF assms(3,4)], of sig info "[]"] assms(2) by simp
  moreover have "on_altstack t \<Longrightarrow> alt_enabled t" by (simp add: on_altstack_def)
  ultimately show ?thesis using assms(1,3,4)
    by (simp add: sigreturn_def Let_def make_ucontext_def upd_thread_def kSsOnstack_def kSsDisable_def nth_append)
qed

lemma uc_addr_no_wrap:
  assumes "accessible frame (ucast (frame_size rt)) kPageWrite m"
  shows "unat (frame + (if rt then 128 else 0)) = unat frame + (if rt then 128 else 0)"
proof -
  have "unat frame + unat (ucast (frame_size rt) :: u64) \<le> 4294967296"
    using assms unat_less_u32 [of frame] accessible_iff [of frame "ucast (frame_size rt)" kPageWrite m]
    by (simp add: frame_size_def split: if_splits)
  then show ?thesis by (simp add: frame_size_def unat_word_ariths split: if_splits)
qed

text \<open>A handler is entered: none of the dispositions that end \<open>deliver_signal\<close> early applies.\<close>

definition takes_handler :: "nat \<Rightarrow> siginfo32 \<Rightarrow> bool \<Rightarrow> process \<Rightarrow> bool" where
  "takes_handler tp info forced p \<longleftrightarrow>
     (let sig = unat (si_signo info)
      in valid_signo (si_signo info) \<and> sig \<noteq> SIGKILL \<and> sig \<noteq> SIGSTOP \<and> sa_handler (sigactions p sig) > kSigIgn \<and>
         (forced \<longrightarrow> sigmask (theap p tp) AND sig_bit sig = 0))"

lemma deliver_signal_handler:
  assumes "takes_handler tp info forced p"
  defines "sig \<equiv> unat (si_signo info)" and "act \<equiv> sigactions p (unat (si_signo info))"
  shows "deliver_signal tp info forced p = push_frame_and_enter tp sig act info
     (if sa_flags act AND kSaResethand \<noteq> 0
      then p\<lparr>sigactions := (sigactions p)(sig := act\<lparr>sa_handler := kSigDfl, sa_flags := sa_flags act AND NOT kSaSiginfo\<rparr>)\<rparr>
      else p)"
  using assms(1) unfolding takes_handler_def deliver_signal_def Let_def sig_def act_def
  by (auto simp: kSigIgn_def kSigDfl_def)

text \<open>
  C32: \<open>sigreturn\<close> undoes the delivery of a signal.  A signal with a handler is delivered to a
  thread; whatever runs then, as long as \<open>sigreturn\<close> is called with the stack pointer at the frame
  and the saved context still in readable memory, the thread gets back all sixteen registers, all
  sixty-four extension register words, \<open>fpscr\<close>, the user-visible bits of \<open>cpsr\<close>, its signal mask
  (less the two signals that cannot be blocked) and its alternate stack.
\<close>

theorem sigreturn_undoes_delivery:
  assumes "takes_handler tp info forced p" and "deliver_signal tp info forced p = (True, p')"
    and "length (regs (theap p tp)) = 16" and "length (ext_regs (theap p tp)) = 64"
    and "rt = (sa_flags (sigactions p (unat (si_signo info))) AND kSaSiginfo \<noteq> 0)"
    and "regs (theap q tp) ! 13 = regs (theap p' tp) ! 13"
    and "host_ptr (regs (theap q tp) ! 13 + (if rt then 128 else 0)) 744 kPageRead (pmem q) = Some src"
    and "load_bytes src 744 (pmem q) = load_bytes src 744 (pmem p')"
  shows "sigreturn tp rt q =
     (True, upd_thread tp (\<lambda>u. u\<lparr>regs := regs (theap p tp),
        cpsr := (cpsr (theap p tp) AND kCpsrUserRestorable) OR kCpsrUserMode,
        sigmask := sigmask (theap p tp) AND NOT kUnblockable,
        ext_regs := ext_regs (theap p tp), fpscr := fpscr (theap p tp),
        altstack := (if on_altstack (theap p tp) then altstack u
                     else (altstack (theap p tp))\<lparr>ss_flags := (if alt_enabled (theap p tp) then 0 else kSsDisable)\<rparr>)\<rparr>) q)"
proof -
  define sig act where "sig = unat (si_signo info)" and "act = sigactions p (unat (si_signo info))"
  define p1 where "p1 = (if sa_flags act AND kSaResethand \<noteq> 0
      then p\<lparr>sigactions := (sigactions p)(sig := act\<lparr>sa_handler := kSigDfl, sa_flags := sa_flags act AND NOT kSaSiginfo\<rparr>)\<rparr>
      else p)"
  have th: "theap p1 = theap p" and rt: "rt = (sa_flags act AND kSaSiginfo \<noteq> 0)"
    using assms(5) by (simp_all add: p1_def act_def)
  have pf: "push_frame_and_enter tp sig act info p1 = (True, p')"
    using deliver_signal_handler [OF assms(1)] assms(2) by (simp add: p1_def sig_def act_def)
  note fi = frame_image [OF rt pf, unfolded th]
  have sp: "regs (theap q tp) ! 13 = (frame_top act (theap p tp) - frame_size rt) AND NOT 7"
    using assms(6) fi(2) enter_handler_sp [OF assms(3)] by simp
  have "src = unat (regs (theap q tp) ! 13 + (if rt then 128 else 0))"
    using assms(7) by (simp add: host_ptr_def split: if_splits)
  then have "load_bytes src 744 (pmem q) = ucontext32_bytes (make_ucontext sig info (theap p tp))"
    using assms(8) fi(1) uc_addr_no_wrap [OF fi(3)] by (simp only: sp)
  from sigreturn_of_image [OF assms(7) this assms(3,4)] show ?thesis .
qed

text \<open>A process of one thread with sixteen registers, a writable page at \<open>0x8000\<close> and a handler for
  signal 10.\<close>

definition signal_demo :: process where
  "signal_demo = new_process\<lparr>pmem := (pmem new_process)\<lparr>pages := (pages (pmem new_process))(8 := kPageMapped OR kPageRead OR kPageWrite)\<rparr>,
     theap := (\<lambda>_. (new_thread 0)\<lparr>regs := (replicate 16 0)[13 := 0x8FFC, 15 := 0x1235], ext_regs := replicate 64 3, cpsr := 0x30\<rparr>),
     sigactions := (\<lambda>_. zero_action\<lparr>sa_handler := 0x2001, sa_flags := kSaSiginfo\<rparr>)\<rparr>"

definition signal_demo_info :: siginfo32 where
  "signal_demo_info = zero_info\<lparr>si_signo := 10\<rparr>"

lemma signal_demo_takes: "takes_handler 0 signal_demo_info False signal_demo"
  by (simp add: takes_handler_def signal_demo_def signal_demo_info_def valid_signo_def SIGKILL_def SIGSTOP_def kSigIgn_def)

lemma signal_demo_access:
  "accessible 0x8C80 888 kPageWrite (pmem signal_demo)" "accessible (0x8C80 + 128) 744 kPageRead (pmem signal_demo)"
  by (code_simp, code_simp)

lemma signal_demo_delivered: "\<exists>p'. deliver_signal 0 signal_demo_info False signal_demo = (True, p') \<and>
   regs (theap p' 0) ! 13 = 0x8C80 \<and> pages (pmem p') = pages (pmem signal_demo)"
  unfolding deliver_signal_handler [OF signal_demo_takes] push_frame_and_enter_def Let_def
  using signal_demo_access(1)
  by (simp add: signal_demo_def frame_top_def frame_size_def host_ptr_def upd_thread_def kSaSiginfo_def
      kSaOnstack_def kSaResethand_def zero_action_def enter_handler_def Let_def)

theorem sigreturn_undoes_delivery_witness:
  "\<exists>p' q'. deliver_signal 0 signal_demo_info False signal_demo = (True, p') \<and> sigreturn 0 True p' = (True, q') \<and>
     regs (theap q' 0) = regs (theap signal_demo 0) \<and> ext_regs (theap q' 0) = ext_regs (theap signal_demo 0)"
proof -
  obtain p' where p': "deliver_signal 0 signal_demo_info False signal_demo = (True, p')"
    "regs (theap p' 0) ! 13 = 0x8C80" "pages (pmem p') = pages (pmem signal_demo)"
    using signal_demo_delivered by blast
  have l: "length (regs (theap signal_demo 0)) = 16" "length (ext_regs (theap signal_demo 0)) = 64"
    "True = (sa_flags (sigactions signal_demo (unat (si_signo signal_demo_info))) AND kSaSiginfo \<noteq> 0)"
    by (simp_all add: signal_demo_def kSaSiginfo_def)
  have "accessible (0x8C80 + 128) 744 kPageRead (pmem p')"
    using signal_demo_access(2) unfolding accessible_def p'(3) .
  then have "host_ptr (regs (theap p' 0) ! 13 + (if True then 128 else 0)) 744 kPageRead (pmem p') = Some (unat (0x8C80 + 128 :: u32))"
    using p'(2) by (simp add: host_ptr_def)
  from sigreturn_undoes_delivery [OF signal_demo_takes p'(1) l refl this refl] p'(1)
  show ?thesis by (simp add: upd_thread_def)
qed

lemma enter_handler_regs:
  assumes "length (regs t) = 16"
  shows "regs (enter_handler sig act rt frame t) ! 0 = of_nat sig"
    "regs (enter_handler sig act rt frame t) ! 13 = frame"
    "regs (enter_handler sig act rt frame t) ! 15 = sa_handler act AND NOT 1"
  using assms by (simp_all add: enter_handler_def Let_def)

lemma enter_handler_thumb: "bit (cpsr (enter_handler sig act rt frame t)) 5 \<longleftrightarrow> bit (sa_handler act) 0"
proof -
  have "bit (0x20 :: u32) 5" by simp
  moreover have "sa_handler act AND 1 \<noteq> 0 \<longleftrightarrow> bit (sa_handler act) 0" by (simp add: and_one_eq odd_iff_mod_2_eq_one bit_0)
  ultimately show ?thesis by (simp add: enter_handler_def Let_def kCpsrThumb_def bit_simps)
qed

lemma bit_sig_bit: "bit (sig_bit sig) n \<longleftrightarrow> n = sig - 1 \<and> n < 64"
  by (auto simp: sig_bit_def bit_simps)

lemma bit_kUnblockable: "bit kUnblockable n \<longleftrightarrow> n = SIGKILL - 1 \<or> n = SIGSTOP - 1"
  by (auto simp: kUnblockable_def bit_simps bit_sig_bit SIGKILL_def SIGSTOP_def)

lemma enter_handler_mask:
  "bit (sigmask (enter_handler sig act rt frame t)) n \<longleftrightarrow> n < 64 \<and> \<not> bit kUnblockable n \<and>
     (bit (sigmask t) n \<or> (if n < 32 then bit (sa_mask act ! 0) n else bit (sa_mask act ! 1) (n - 32)) \<or>
      sa_flags act AND kSaNodefer = 0 \<and> n = sig - 1)"
  by (auto simp: enter_handler_def Let_def bit_simps bit_sig_bit dest: bit_imp_le_length)



end
