(* ===== verification/Syscall_Base.thy ===== *)
theory Syscall_Base
  imports Guest_Signals
begin

text \<open>
  The context in which \<open>core/src/syscalls.cpp\<close> runs a guest system call, its accessors to guest
  memory, and the host kernel it calls.

  The host kernel is a parameter: a function from the name of the call, its arguments, the guest
  memory and its own state to a result (return value, \<open>errno\<close>, the bytes it wrote into guest
  ranges it was handed, the fields of a host structure it filled,
  the control messages it delivered as the \<open>CMSG\<close> macros enumerate them).  An argument says what the
  kernel gets: a number, a host string, a host structure, or a range of guest memory with the
  kernel's use of it.  The kernel writes a guest range only where the call hands it one for
  writing, and not past its end.  Every call is logged, so that what reaches the host can be
  stated.
\<close>

section \<open>The host kernel\<close>

datatype harg = AInt int | ANull | AStr string | AVals "int list" | AData "u8 list" | AOut
  | ARead nat nat | AWrite nat nat | AReadWrite nat nat | ARange nat nat

record hres =
  rc :: int
  err :: nat
  wrote :: "u8 list list"
  vals :: "int list"
  blob :: "u8 list"
  cmsgs :: "(u32 \<times> u32 \<times> u8 list) list"

type_synonym 'h host = "string \<Rightarrow> harg list \<Rightarrow> guest_memory \<Rightarrow> 'h \<Rightarrow> hres \<times> 'h"

text \<open>Everything the system calls rely on outside the sources: system calls, the memory calls of
  \<open>GuestMemory\<close> with the \<open>errno\<close> they leave, the file system of \<open>translate_path\<close>, the content of an
  open file, and the results of the path lookups for executable mappings.\<close>

record 'h env =
  e_host :: "'h host"
  e_mm :: kernel
  e_mm_errno :: "host_call list \<Rightarrow> nat"
  e_fs :: host_fs
  e_file :: "int \<Rightarrow> 'h \<Rightarrow> u8 list option"
  e_fd_target :: "int \<Rightarrow> 'h \<Rightarrow> string option"
  e_realpath :: "string \<Rightarrow> 'h \<Rightarrow> string option"

record 'h ctx =
  proc :: process
  thr :: nat
  args :: "u32 list"
  stop_flag :: bool
  no_result :: bool
  hst :: 'h
  hcalls :: "(string \<times> harg list) list"

abbreviation arg :: "'h ctx \<Rightarrow> nat \<Rightarrow> u32" where
  "arg c i \<equiv> args c ! i"

abbreviation cmem :: "'h ctx \<Rightarrow> guest_memory" where
  "cmem c \<equiv> pmem (proc c)"

abbreviation cthread :: "'h ctx \<Rightarrow> guest_thread" where
  "cthread c \<equiv> theap (proc c) (thr c)"

definition set_mem :: "guest_memory \<Rightarrow> 'h ctx \<Rightarrow> 'h ctx" where
  "set_mem m c = c\<lparr>proc := (proc c)\<lparr>pmem := m\<rparr>\<rparr>"

definition set_thread :: "(guest_thread \<Rightarrow> guest_thread) \<Rightarrow> 'h ctx \<Rightarrow> 'h ctx" where
  "set_thread f c = c\<lparr>proc := upd_thread (thr c) f (proc c)\<rparr>"

fun kernel_writes :: "harg list \<Rightarrow> u8 list list \<Rightarrow> guest_memory \<Rightarrow> guest_memory" where
  "kernel_writes (AWrite p n # as) (b # bs) m = kernel_writes as bs (store_bytes p (take n b) m)"
| "kernel_writes (AReadWrite p n # as) (b # bs) m = kernel_writes as bs (store_bytes p (take n b) m)"
| "kernel_writes (_ # as) bs m = kernel_writes as bs m"
| "kernel_writes [] bs m = m"

definition hcall :: "'h env \<Rightarrow> string \<Rightarrow> harg list \<Rightarrow> 'h ctx \<Rightarrow> hres \<times> 'h ctx" where
  "hcall E nm as c =
     (let (r, h) = e_host E nm as (cmem c) (hst c)
      in (r, set_mem (kernel_writes as (wrote r) (cmem c)) (c\<lparr>hst := h, hcalls := hcalls c @ [(nm, as)]\<rparr>)))"

text \<open>Field \<open>i\<close> of a host structure the kernel filled.\<close>

definition val :: "hres \<Rightarrow> nat \<Rightarrow> int" where
  "val r i = (if i < length (vals r) then vals r ! i else 0)"

section \<open>Results\<close>

definition EPERM :: nat where "EPERM = 1"
definition ESRCH :: nat where "ESRCH = 3"
definition EINTR :: nat where "EINTR = 4"
definition EIO :: nat where "EIO = 5"
definition ENOEXEC :: nat where "ENOEXEC = 8"
definition EAGAIN :: nat where "EAGAIN = 11"
definition ENOMEM :: nat where "ENOMEM = 12"
definition EACCES :: nat where "EACCES = 13"
definition EFAULT :: nat where "EFAULT = 14"
definition EEXIST :: nat where "EEXIST = 17"
definition EINVAL :: nat where "EINVAL = 22"
definition ENOTTY :: nat where "ENOTTY = 25"
definition ENOSYS :: nat where "ENOSYS = 38"
definition EOVERFLOW :: nat where "EOVERFLOW = 75"
definition EMSGSIZE :: nat where "EMSGSIZE = 90"

definition neg :: "nat \<Rightarrow> u32" where
  "neg e = - of_nat e"

definition result_of :: "hres \<Rightarrow> u32" where
  "result_of r = (if rc r = -1 then neg (err r) else word_of_int (rc r))"

definition ret_call :: "'h env \<Rightarrow> string \<Rightarrow> harg list \<Rightarrow> 'h ctx \<Rightarrow> u32 \<times> 'h ctx" where
  "ret_call E nm as c = (let (r, c') = hcall E nm as c in (result_of r, c'))"

section \<open>Guest memory\<close>

definition read_guest :: "nat \<Rightarrow> u32 \<Rightarrow> 'h ctx \<Rightarrow> u8 list option" where
  "read_guest n addr c = map_option (\<lambda>p. load_bytes p n (cmem c)) (host_ptr addr (of_nat n) kPageRead (cmem c))"

definition write_guest :: "u32 \<Rightarrow> u8 list \<Rightarrow> 'h ctx \<Rightarrow> bool \<times> 'h ctx" where
  "write_guest addr bs c =
     (case host_ptr addr (of_nat (length bs)) kPageWrite (cmem c) of
        None \<Rightarrow> (False, c)
      | Some p \<Rightarrow> (True, set_mem (store_bytes p bs (cmem c)) c))"

text \<open>\<open>return write_guest(...) ? ok : -EFAULT\<close>\<close>

definition ret_write :: "u32 \<Rightarrow> u8 list \<Rightarrow> u32 \<Rightarrow> 'h ctx \<Rightarrow> u32 \<times> 'h ctx" where
  "ret_write addr bs ok c = (case write_guest addr bs c of (b, c') \<Rightarrow> (if b then ok else neg EFAULT, c'))"

text \<open>\<open>if (addr != 0 && !write_guest(...)) return -EFAULT; return ok\<close>\<close>

definition ret_write_opt :: "u32 \<Rightarrow> u8 list \<Rightarrow> u32 \<Rightarrow> 'h ctx \<Rightarrow> u32 \<times> 'h ctx" where
  "ret_write_opt addr bs ok c = (if addr = 0 then (ok, c) else ret_write addr bs ok c)"

function scan_page :: "guest_memory \<Rightarrow> nat \<Rightarrow> nat \<Rightarrow> nat option" where
  "scan_page m a e = (if a < e then if bytes m a = 0 then Some a else scan_page m (a + 1) e else None)"
  by pat_completeness auto
termination
  by (relation "measure (\<lambda>(m, a, e). e - a)") auto

declare scan_page.simps [simp del]

lemma page_end_exact:
  "a < 4294967296 \<Longrightarrow> unat (page_round_up (of_nat (a + 1))) = (a div 4096 + 1) * 4096"
  by (subst page_round_up_no_wrap)
    (simp_all add: unat_eq_of_nat div_add_self1 del: of_nat_add of_nat_Suc add_mult_distrib)

text \<open>The outer loop of \<open>guest_cstr\<close>, at position \<open>a\<close>; the result is the position of the NUL.\<close>

function cstr_loop :: "guest_memory \<Rightarrow> nat \<Rightarrow> nat option" where
  "cstr_loop m a =
     (if a < 4294967296
      then if \<not> accessible (of_nat a) 1 kPageRead m then None
           else let page_end = unat (page_round_up (of_nat (a + 1)))
                in (case scan_page m a page_end of Some z \<Rightarrow> Some z | None \<Rightarrow> cstr_loop m page_end)
      else None)"
  by pat_completeness auto

termination
proof (relation "measure (\<lambda>(m, a). 4294967296 + 4096 - a)", simp)
  fix m a x
  assume a: "a < 4294967296" and x: "x = unat (page_round_up (of_nat (a + 1)))"
  have "a < (a div 4096 + 1) * 4096" using dividend_less_times_div [of 4096 a] by simp
  then show "((m, x), m, a) \<in> measure (\<lambda>(m, a). 4294967296 + 4096 - a)"
    using a unfolding x page_end_exact [OF a] by simp
qed

declare cstr_loop.simps [simp del]

definition guest_cstr :: "u32 \<Rightarrow> 'h ctx \<Rightarrow> string option" where
  "guest_cstr addr c =
     (if addr = 0 then None
      else map_option (\<lambda>z. map (\<lambda>b. char_of (unat b)) (load_bytes (unat addr) (z - unat addr) (cmem c)))
             (cstr_loop (cmem c) (unat addr)))"

section \<open>What a system call may do to the guest\<close>

text \<open>Every byte of the range lies in the guest space, in a mapped page with the flags.\<close>

definition range_has :: "guest_memory \<Rightarrow> nat \<Rightarrow> nat \<Rightarrow> u8 \<Rightarrow> bool" where
  "range_has m p n need \<longleftrightarrow>
     (\<forall>i. p \<le> i \<and> i < p + n \<longrightarrow> i < 4294967296 \<and> pages m (i div 4096) AND (need OR kPageMapped) = need OR kPageMapped)"

fun arg_ok :: "guest_memory \<Rightarrow> harg \<Rightarrow> bool" where
  "arg_ok m (ARead p n) \<longleftrightarrow> range_has m p n kPageRead"
| "arg_ok m (AWrite p n) \<longleftrightarrow> range_has m p n kPageWrite"
| "arg_ok m (AReadWrite p n) \<longleftrightarrow> range_has m p n (kPageRead OR kPageWrite)"
| "arg_ok m (ARange p n) \<longleftrightarrow> range_has m p n 0"
| "arg_ok m _ \<longleftrightarrow> True"

definition mem_confined :: "guest_memory \<Rightarrow> guest_memory \<Rightarrow> bool" where
  "mem_confined m m' \<longleftrightarrow> pages m' = pages m \<and> hprot m' = hprot m \<and>
     (\<forall>i. bytes m' i \<noteq> bytes m i \<longrightarrow> range_has m i 1 kPageWrite)"

text \<open>The calling thread keeps its registers (the dispatcher alone sets the result), and a signal mask
  that does not block \<open>SIGKILL\<close> and \<open>SIGSTOP\<close> still does not.\<close>

definition thread_ok :: "guest_thread \<Rightarrow> guest_thread \<Rightarrow> bool" where
  "thread_ok t t' \<longleftrightarrow> regs t' = regs t \<and> (sigmask t AND kUnblockable = 0 \<longrightarrow> sigmask t' AND kUnblockable = 0)"

lemma thread_ok_refl [simp]: "thread_ok t t"
  by (simp add: thread_ok_def)

text \<open>The memory stays confined, the calling thread is kept and every host call added was given only
  ranges with the right permissions.\<close>

definition sys_ok :: "'h ctx \<Rightarrow> 'h ctx \<Rightarrow> bool" where
  "sys_ok c c' \<longleftrightarrow> mem_confined (cmem c) (cmem c') \<and> thr c' = thr c \<and> thread_ok (cthread c) (cthread c') \<and>
     (\<exists>new. hcalls c' = hcalls c @ new \<and> list_all (\<lambda>(nm, as). list_all (arg_ok (cmem c)) as) new)"

lemma range_has_pages: "pages m' = pages m \<Longrightarrow> range_has m' p n need = range_has m p n need"
  by (simp add: range_has_def)

lemma arg_ok_pages: "pages m' = pages m \<Longrightarrow> arg_ok m' a = arg_ok m a"
  by (cases a) (simp_all add: range_has_def)

lemma args_ok_pages: "pages m' = pages m \<Longrightarrow> list_all (arg_ok m') as = list_all (arg_ok m) as"
  by (induction as) (simp_all add: arg_ok_pages [of m' m])

lemma range_has_zero [simp]: "range_has m p 0 need"
  unfolding range_has_def by (metis add_0_right not_le)

lemma and_or_weaken:
  assumes "(x :: u8) AND (a OR b OR k) = a OR b OR k"
  shows "x AND (b OR k) = b OR k"
proof (rule bit_word_eqI)
  fix n
  from assms have "bit (x AND (a OR b OR k)) n \<longleftrightarrow> bit (a OR b OR k) n" by simp
  then show "bit (x AND (b OR k)) n \<longleftrightarrow> bit (b OR k) n" by (auto simp: bit_simps)
qed

lemma range_has_weaken: "range_has m p n (a OR b) \<Longrightarrow> range_has m p n b"
  using and_or_weaken by (fastforce simp: range_has_def or.assoc)

lemma range_has_sub: "range_has m p n need \<Longrightarrow> p \<le> q \<Longrightarrow> q + k \<le> p + n \<Longrightarrow> range_has m q k need"
  by (simp add: range_has_def)

lemma range_has_one:
  "range_has m i 1 need \<longleftrightarrow> i < 4294967296 \<and> pages m (i div 4096) AND (need OR kPageMapped) = need OR kPageMapped"
proof -
  have "k = i" if "i \<le> k" "k < i + 1" for k using that by simp
  then show ?thesis unfolding range_has_def by (metis le_refl less_add_one)
qed

lemma touches_byte:
  assumes "unat addr \<le> i" "i < unat addr + unat len"
  shows "touches addr len (i div 4096)"
proof -
  have "unat addr div 4096 \<le> i div 4096" using assms(1) by (rule div_le_mono)
  moreover have "i div 4096 \<le> (unat addr + unat len - 1) div 4096" using assms(2) by (intro div_le_mono) simp
  ultimately show ?thesis using assms by (simp add: touches_def)
qed

lemma accessible_has:
  assumes "accessible addr len need m" "unat len < 2 ^ 63"
  shows "range_has m (unat addr) (unat len) need"
proof (cases "len = 0")
  case False
  have "unat addr + unat len < 18446744073709551616" using assms(2) unat_less_u32 [of addr] by simp
  with accessible_iff [OF this, of need m] assms(1) False touches_byte [of addr _ len]
  show ?thesis by (auto simp: range_has_def)
qed simp

lemma host_ptr_has:
  "host_ptr addr len need m = Some p \<Longrightarrow> unat len < 2 ^ 63 \<Longrightarrow> range_has m p (unat len) need"
  by (auto simp: host_ptr_def accessible_has split: if_splits)

lemma unat_ucast_u32 [simp]: "unat (ucast (x :: u32) :: u64) = unat x"
  by (simp add: word_nat)

lemma unat_u32_small [simp]: "unat (x :: u32) < 9223372036854775808"
  using unat_less_u32 [of x] by simp

text \<open>The forms in which handlers use it: lengths that are 32-bit words, lengths of byte lists.\<close>

lemma host_ptr_has32:
  "host_ptr addr (ucast (x :: u32)) need m = Some p \<Longrightarrow> range_has m p (unat x) need"
  using host_ptr_has [of addr "ucast x" need m p] by simp

lemma store_confined:
  assumes "range_has m p (length bs) kPageWrite" shows "mem_confined m (store_bytes p bs m)"
  using assms by (auto simp: mem_confined_def range_has_def store_bytes_def)

lemma mem_confined_refl [simp]: "mem_confined m m"
  by (simp add: mem_confined_def)

lemma mem_confined_trans: "mem_confined m m1 \<Longrightarrow> mem_confined m1 m2 \<Longrightarrow> mem_confined m m2"
  unfolding mem_confined_def using range_has_pages by metis

lemma kernel_writes_confined:
  "list_all (arg_ok m) as \<Longrightarrow> mem_confined m (kernel_writes as bs m)"
proof (induction as bs m rule: kernel_writes.induct)
  case (1 p n as b bs m)
  then have "mem_confined m (store_bytes p (take n b) m)"
    by (intro store_confined) (auto intro: range_has_sub)
  moreover from this have "list_all (arg_ok (store_bytes p (take n b) m)) as"
    using 1(2) args_ok_pages [of "store_bytes p (take n b) m" m] by simp
  ultimately show ?case using 1 mem_confined_trans by fastforce
next
  case (2 p n as b bs m)
  then have "mem_confined m (store_bytes p (take n b) m)"
    by (intro store_confined) (auto intro: range_has_sub range_has_weaken)
  moreover from this have "list_all (arg_ok (store_bytes p (take n b) m)) as"
    using 2(2) args_ok_pages [of "store_bytes p (take n b) m" m] by simp
  ultimately show ?case using 2 mem_confined_trans by fastforce
qed simp_all

subsection \<open>Rules\<close>

named_theorems sys_okI \<open>introduction rules for \<open>sys_ok\<close>, one per construct of a handler\<close>

lemma set_mem_sel [simp]:
  "cmem (set_mem m c) = m" "hcalls (set_mem m c) = hcalls c" "args (set_mem m c) = args c"
  "thr (set_mem m c) = thr c" "hst (set_mem m c) = hst c" "theap (proc (set_mem m c)) = theap (proc c)"
  by (simp_all add: set_mem_def)

lemma set_thread_sel [simp]:
  "cmem (set_thread f c) = cmem c" "hcalls (set_thread f c) = hcalls c" "args (set_thread f c) = args c"
  "thr (set_thread f c) = thr c" "cthread (set_thread f c) = f (cthread c)"
  by (simp_all add: set_thread_def upd_thread_def)

lemma hcall_sel:
  assumes "hcall E nm as c = (r, c')"
  shows "args c' = args c" "thr c' = thr c" "hcalls c' = hcalls c @ [(nm, as)]"
    "cmem c' = kernel_writes as (wrote r) (cmem c)" "theap (proc c') = theap (proc c)"
  using assms by (auto simp: hcall_def Let_def split: prod.splits)

lemma pages_kernel_writes [simp]: "pages (kernel_writes as bs m) = pages m"
  by (induction as bs m rule: kernel_writes.induct) simp_all

lemma sys_ok_refl [sys_okI]: "sys_ok c c"
  by (simp add: sys_ok_def)

lemma sys_ok_same:
  "cmem c' = cmem c \<Longrightarrow> hcalls c' = hcalls c \<Longrightarrow> thr c' = thr c \<Longrightarrow> thread_ok (cthread c) (cthread c') \<Longrightarrow> sys_ok c c'"
  by (simp add: sys_ok_def)

lemma sys_ok_trans:
  assumes "sys_ok c c1" "sys_ok c1 c2" shows "sys_ok c c2"
proof -
  obtain n1 n2 where n: "hcalls c1 = hcalls c @ n1" "hcalls c2 = hcalls c1 @ n2"
    "list_all (\<lambda>(nm, as). list_all (arg_ok (cmem c)) as) n1" "list_all (\<lambda>(nm, as). list_all (arg_ok (cmem c1)) as) n2"
    using assms by (auto simp: sys_ok_def)
  have "pages (cmem c1) = pages (cmem c)" using assms(1) by (simp add: sys_ok_def mem_confined_def)
  then have "list_all (\<lambda>(nm, as). list_all (arg_ok (cmem c)) as) n2"
    using n(4) args_ok_pages [of "cmem c1" "cmem c"] by (simp add: case_prod_beta)
  then have "list_all (\<lambda>(nm, as). list_all (arg_ok (cmem c)) as) (n1 @ n2)" using n(3) by simp
  moreover have "mem_confined (cmem c) (cmem c2)"
    using assms mem_confined_trans by (auto simp: sys_ok_def)
  moreover have "thr c2 = thr c" "thread_ok (cthread c) (cthread c2)"
    using assms unfolding sys_ok_def thread_ok_def by auto
  ultimately show ?thesis using n(1,2) by (auto simp: sys_ok_def)
qed

lemma sys_ok_hcall:
  "list_all (arg_ok (cmem c)) as \<Longrightarrow> hcall E nm as c = (r, c') \<Longrightarrow> sys_ok c c'"
  using kernel_writes_confined by (auto simp: sys_ok_def hcall_sel)

lemma sys_ok_case_hcall [sys_okI]:
  assumes "list_all (arg_ok (cmem c)) as"
    and "\<And>r c1. args c1 = args c \<Longrightarrow> pages (cmem c1) = pages (cmem c) \<Longrightarrow> sys_ok c1 (snd (body r c1))"
  shows "sys_ok c (snd (case hcall E nm as c of (r, c1) \<Rightarrow> body r c1))"
proof -
  obtain r c1 where h: "hcall E nm as c = (r, c1)" by fastforce
  have "sys_ok c1 (snd (body r c1))" using assms(2) hcall_sel [OF h] by simp
  then show ?thesis using sys_ok_hcall [OF assms(1) h] sys_ok_trans h by simp
qed

lemma sys_ok_ret_call [sys_okI]:
  "list_all (arg_ok (cmem c)) as \<Longrightarrow> sys_ok c (snd (ret_call E nm as c))"
  by (auto simp: ret_call_def Let_def intro: sys_ok_hcall split: prod.splits)

lemma sys_ok_store [sys_okI]:
  "range_has (cmem c) p (length bs) kPageWrite \<Longrightarrow> sys_ok c (set_mem (store_bytes p bs (cmem c)) c)"
  by (simp add: sys_ok_def store_confined)

lemma sys_ok_write_guest:
  assumes "length bs < 2 ^ 32" shows "sys_ok c (snd (write_guest addr bs c))"
proof -
  have "unat (of_nat (length bs) :: u64) = length bs" using assms by (simp add: unat_eq_of_nat)
  then show ?thesis using assms host_ptr_has [of addr "of_nat (length bs)" kPageWrite "cmem c"]
    by (auto simp: write_guest_def intro!: sys_ok_store sys_ok_refl split: option.splits)
qed

lemma sys_ok_case_write [sys_okI]:
  assumes "length bs < 2 ^ 32"
    and "\<And>b c1. args c1 = args c \<Longrightarrow> pages (cmem c1) = pages (cmem c) \<Longrightarrow> sys_ok c1 (snd (body b c1))"
  shows "sys_ok c (snd (case write_guest addr bs c of (b, c1) \<Rightarrow> body b c1))"
proof -
  obtain b c1 where w: "write_guest addr bs c = (b, c1)" by fastforce
  then have "args c1 = args c" "pages (cmem c1) = pages (cmem c)"
    by (auto simp: write_guest_def split: option.splits)
  then show ?thesis using sys_ok_write_guest [OF assms(1), of c addr] assms(2) w sys_ok_trans by fastforce
qed

lemma sys_ok_ret_write [sys_okI]: "length bs < 2 ^ 32 \<Longrightarrow> sys_ok c (snd (ret_write addr bs ok c))"
  unfolding ret_write_def by (rule sys_ok_case_write) (auto intro: sys_ok_refl)

lemma sys_ok_ret_write_opt [sys_okI]: "length bs < 2 ^ 32 \<Longrightarrow> sys_ok c (snd (ret_write_opt addr bs ok c))"
  by (simp add: ret_write_opt_def sys_ok_ret_write sys_ok_refl)

lemma sys_ok_pair [sys_okI]: "sys_ok c c' \<Longrightarrow> sys_ok c (snd (x, c'))"
  by simp

lemma sys_ok_store_pair [sys_okI]:
  "range_has (cmem c) p (length bs) kPageWrite \<Longrightarrow> sys_ok c (snd (x, set_mem (store_bytes p bs (cmem c)) c))"
  by (simp add: sys_ok_store)

lemma sys_ok_set_thread [sys_okI]: "thread_ok (cthread c) (f (cthread c)) \<Longrightarrow> sys_ok c (set_thread f c)"
  by (rule sys_ok_same) (simp_all add: set_thread_def upd_thread_def)

lemma sys_ok_if [sys_okI]:
  "(b \<Longrightarrow> sys_ok c (snd x)) \<Longrightarrow> (\<not> b \<Longrightarrow> sys_ok c (snd y)) \<Longrightarrow> sys_ok c (snd (if b then x else y))"
  by simp

lemma sys_ok_option [sys_okI]:
  "(v = None \<Longrightarrow> sys_ok c (snd x)) \<Longrightarrow> (\<And>p. v = Some p \<Longrightarrow> sys_ok c (snd (f p))) \<Longrightarrow>
   sys_ok c (snd (case v of None \<Rightarrow> x | Some p \<Rightarrow> f p))"
  by (cases v) simp_all

lemma sys_ok_case_pair:
  assumes "sys_ok c (snd v)" "\<And>x c1. v = (x, c1) \<Longrightarrow> sys_ok c1 (snd (body x c1))"
  shows "sys_ok c (snd (case v of (x, c1) \<Rightarrow> body x c1))"
proof -
  obtain x c1 where v: "v = (x, c1)" by fastforce
  then show ?thesis using assms sys_ok_trans by fastforce
qed

text \<open>\<open>Process::first_time\<close>: the key is noted; the message it guards is not modelled.\<close>

definition note_seen :: "u64 \<Rightarrow> 'h ctx \<Rightarrow> 'h ctx" where
  "note_seen key c = c\<lparr>proc := snd (first_time key (proc c))\<rparr>"

lemma note_seen_sel [simp]: "theap (proc (note_seen k c)) = theap (proc c)" "thr (note_seen k c) = thr c" "cmem (note_seen k c) = cmem c" "hcalls (note_seen k c) = hcalls c" "args (note_seen k c) = args c"
  by (simp_all add: note_seen_def first_time_def)

lemma sys_ok_note_seen [sys_okI]: "sys_ok c (note_seen k c)"
  by (rule sys_ok_same) simp_all

section \<open>Strings\<close>

lemma scan_page_Some:
  "scan_page m a e = Some z \<Longrightarrow> a \<le> z \<and> z < e \<and> bytes m z = 0 \<and> (\<forall>i. a \<le> i \<and> i < z \<longrightarrow> bytes m i \<noteq> 0)"
proof (induction m a e rule: scan_page.induct)
  case (1 m a e)
  show ?case
  proof (cases "a < e \<and> bytes m a \<noteq> 0")
    case True
    with 1 have "a + 1 \<le> z \<and> z < e \<and> bytes m z = 0 \<and> (\<forall>i. a + 1 \<le> i \<and> i < z \<longrightarrow> bytes m i \<noteq> 0)"
      by (simp add: scan_page.simps [of m a])
    with True show ?thesis by (metis Suc_eq_plus1 Suc_leI add_leD1 le_neq_implies_less)
  qed (use 1(2) in \<open>auto simp: scan_page.simps [of m a] split: if_splits\<close>)
qed

lemma scan_page_None: "scan_page m a e = None \<Longrightarrow> a \<le> i \<Longrightarrow> i < e \<Longrightarrow> bytes m i \<noteq> 0"
proof (induction m a e rule: scan_page.induct)
  case (1 m a e)
  then show ?case by (cases "i = a") (auto simp: scan_page.simps [of m a] split: if_splits)
qed

lemma same_page_has:
  assumes "accessible (of_nat a) 1 need m" "a < 4294967296" "a \<le> i" "i < (a div 4096 + 1) * 4096"
  shows "range_has m i 1 need"
proof -
  have "unat (of_nat a :: u32) = a" using assms(2) by (simp add: unat_eq_of_nat)
  then have "range_has m a 1 need" using accessible_has [OF assms(1)] by simp
  moreover have "i div 4096 = a div 4096"
    using assms(3,4) div_le_mono [OF assms(3), of 4096] less_mult_imp_div_less [OF assms(4)] by simp
  moreover have "i < 4294967296"
  proof -
    have "a div 4096 < 1048576" using assms(2) by (simp add: div_less_iff_less_mult)
    then have "(a div 4096 + 1) * 4096 \<le> 1048576 * 4096" by (intro mult_le_mono1) simp
    then show ?thesis using assms(4) by simp
  qed
  ultimately show ?thesis by (simp only: range_has_one)
qed

lemma cstr_loop_Some:
  "cstr_loop m a = Some z \<Longrightarrow> a \<le> z \<and> bytes m z = 0 \<and>
     (\<forall>i. a \<le> i \<and> i < z \<longrightarrow> bytes m i \<noteq> 0) \<and> (\<forall>i. a \<le> i \<and> i \<le> z \<longrightarrow> range_has m i 1 kPageRead)"
proof (induction m a rule: cstr_loop.induct)
  case (1 m a)
  let ?e = "4096 + a div 4096 * 4096"
  have c: "a < 4294967296" "accessible (of_nat a) 1 kPageRead m"
    using 1(2) by (auto simp: cstr_loop.simps [of m a] split: if_splits)
  have e: "unat (page_round_up (of_nat (a + 1))) = ?e" using page_end_exact [OF c(1)] by simp
  have s: "(case scan_page m a ?e of Some z \<Rightarrow> Some z | None \<Rightarrow> cstr_loop m ?e) = Some z"
    using 1(2) c unfolding cstr_loop.simps [of m a] e by (simp add: Let_def)
  have ae: "a < ?e" using dividend_less_times_div [of 4096 a] by simp
  have page: "a \<le> i \<Longrightarrow> i < ?e \<Longrightarrow> range_has m i 1 kPageRead" for i
    using same_page_has [OF c(2) c(1)] by simp
  show ?case
  proof (cases "scan_page m a ?e")
    case None
    then have "cstr_loop m ?e = Some z" using s by simp
    from 1(1) [OF c(1) _ refl] c(2) None this have
      ih: "?e \<le> z" "bytes m z = 0" "\<And>i. ?e \<le> i \<Longrightarrow> i < z \<Longrightarrow> bytes m i \<noteq> 0"
        "\<And>i. ?e \<le> i \<Longrightarrow> i \<le> z \<Longrightarrow> range_has m i 1 kPageRead"
      unfolding e by auto
    have "bytes m i \<noteq> 0" if "a \<le> i" "i < z" for i
      using that ih(3) scan_page_None [OF None] by (cases "i < ?e") auto
    moreover have "range_has m i 1 kPageRead" if "a \<le> i" "i \<le> z" for i
      using that ih(4) page by (cases "i < ?e") auto
    ultimately show ?thesis using ih(1,2) ae by auto
  next
    case (Some z')
    then show ?thesis using s scan_page_Some [OF Some] page by auto
  qed
qed

lemma guest_cstr_has:
  assumes "guest_cstr addr c = Some s"
  shows "range_has (cmem c) (unat addr) (length s + 1) kPageRead"
proof -
  obtain z where z: "cstr_loop (cmem c) (unat addr) = Some z" "length s = z - unat addr"
    using assms by (auto simp: guest_cstr_def split: if_splits)
  from cstr_loop_Some [OF z(1)] have "\<forall>i. unat addr \<le> i \<and> i \<le> z \<longrightarrow> range_has (cmem c) i 1 kPageRead" "unat addr \<le> z"
    by auto
  then show ?thesis using z(2) by (simp add: range_has_def less_Suc_eq_le)
qed

end
