(* ===== verification/Elf_Files.thy ===== *)
theory Elf_Files
  imports Guest_Abi
begin

text \<open>
  ELF32 files as byte lists: the headers the sources read with \<open>memcpy\<close>, the import-time fixups of
  guest libraries and the text relocation marker (\<open>core/src/elf_fixups.cpp\<close>).

  A file is its content.  Opening, \<open>fstat\<close>, reading and writing are the host's; what the code
  computes from the content is modelled, and the success of each write is an argument.
\<close>

section \<open>Structures\<close>

record elf32_ehdr =
  e_ident :: "u8 list"
  e_type :: u16
  e_machine :: u16
  e_version :: u32
  e_entry :: u32
  e_phoff :: u32
  e_ehsize :: u16
  e_phentsize :: u16
  e_phnum :: u16

record elf32_phdr =
  p_type :: u32
  p_offset :: u32
  p_vaddr :: u32
  p_filesz :: u32
  p_memsz :: u32
  p_flags :: u32
  p_align :: u32

record elf32_dyn =
  d_tag :: u32
  d_val :: u32

definition ehdr_of :: "u8 list \<Rightarrow> elf32_ehdr" where
  "ehdr_of b = \<lparr>e_ident = take 16 b, e_type = of_le16 (drop 16 b), e_machine = of_le16 (drop 18 b),
     e_version = of_le32 (drop 20 b), e_entry = of_le32 (drop 24 b), e_phoff = of_le32 (drop 28 b),
     e_ehsize = of_le16 (drop 40 b), e_phentsize = of_le16 (drop 42 b), e_phnum = of_le16 (drop 44 b)\<rparr>"

definition phdr_of :: "u8 list \<Rightarrow> elf32_phdr" where
  "phdr_of b = \<lparr>p_type = of_le32 b, p_offset = of_le32 (drop 4 b), p_vaddr = of_le32 (drop 8 b),
     p_filesz = of_le32 (drop 16 b), p_memsz = of_le32 (drop 20 b), p_flags = of_le32 (drop 24 b),
     p_align = of_le32 (drop 28 b)\<rparr>"

definition dyn_of :: "u8 list \<Rightarrow> elf32_dyn" where
  "dyn_of b = \<lparr>d_tag = of_le32 b, d_val = of_le32 (drop 4 b)\<rparr>"

definition dyn_bytes :: "elf32_dyn \<Rightarrow> u8 list" where
  "dyn_bytes d = le32 (d_tag d) @ le32 (d_val d)"

definition PT_LOAD :: u32 where "PT_LOAD = 1"
definition PT_DYNAMIC :: u32 where "PT_DYNAMIC = 2"
definition PT_INTERP :: u32 where "PT_INTERP = 3"
definition PT_PHDR :: u32 where "PT_PHDR = 6"
definition EM_ARM :: u16 where "EM_ARM = 40"
definition DT_NULL :: u32 where "DT_NULL = 0"
definition DT_NEEDED :: u32 where "DT_NEEDED = 1"
definition DT_STRTAB :: u32 where "DT_STRTAB = 5"
definition DT_STRSZ :: u32 where "DT_STRSZ = 10"
definition DT_TEXTREL :: u32 where "DT_TEXTREL = 22"
definition DT_FLAGS :: u32 where "DT_FLAGS = 30"
definition DF_TEXTREL :: u32 where "DF_TEXTREL = 4"
definition kDtZbTextrel :: u32 where "kDtZbTextrel = 0x60005A42"
definition kMaxDynamicSize :: u32 where "kMaxDynamicSize = 64 * 1024"
definition kMaxFileSize :: nat where "kMaxFileSize = 512 * 1024 * 1024"
definition ELFMAG :: "u8 list" where "ELFMAG = [0x7f, 0x45, 0x4c, 0x46]"

section \<open>Reading\<close>

definition read_exact :: "u8 list \<Rightarrow> nat \<Rightarrow> nat \<Rightarrow> u8 list option" where
  "read_exact f len off =
     (if len = 0 then Some [] else if off + len \<le> length f then Some (take len (drop off f)) else None)"

definition range_fits :: "nat \<Rightarrow> nat \<Rightarrow> nat \<Rightarrow> bool" where
  "range_fits off sz file_size \<longleftrightarrow> off \<le> file_size \<and> sz \<le> file_size - off"

text \<open>\<open>read_object\<close> and \<open>write_object\<close> on the vector of the file's bytes.\<close>

definition read_object :: "u8 list \<Rightarrow> nat \<Rightarrow> nat \<Rightarrow> u8 list" where
  "read_object f off n = take n (drop off f)"

definition write_object :: "u8 list \<Rightarrow> nat \<Rightarrow> u8 list \<Rightarrow> u8 list" where
  "write_object f off b = take off f @ b @ drop (off + length b) f"

definition read_dyn :: "u8 list \<Rightarrow> nat \<Rightarrow> nat \<Rightarrow> elf32_dyn" where
  "read_dyn f off i = dyn_of (read_object f (off + i * 8) 8)"

definition phdr_table :: "u8 list \<Rightarrow> nat \<Rightarrow> nat \<Rightarrow> elf32_phdr list" where
  "phdr_table f off n = map (\<lambda>i. phdr_of (read_object f (off + i * 32) 32)) [0..<n]"

section \<open>The text relocation marker\<close>

text \<open>The loop over the entries up to the terminator.\<close>

fun dyn_has_marker :: "elf32_dyn list \<Rightarrow> bool" where
  "dyn_has_marker [] = False"
| "dyn_has_marker (d # ds) =
     (if d_tag d = DT_NULL then False
      else if d_tag d = kDtZbTextrel \<and> d_val d = 1 then True else dyn_has_marker ds)"

fun marker_in_phdrs :: "u8 list \<Rightarrow> elf32_phdr list \<Rightarrow> bool" where
  "marker_in_phdrs f [] = False"
| "marker_in_phdrs f (p # ps) =
     (if p_type p \<noteq> PT_DYNAMIC \<or> p_filesz p > kMaxDynamicSize \<or> p_filesz p mod 8 \<noteq> 0 \<or>
         \<not> range_fits (unat (p_offset p)) (unat (p_filesz p)) (length f)
      then marker_in_phdrs f ps
      else if dyn_has_marker (map (read_dyn f (unat (p_offset p))) [0..<unat (p_filesz p) div 8]) then True
      else marker_in_phdrs f ps)"

text \<open>\<open>None\<close>: \<open>fstat\<close> failed or the descriptor is no regular file.\<close>

definition elf_has_textrel_marker :: "u8 list option \<Rightarrow> bool" where
  "elf_has_textrel_marker file =
     (case file of
        None \<Rightarrow> False
      | Some f \<Rightarrow>
          (case read_exact f 52 0 of
             None \<Rightarrow> False
           | Some b \<Rightarrow>
               (let eh = ehdr_of b
                in if take 4 (e_ident eh) \<noteq> ELFMAG \<or> e_ident eh ! 4 \<noteq> 1 \<or> e_ident eh ! 5 \<noteq> 1 \<or> e_machine eh \<noteq> EM_ARM \<or>
                      e_phentsize eh \<noteq> 32 \<or> e_phnum eh = 0 \<or> e_phnum eh > 64 \<or>
                      \<not> range_fits (unat (e_phoff eh)) (unat (e_phnum eh) * 32) (length f)
                   then False
                   else marker_in_phdrs f (phdr_table f (unat (e_phoff eh)) (unat (e_phnum eh))))))"

section \<open>Fixups of guest libraries\<close>

datatype fix_error = OpenFailed | StatFailed | SizeUnsupported | ReadFailed | TruncatedHeader | InvalidHeader | TruncatedPhdrs
  | LoadExceedsFile | MultipleDynamic | InvalidDynamic | UnterminatedDynamic | StrtabNotBacked | StrszExceeds
  | NeededOutsideStrtab | NeededOutsideFile | NeededUnterminated | NeededNoBasename | NeededOverflow | NoSpareSlot
  | WriteFailed | FsyncFailed

datatype fix_skip = NotElf | NotElf32 | NotArm | NoDynamic

datatype fix_report = Unchanged | Changed "nat list" bool | Skipped fix_skip | FixError fix_error

fun vaddr_to_offset :: "elf32_phdr list \<Rightarrow> u32 \<Rightarrow> nat \<Rightarrow> (nat \<times> nat) option" where
  "vaddr_to_offset [] address file_size = None"
| "vaddr_to_offset (l # ls) address file_size =
     (let begn = unat (p_vaddr l); en = begn + unat (p_filesz l)
      in if unat address < begn \<or> unat address \<ge> en then vaddr_to_offset ls address file_size
         else let res = unat (p_offset l) + (unat address - begn)
              in if range_fits res 1 file_size then Some (res, en - unat address) else None)"

text \<open>The loop over the program headers: the loads and the dynamic segment (offset and slots).\<close>

fun scan_phdrs :: "nat \<Rightarrow> elf32_phdr list \<Rightarrow> elf32_phdr list \<Rightarrow> (nat \<times> nat) option \<Rightarrow> fix_error + elf32_phdr list \<times> (nat \<times> nat) option" where
  "scan_phdrs file_size [] lds dyn = Inr (lds, dyn)"
| "scan_phdrs file_size (p # ps) lds dyn =
     (if p_type p = PT_LOAD then
        if \<not> range_fits (unat (p_offset p)) (unat (p_filesz p)) file_size then Inl LoadExceedsFile
        else scan_phdrs file_size ps (lds @ [p]) dyn
      else if p_type p = PT_DYNAMIC then
        if dyn \<noteq> None then Inl MultipleDynamic
        else if p_filesz p = 0 \<or> p_filesz p > kMaxDynamicSize \<or> p_filesz p mod 8 \<noteq> 0 \<or>
                \<not> range_fits (unat (p_offset p)) (unat (p_filesz p)) file_size then Inl InvalidDynamic
        else scan_phdrs file_size ps lds (Some (unat (p_offset p), unat (p_filesz p) div 8))
      else scan_phdrs file_size ps lds dyn)"

text \<open>The index of the terminator among the slots from \<open>i\<close> on.\<close>

definition find_terminator :: "u8 list \<Rightarrow> nat \<Rightarrow> nat \<Rightarrow> nat option" where
  "find_terminator f off slots = find (\<lambda>i. d_tag (read_dyn f off i) = DT_NULL) [0..<slots]"

definition has_needed :: "elf32_dyn list \<Rightarrow> bool" where
  "has_needed ds \<longleftrightarrow> list_ex (\<lambda>d. d_tag d = DT_NEEDED) ds"

text \<open>The last entry with a tag wins, as the loop overwrites.\<close>

definition last_with :: "u32 \<Rightarrow> elf32_dyn list \<Rightarrow> u32 option" where
  "last_with tag ds = map_option d_val (find (\<lambda>d. d_tag d = tag) (rev ds))"

definition locate_strtab :: "elf32_phdr list \<Rightarrow> elf32_dyn list \<Rightarrow> nat \<Rightarrow> fix_error + nat \<times> nat" where
  "locate_strtab lds ds file_size =
     (if \<not> has_needed ds then Inr (0, 0)
      else case last_with DT_STRTAB ds of
          None \<Rightarrow> Inl StrtabNotBacked
        | Some a \<Rightarrow>
            (case vaddr_to_offset lds a file_size of
               None \<Rightarrow> Inl StrtabNotBacked
             | Some (off, sz) \<Rightarrow>
                 (case last_with DT_STRSZ ds of
                    None \<Rightarrow> Inr (off, sz)
                  | Some n \<Rightarrow> if n = 0 \<or> unat n > sz then Inl StrszExceeds else Inr (off, unat n))))"

text \<open>The string at an index of the table; the search for the NUL ends at the table's end.\<close>

definition needed_name :: "u8 list \<Rightarrow> nat \<Rightarrow> nat \<Rightarrow> u32 \<Rightarrow> fix_error + u8 list" where
  "needed_name f so ss ix =
     (if unat ix \<ge> ss then Inl NeededOutsideStrtab
      else if \<not> range_fits (so + unat ix) 1 (length f) then Inl NeededOutsideFile
      else let body = take (ss - unat ix) (drop (so + unat ix) f);
               nm = takeWhile (\<lambda>b. b \<noteq> 0) body
           in if length nm = length body then Inl NeededUnterminated else Inr nm)"

text \<open>\<open>find_last_of\<close> a slash or a backslash.\<close>

definition last_separator :: "u8 list \<Rightarrow> nat option" where
  "last_separator nm = find (\<lambda>i. nm ! i = 0x2f \<or> nm ! i = 0x5c) (rev [0..<length nm])"

definition bad_basename :: "u8 list \<Rightarrow> bool" where
  "bad_basename b \<longleftrightarrow> b = [] \<or> b = [0x2e] \<or> b = [0x2e, 0x2e]"

text \<open>What the loop does to one entry: nothing, a new entry, or an error; and whether it is a text
  relocation, a marker.\<close>

definition fix_needed :: "u8 list \<Rightarrow> nat \<Rightarrow> nat \<Rightarrow> elf32_dyn \<Rightarrow> fix_error + elf32_dyn option" where
  "fix_needed f so ss d =
     (case needed_name f so ss (d_val d) of
        Inl e \<Rightarrow> Inl e
      | Inr nm \<Rightarrow>
          (case last_separator nm of
             None \<Rightarrow> Inr None
           | Some ct \<Rightarrow>
               if bad_basename (drop (ct + 1) nm) then Inl NeededNoBasename
               else if unat (d_val d) + ct + 1 > 0xFFFFFFFF then Inl NeededOverflow
               else Inr (Some (d\<lparr>d_val := of_nat (unat (d_val d) + ct + 1)\<rparr>))))"

record fix_state =
  fx_bytes :: "u8 list"
  fx_changed :: "nat list"
  fx_textrel :: bool
  fx_marker :: bool

definition put_dyn :: "nat \<Rightarrow> elf32_dyn \<Rightarrow> fix_state \<Rightarrow> fix_state" where
  "put_dyn off d s = s\<lparr>fx_bytes := write_object (fx_bytes s) off (dyn_bytes d), fx_changed := fx_changed s @ [off]\<rparr>"

definition fix_entry :: "nat \<Rightarrow> nat \<Rightarrow> nat \<Rightarrow> fix_state \<Rightarrow> fix_error + fix_state" where
  "fix_entry so ss off s =
     (let d = dyn_of (read_object (fx_bytes s) off 8)
      in if d_tag d = DT_NEEDED then
           (case fix_needed (fx_bytes s) so ss d of
              Inl e \<Rightarrow> Inl e
            | Inr None \<Rightarrow> Inr s
            | Inr (Some d') \<Rightarrow> Inr (put_dyn off d' s))
         else if d_tag d = DT_TEXTREL then
           Inr ((put_dyn off \<lparr>d_tag = kDtZbTextrel, d_val = 1\<rparr> s)\<lparr>fx_textrel := True, fx_marker := True\<rparr>)
         else if d_tag d = DT_FLAGS \<and> d_val d AND DF_TEXTREL \<noteq> 0 then
           Inr ((put_dyn off (d\<lparr>d_val := d_val d AND NOT DF_TEXTREL\<rparr>) s)\<lparr>fx_textrel := True\<rparr>)
         else if d_tag d = kDtZbTextrel then Inr (s\<lparr>fx_marker := True\<rparr>)
         else Inr s)"

fun fix_entries :: "nat \<Rightarrow> nat \<Rightarrow> nat \<Rightarrow> nat list \<Rightarrow> fix_state \<Rightarrow> fix_error + fix_state" where
  "fix_entries so ss doff [] s = Inr s"
| "fix_entries so ss doff (i # is) s =
     (case fix_entry so ss (doff + i * 8) s of Inl e \<Rightarrow> Inl e | Inr s' \<Rightarrow> fix_entries so ss doff is s')"

text \<open>The marker in the terminator's slot when a flag was cleared and no marker exists yet.\<close>

definition add_marker :: "nat \<Rightarrow> nat \<Rightarrow> nat \<Rightarrow> fix_state \<Rightarrow> fix_error + fix_state" where
  "add_marker doff slots term s =
     (if fx_textrel s \<and> \<not> fx_marker s then
        if term + 1 \<ge> slots then Inl NoSpareSlot
        else Inr ((put_dyn (doff + term * 8 + 8) \<lparr>d_tag = DT_NULL, d_val = 0\<rparr>
                    (put_dyn (doff + term * 8) \<lparr>d_tag = kDtZbTextrel, d_val = 1\<rparr> s))\<lparr>fx_marker := True\<rparr>)
      else Inr s)"

definition fix_dynamic :: "u8 list \<Rightarrow> elf32_phdr list \<Rightarrow> nat \<Rightarrow> nat \<Rightarrow> fix_error + fix_state" where
  "fix_dynamic f lds doff slots =
     (case find_terminator f doff slots of
        None \<Rightarrow> Inl UnterminatedDynamic
      | Some term \<Rightarrow>
          (case locate_strtab lds (map (read_dyn f doff) [0..<term]) (length f) of
             Inl e \<Rightarrow> Inl e
           | Inr (so, ss) \<Rightarrow>
               (case fix_entries so ss doff [0..<term] \<lparr>fx_bytes = f, fx_changed = [], fx_textrel = False, fx_marker = False\<rparr> of
                  Inl e \<Rightarrow> Inl e
                | Inr s \<Rightarrow> add_marker doff slots term s)))"

text \<open>The whole validation: the new content and the offsets of the changed entries, or the reason
  not to write.\<close>

definition fix_content :: "u8 list \<Rightarrow> fix_report + fix_state" where
  "fix_content f =
     (if length f < 4 \<or> take 4 f \<noteq> ELFMAG then Inl (Skipped NotElf)
      else if length f < 52 then Inl (FixError TruncatedHeader)
      else let eh = ehdr_of (read_object f 0 52)
           in if e_ident eh ! 4 \<noteq> 1 \<or> e_ident eh ! 5 \<noteq> 1 then Inl (Skipped NotElf32)
              else if e_machine eh \<noteq> EM_ARM then Inl (Skipped NotArm)
              else if e_ident eh ! 6 \<noteq> 1 \<or> e_version eh \<noteq> 1 \<or> e_phentsize eh \<noteq> 32 \<or> e_phnum eh = 0 \<or> e_phnum eh > 1024
              then Inl (FixError InvalidHeader)
              else if \<not> range_fits (unat (e_phoff eh)) (unat (e_phnum eh) * 32) (length f) then Inl (FixError TruncatedPhdrs)
              else case scan_phdrs (length f) (phdr_table f (unat (e_phoff eh)) (unat (e_phnum eh))) [] None of
                  Inl e \<Rightarrow> Inl (FixError e)
                | Inr (lds, None) \<Rightarrow> Inl (Skipped NoDynamic)
                | Inr (lds, Some (doff, slots)) \<Rightarrow>
                    (case fix_dynamic f lds doff slots of Inl e \<Rightarrow> Inl (FixError e) | Inr s \<Rightarrow> Inr s))"

text \<open>The writes of the changed entries, each of which may fail; the file keeps what was written.\<close>

fun write_changes :: "(nat \<Rightarrow> bool) \<Rightarrow> u8 list \<Rightarrow> nat list \<Rightarrow> u8 list \<Rightarrow> bool \<times> u8 list" where
  "write_changes ok new [] f = (True, f)"
| "write_changes ok new (off # offs) f =
     (if ok off then write_changes ok new offs (write_object f off (read_object new off 8)) else (False, f))"

text \<open>\<open>fix_guest_library\<close> of an opened file: \<open>file\<close> is the content of a regular file (\<open>None\<close> otherwise),
  \<open>ok\<close> which writes succeed.\<close>

definition fix_guest_library :: "u8 list option \<Rightarrow> (nat \<Rightarrow> bool) \<Rightarrow> bool \<Rightarrow> fix_report \<times> u8 list option" where
  "fix_guest_library file ok fsync_ok =
     (case file of
        None \<Rightarrow> (FixError SizeUnsupported, None)
      | Some f \<Rightarrow>
          if length f > kMaxFileSize then (FixError SizeUnsupported, Some f)
          else case fix_content f of
              Inl r \<Rightarrow> (r, Some f)
            | Inr s \<Rightarrow>
                if fx_changed s = [] then (Unchanged, Some f)
                else case write_changes ok (fx_bytes s) (fx_changed s) f of
                    (done, f') \<Rightarrow>
                      (if \<not> done then FixError WriteFailed
                       else if \<not> fsync_ok then FixError FsyncFailed
                       else Changed (fx_changed s) (fx_textrel s), Some f'))"

section \<open>Entries of the dynamic table\<close>

lemma length_dyn_bytes [simp]: "length (dyn_bytes d) = 8"
  by (simp add: dyn_bytes_def)

lemma dyn_of_bytes [simp]: "dyn_of (dyn_bytes d) = d"
  by (simp add: dyn_of_def dyn_bytes_def)

lemma length_write_object: "off + length b \<le> length f \<Longrightarrow> length (write_object f off b) = length f"
  by (simp add: write_object_def)

lemma nth_write_object:
  "off + length b \<le> length f \<Longrightarrow> i < length f \<Longrightarrow>
   write_object f off b ! i = (if off \<le> i \<and> i < off + length b then b ! (i - off) else f ! i)"
  by (auto simp: write_object_def nth_append min_def)

lemma read_write_same: "off + length b \<le> length f \<Longrightarrow> read_object (write_object f off b) off (length b) = b"
  by (simp add: read_object_def write_object_def)

lemma read_write_other:
  assumes "off + length b \<le> length f" "o' + n \<le> off \<or> off + length b \<le> o'" "o' + n \<le> length f"
  shows "read_object (write_object f off b) o' n = read_object f o' n"
proof (rule nth_equalityI)
  show "length (read_object (write_object f off b) o' n) = length (read_object f o' n)"
    using assms by (simp add: read_object_def length_write_object)
  fix i assume "i < length (read_object (write_object f off b) o' n)"
  then have "i < n" by (simp add: read_object_def)
  then show "read_object (write_object f off b) o' n ! i = read_object f o' n ! i"
    using assms by (auto simp: read_object_def nth_write_object length_write_object)
qed

lemma slot_disjoint: "i \<noteq> (j :: nat) \<Longrightarrow> doff + j * 8 + 8 \<le> doff + i * 8 \<or> doff + i * 8 + 8 \<le> doff + j * 8"
  by linarith

lemma read_dyn_write:
  assumes "i < slots" "j < slots" "doff + slots * 8 \<le> length f"
  shows "read_dyn (write_object f (doff + i * 8) (dyn_bytes d)) doff j = (if j = i then d else read_dyn f doff j)"
proof -
  have fit: "doff + k * 8 + 8 \<le> length f" if "k < slots" for k using that assms(3) by simp
  show ?thesis
  proof (cases "j = i")
    case True
    then show ?thesis using read_write_same [of "doff + i * 8" "dyn_bytes d" f] fit [OF assms(1)] by (simp add: read_dyn_def)
  next
    case False
    then show ?thesis
      using read_write_other [of "doff + i * 8" "dyn_bytes d" f "doff + j * 8" 8] fit [OF assms(1)] fit [OF assms(2)]
        slot_disjoint [of i j doff] by (simp add: read_dyn_def)
  qed
qed

lemma put_dyn_sel [simp]:
  "fx_bytes (put_dyn off d s) = write_object (fx_bytes s) off (dyn_bytes d)"
  "fx_changed (put_dyn off d s) = fx_changed s @ [off]"
  "fx_textrel (put_dyn off d s) = fx_textrel s" "fx_marker (put_dyn off d s) = fx_marker s"
  by (simp_all add: put_dyn_def)

definition clean :: "elf32_dyn \<Rightarrow> bool" where
  "clean d \<longleftrightarrow> d_tag d \<noteq> DT_NULL \<and> d_tag d \<noteq> DT_TEXTREL \<and> \<not> (d_tag d = DT_FLAGS \<and> d_val d AND DF_TEXTREL \<noteq> 0)"

lemmas dt_defs = DT_NULL_def DT_NEEDED_def DT_TEXTREL_def DT_FLAGS_def kDtZbTextrel_def

text \<open>One entry: the others keep their value, this one becomes clean, the change stays in its slot,
  and a marker reported is a marker present.\<close>

lemma fix_entry_spec:
  assumes "fix_entry so ss (doff + i * 8) s = Inr s'" "i < slots" "doff + slots * 8 \<le> length (fx_bytes s)"
    and "d_tag (read_dyn (fx_bytes s) doff i) \<noteq> DT_NULL"
  defines "d \<equiv> read_dyn (fx_bytes s) doff i" and "d' \<equiv> read_dyn (fx_bytes s') doff i"
  shows "length (fx_bytes s') = length (fx_bytes s)"
    and "j < slots \<Longrightarrow> j \<noteq> i \<Longrightarrow> read_dyn (fx_bytes s') doff j = read_dyn (fx_bytes s) doff j"
    and "clean d'"
    and "k < length (fx_bytes s) \<Longrightarrow> k < doff \<or> doff + slots * 8 \<le> k \<Longrightarrow> fx_bytes s' ! k = fx_bytes s ! k"
    and "fx_marker s' \<longleftrightarrow> fx_marker s \<or> d_tag d' = kDtZbTextrel"
    and "d_tag d' = kDtZbTextrel \<Longrightarrow> d_val d' = (if d_tag d = kDtZbTextrel then d_val d else 1)"
proof -
  have fit: "doff + i * 8 + 8 \<le> length (fx_bytes s)" using assms(2,3) by simp
  have d: "dyn_of (read_object (fx_bytes s) (doff + i * 8) 8) = d" by (simp add: d_def read_dyn_def)
  note w = read_dyn_write [OF assms(2) _ assms(3)]
  consider (same) "fx_bytes s' = fx_bytes s" "clean d" "fx_marker s' \<longleftrightarrow> fx_marker s \<or> d_tag d = kDtZbTextrel"
    | (put) x where "fx_bytes s' = write_object (fx_bytes s) (doff + i * 8) (dyn_bytes x)" "clean x"
        "fx_marker s' \<longleftrightarrow> fx_marker s \<or> d_tag x = kDtZbTextrel" "d_tag x = kDtZbTextrel \<longrightarrow> d_val x = 1 \<and> d_tag d \<noteq> kDtZbTextrel"
  proof (cases "d_tag d = DT_NEEDED")
    case True
    show thesis
    proof (cases "fix_needed (fx_bytes s) so ss d")
      case (Inr r)
      show thesis
      proof (cases r)
        case None
        then show thesis using assms(1) Inr True that(1) by (simp add: fix_entry_def d clean_def dt_defs)
      next
        case (Some x)
        then have "d_tag x = d_tag d" using Inr by (auto simp: fix_needed_def split: sum.splits option.splits if_splits)
        then show thesis using assms(1) Inr True Some that(2) [of x] by (auto simp: fix_entry_def d clean_def dt_defs)
      qed
    qed (use assms(1) True in \<open>simp add: fix_entry_def d\<close>)
  next
    case False
    let ?f = "d_tag d = DT_FLAGS \<and> d_val d AND DF_TEXTREL \<noteq> 0"
    show thesis
    proof (cases "d_tag d = DT_TEXTREL \<or> ?f")
      case True
      then show thesis using assms(1) False that(2) [of "if ?f then d\<lparr>d_val := d_val d AND NOT DF_TEXTREL\<rparr> else \<lparr>d_tag = kDtZbTextrel, d_val = 1\<rparr>"]
        by (auto simp: fix_entry_def d clean_def dt_defs and.assoc)
    next
      case nt: False
      then show thesis using assms(1,4) False that(1) by (auto simp: fix_entry_def d clean_def d_def [symmetric] split: if_splits)
    qed
  qed
  note cases = this
  from cases show "length (fx_bytes s') = length (fx_bytes s)"
    by cases (simp_all add: length_write_object fit)
  from cases show "j < slots \<Longrightarrow> j \<noteq> i \<Longrightarrow> read_dyn (fx_bytes s') doff j = read_dyn (fx_bytes s) doff j"
    by cases (simp_all add: w)
  from cases show "clean d'" by cases (simp_all add: d'_def d_def w assms(2))
  from cases show "fx_marker s' \<longleftrightarrow> fx_marker s \<or> d_tag d' = kDtZbTextrel"
    by cases (simp_all add: d'_def d_def w assms(2))
  from cases show "d_tag d' = kDtZbTextrel \<Longrightarrow> d_val d' = (if d_tag d = kDtZbTextrel then d_val d else 1)"
    by cases (simp_all add: d'_def d_def w assms(2))
  from cases show "k < length (fx_bytes s) \<Longrightarrow> k < doff \<or> doff + slots * 8 \<le> k \<Longrightarrow> fx_bytes s' ! k = fx_bytes s ! k"
    using assms(2) by cases (auto simp: nth_write_object fit)
qed

lemma fix_entries_spec:
  assumes "fix_entries so ss doff [k..<term] s = Inr s'" "k \<le> term" "term \<le> slots" "doff + slots * 8 \<le> length (fx_bytes s)"
    and "\<And>j. k \<le> j \<Longrightarrow> j < term \<Longrightarrow> d_tag (read_dyn (fx_bytes s) doff j) \<noteq> DT_NULL"
    and "\<And>j. j < k \<Longrightarrow> clean (read_dyn (fx_bytes s) doff j)"
    and "fx_marker s \<Longrightarrow> \<exists>j<k. d_tag (read_dyn (fx_bytes s) doff j) = kDtZbTextrel"
    and "\<And>j. j < term \<Longrightarrow> d_tag (read_dyn (fx_bytes s) doff j) = kDtZbTextrel \<Longrightarrow> d_val (read_dyn (fx_bytes s) doff j) = 1"
  shows "length (fx_bytes s') = length (fx_bytes s) \<and>
     (\<forall>j < term. clean (read_dyn (fx_bytes s') doff j)) \<and>
     (\<forall>j. term \<le> j \<and> j < slots \<longrightarrow> read_dyn (fx_bytes s') doff j = read_dyn (fx_bytes s) doff j) \<and>
     (\<forall>i < length (fx_bytes s). i < doff \<or> doff + slots * 8 \<le> i \<longrightarrow> fx_bytes s' ! i = fx_bytes s ! i) \<and>
     (fx_marker s' \<longrightarrow> (\<exists>j<term. d_tag (read_dyn (fx_bytes s') doff j) = kDtZbTextrel)) \<and>
     (\<forall>j < term. d_tag (read_dyn (fx_bytes s') doff j) = kDtZbTextrel \<longrightarrow> d_val (read_dyn (fx_bytes s') doff j) = 1)"
  using assms
proof (induction "term - k" arbitrary: k s)
  case 0
  then show ?case by simp
next
  case (Suc n)
  then have k: "k < term" by simp
  then have l: "[k..<term] = k # [Suc k..<term]" by (simp add: upt_conv_Cons)
  obtain s1 where s1: "fix_entry so ss (doff + k * 8) s = Inr s1" "fix_entries so ss doff [Suc k..<term] s1 = Inr s'"
    using Suc.prems(1) unfolding l by (auto split: sum.splits)
  have ks: "k < slots" using k Suc.prems(3) by simp
  note e = fix_entry_spec [OF s1(1) ks Suc.prems(4) Suc.prems(5) [OF order_refl k]]
  have o: "j < slots \<Longrightarrow> read_dyn (fx_bytes s1) doff j = (if j = k then read_dyn (fx_bytes s1) doff k else read_dyn (fx_bytes s) doff j)" for j
    using e(2) by simp
  have lt: "j < term \<Longrightarrow> j < slots" for j using Suc.prems(3) by simp
  have "length (fx_bytes s') = length (fx_bytes s1) \<and>
     (\<forall>j < term. clean (read_dyn (fx_bytes s') doff j)) \<and>
     (\<forall>j. term \<le> j \<and> j < slots \<longrightarrow> read_dyn (fx_bytes s') doff j = read_dyn (fx_bytes s1) doff j) \<and>
     (\<forall>i < length (fx_bytes s1). i < doff \<or> doff + slots * 8 \<le> i \<longrightarrow> fx_bytes s' ! i = fx_bytes s1 ! i) \<and>
     (fx_marker s' \<longrightarrow> (\<exists>j<term. d_tag (read_dyn (fx_bytes s') doff j) = kDtZbTextrel)) \<and>
     (\<forall>j < term. d_tag (read_dyn (fx_bytes s') doff j) = kDtZbTextrel \<longrightarrow> d_val (read_dyn (fx_bytes s') doff j) = 1)"
  proof (rule Suc.hyps(1) [OF _ s1(2)])
    show "n = term - Suc k" "Suc k \<le> term" "term \<le> slots" "doff + slots * 8 \<le> length (fx_bytes s1)"
      using Suc.hyps(2) Suc.prems(3,4) k e(1) by simp_all
    show "d_tag (read_dyn (fx_bytes s1) doff j) \<noteq> DT_NULL" if "Suc k \<le> j" "j < term" for j
      using that Suc.prems(5) [of j] lt by (simp add: o)
    show "clean (read_dyn (fx_bytes s1) doff j)" if "j < Suc k" for j
    proof (cases "j = k")
      case False
      then have "j < k" using that by simp
      then show ?thesis using Suc.prems(6) ks by (simp add: o [of j])
    qed (use e(3) in simp)
    show "\<exists>j<Suc k. d_tag (read_dyn (fx_bytes s1) doff j) = kDtZbTextrel" if m: "fx_marker s1"
    proof (cases "fx_marker s")
      case True
      then obtain j where "j < k" "d_tag (read_dyn (fx_bytes s) doff j) = kDtZbTextrel" using Suc.prems(7) by blast
      then show ?thesis using ks by (intro exI [of _ j]) (simp add: o [of j])
    qed (use e(5) m in auto)
    show "d_val (read_dyn (fx_bytes s1) doff j) = 1"
      if "j < term" "d_tag (read_dyn (fx_bytes s1) doff j) = kDtZbTextrel" for j
    proof (cases "j = k")
      case True
      then show ?thesis using e(6) that Suc.prems(8) [OF k] by (auto split: if_splits)
    next
      case False
      then show ?thesis using that Suc.prems(8) [of j] lt by (simp add: o [of j])
    qed
  qed
  then show ?case using e(1) e(4) k by (auto simp: o)
qed

lemma find_upt_Some:
  "find P [0..<n] = Some t \<longleftrightarrow> t < n \<and> P t \<and> (\<forall>j<t. \<not> P j)"
  by (auto simp: find_Some_iff)

lemma dyn_has_markerI:
  "j < length ds \<Longrightarrow> d_tag (ds ! j) = kDtZbTextrel \<Longrightarrow> d_val (ds ! j) = 1 \<Longrightarrow> \<forall>i<j. d_tag (ds ! i) \<noteq> DT_NULL \<Longrightarrow> dyn_has_marker ds"
proof (induction ds arbitrary: j)
  case (Cons d ds)
  have "kDtZbTextrel \<noteq> DT_NULL" by (simp add: dt_defs)
  then show ?case using Cons by (cases j) (force simp: All_less_Suc2)+
qed simp

text \<open>The table after the entries and the marker.\<close>

definition table_fixed :: "u8 list \<Rightarrow> fix_state \<Rightarrow> nat \<Rightarrow> nat \<Rightarrow> bool" where
  "table_fixed f s doff slots \<longleftrightarrow>
     length (fx_bytes s) = length f \<and>
     (\<forall>i < length f. i < doff \<or> doff + slots * 8 \<le> i \<longrightarrow> fx_bytes s ! i = f ! i) \<and>
     (\<exists>t. find_terminator (fx_bytes s) doff slots = Some t \<and> (\<forall>i<t. clean (read_dyn (fx_bytes s) doff i))) \<and>
     (fx_textrel s \<longrightarrow> dyn_has_marker (map (read_dyn (fx_bytes s) doff) [0..<slots]))"

lemma table_fixedI:
  assumes "length (fx_bytes s) = length f"
    and "\<And>i. i < length f \<Longrightarrow> i < doff \<or> doff + slots * 8 \<le> i \<Longrightarrow> fx_bytes s ! i = f ! i"
    and "t < slots" "d_tag (read_dyn (fx_bytes s) doff t) = DT_NULL" "\<And>i. i < t \<Longrightarrow> clean (read_dyn (fx_bytes s) doff i)"
    and "fx_textrel s \<Longrightarrow> \<exists>j<t. d_tag (read_dyn (fx_bytes s) doff j) = kDtZbTextrel \<and> d_val (read_dyn (fx_bytes s) doff j) = 1"
  shows "table_fixed f s doff slots"
proof -
  have "dyn_has_marker (map (read_dyn (fx_bytes s) doff) [0..<slots])" if "fx_textrel s"
  proof -
    obtain j where "j < t" "d_tag (read_dyn (fx_bytes s) doff j) = kDtZbTextrel" "d_val (read_dyn (fx_bytes s) doff j) = 1"
      using assms(6) [OF \<open>fx_textrel s\<close>] by blast
    then show ?thesis using assms(3,5) by (intro dyn_has_markerI [of j]) (auto simp: clean_def)
  qed
  then show ?thesis using assms(1-5) unfolding table_fixed_def find_terminator_def find_upt_Some
    by (auto simp: clean_def)
qed

lemma fix_dynamic_table:
  assumes "fix_dynamic f lds doff slots = Inr s" "doff + slots * 8 \<le> length f"
    and "\<forall>i < slots. d_tag (read_dyn f doff i) = kDtZbTextrel \<longrightarrow> d_val (read_dyn f doff i) = 1"
  shows "table_fixed f s doff slots"
proof -
  obtain t so ss s0 where t: "find_terminator f doff slots = Some t"
    and s0: "fix_entries so ss doff [0..<t] \<lparr>fx_bytes = f, fx_changed = [], fx_textrel = False, fx_marker = False\<rparr> = Inr s0"
    and s: "add_marker doff slots t s0 = Inr s"
    using assms(1) by (auto simp: fix_dynamic_def split: option.splits sum.splits)
  have tt: "t < slots" "d_tag (read_dyn f doff t) = DT_NULL" "\<And>j. j < t \<Longrightarrow> d_tag (read_dyn f doff j) \<noteq> DT_NULL"
    using t unfolding find_terminator_def find_upt_Some by auto
  have sp: "length (fx_bytes s0) = length f \<and>
     (\<forall>j < t. clean (read_dyn (fx_bytes s0) doff j)) \<and>
     (\<forall>j. t \<le> j \<and> j < slots \<longrightarrow> read_dyn (fx_bytes s0) doff j = read_dyn f doff j) \<and>
     (\<forall>i < length f. i < doff \<or> doff + slots * 8 \<le> i \<longrightarrow> fx_bytes s0 ! i = f ! i) \<and>
     (fx_marker s0 \<longrightarrow> (\<exists>j<t. d_tag (read_dyn (fx_bytes s0) doff j) = kDtZbTextrel)) \<and>
     (\<forall>j < t. d_tag (read_dyn (fx_bytes s0) doff j) = kDtZbTextrel \<longrightarrow> d_val (read_dyn (fx_bytes s0) doff j) = 1)"
    using fix_entries_spec [OF s0, of slots, simplified] tt assms(2,3) by simp
  show ?thesis
  proof (cases "fx_textrel s0 \<and> \<not> fx_marker s0")
    case False
    then have "s = s0" using s by (simp add: add_marker_def split: if_splits)
    then show ?thesis using sp tt False by (intro table_fixedI [of _ _ _ _ t]) auto
  next
    case True
    let ?d = "\<lparr>d_tag = kDtZbTextrel, d_val = 1\<rparr>" and ?n = "\<lparr>d_tag = DT_NULL, d_val = 0\<rparr>"
    let ?b1 = "write_object (fx_bytes s0) (doff + t * 8) (dyn_bytes ?d)"
    have t1: "t + 1 < slots" using s True by (simp add: add_marker_def split: if_splits)
    have sb: "fx_bytes s = write_object ?b1 (doff + (t + 1) * 8) (dyn_bytes ?n)" "fx_textrel s"
      using s True t1 by (auto simp: add_marker_def algebra_simps)
    have l0: "doff + slots * 8 \<le> length (fx_bytes s0)" using sp assms(2) by simp
    have l1: "length ?b1 = length (fx_bytes s0)" using l0 tt(1) by (intro length_write_object) simp
    have r: "read_dyn (fx_bytes s) doff j = (if j = t + 1 then ?n else if j = t then ?d else read_dyn (fx_bytes s0) doff j)" if "j < slots" for j
      unfolding sb using read_dyn_write [OF t1 that, of doff ?b1 ?n] read_dyn_write [OF tt(1) that l0, of ?d] l0 l1 by simp
    have ls: "length (fx_bytes s) = length f" unfolding sb using l0 l1 t1 sp by (subst length_write_object) simp_all
    have out: "fx_bytes s ! i = f ! i" if "i < length f" "i < doff \<or> doff + slots * 8 \<le> i" for i
    proof -
      have "\<not> (doff + (t + 1) * 8 \<le> i \<and> i < doff + (t + 1) * 8 + 8)" "\<not> (doff + t * 8 \<le> i \<and> i < doff + t * 8 + 8)"
        using that(2) t1 by auto
      moreover have "i < length ?b1" "i < length (fx_bytes s0)" using that(1) sp l1 by simp_all
      moreover have "doff + (t + 1) * 8 + 8 \<le> length ?b1" "doff + t * 8 + 8 \<le> length (fx_bytes s0)"
        using l0 l1 t1 by simp_all
      ultimately have "fx_bytes s ! i = ?b1 ! i" "?b1 ! i = fx_bytes s0 ! i"
        unfolding sb(1) by (simp_all only: nth_write_object length_dyn_bytes if_False)
      then show ?thesis using sp that by auto
    qed
    have c: "clean ?d" by (simp add: clean_def dt_defs)
    show ?thesis
    proof (rule table_fixedI [OF ls out t1])
      show "clean (read_dyn (fx_bytes s) doff i)" if "i < t + 1" for i
        using that sp c tt(1) by (cases "i = t") (simp_all add: r)
      show "\<exists>j<t + 1. d_tag (read_dyn (fx_bytes s) doff j) = kDtZbTextrel \<and> d_val (read_dyn (fx_bytes s) doff j) = 1"
        using tt(1) by (intro exI [of _ t]) (simp add: r)
    qed (use r [OF t1] in simp_all)
  qed
qed

lemma scan_phdrs_dynamic:
  "scan_phdrs n ps lds dyn = Inr (lds', Some (doff, slots)) \<Longrightarrow>
   (\<And>a b. dyn = Some (a, b) \<Longrightarrow> a + b * 8 \<le> n) \<Longrightarrow> doff + slots * 8 \<le> n"
proof (induction n ps lds dyn rule: scan_phdrs.induct)
  case (2 n p ps lds dyn)
  have "unat (p_filesz p) div 8 * 8 \<le> unat (p_filesz p)" by simp
  then have "range_fits (unat (p_offset p)) (unat (p_filesz p)) n \<Longrightarrow> unat (p_offset p) + unat (p_filesz p) div 8 * 8 \<le> n"
    unfolding range_fits_def by linarith
  then show ?case using 2 by (auto split: if_splits)
qed auto


text \<open>A library with one program header and a dynamic table of a \<open>DF_TEXTREL\<close> flag, the terminator
  and a spare slot.\<close>

definition textrel_lib :: "u8 list" where
  "textrel_lib =
     ELFMAG @ [1, 1, 1] @ replicate 9 0 @ le16 3 @ le16 40 @ le32 1 @ le32 0 @ le32 52 @ le32 0 @ le32 0 @
     le16 52 @ le16 32 @ le16 1 @ le16 0 @ le16 0 @ le16 0 @
     le32 PT_DYNAMIC @ le32 84 @ le32 84 @ le32 84 @ le32 24 @ le32 24 @ le32 6 @ le32 4 @
     dyn_bytes \<lparr>d_tag = DT_FLAGS, d_val = 4\<rparr> @ dyn_bytes \<lparr>d_tag = DT_NULL, d_val = 0\<rparr> @ dyn_bytes \<lparr>d_tag = DT_NULL, d_val = 0\<rparr>"


lemma lib_scan: "scan_phdrs (length textrel_lib) (phdr_table textrel_lib (unat (e_phoff (ehdr_of (read_object textrel_lib 0 52))))
           (unat (e_phnum (ehdr_of (read_object textrel_lib 0 52))))) [] None = Inr ([], Some (84, 3))"
  by code_simp

lemma lib_content: "case fix_content textrel_lib of Inl _ \<Rightarrow> False | Inr s \<Rightarrow> fx_textrel s"
  by code_simp

lemma lib_tags: "d_tag (read_dyn textrel_lib 84 0) \<noteq> kDtZbTextrel" "d_tag (read_dyn textrel_lib 84 1) \<noteq> kDtZbTextrel"
  "d_tag (read_dyn textrel_lib 84 2) \<noteq> kDtZbTextrel"
  by (code_simp, code_simp, code_simp)


end
