(* ===== verification/Syscall_Memory.thy ===== *)
theory Syscall_Memory
  imports Syscall_Base Elf_Files
begin

text \<open>
  The memory system calls of \<open>core/src/syscalls.cpp\<close>: \<open>brk\<close>, \<open>mmap2\<close>, \<open>munmap\<close>, \<open>mprotect\<close>,
  \<open>madvise\<close>, \<open>msync\<close>, on the guest address space and the process tables they keep (executable
  eligibility, file mappings, text relocation ranges, translated code).  The source runs each under
  the memory mutex, so each is one step.
\<close>

section \<open>Handlers\<close>

definition MAP_FIXED :: u32 where "MAP_FIXED = 0x10"
definition MAP_ANONYMOUS :: u32 where "MAP_ANONYMOUS = 0x20"
definition MAP_FIXED_NOREPLACE :: u32 where "MAP_FIXED_NOREPLACE = 0x100000"

definition sys_brk :: "'h env \<Rightarrow> 'h ctx \<Rightarrow> u32 \<times> 'h ctx" where
  "sys_brk E c =
     (let p = proc c;
          want = arg c 0;
          old_top = page_round_up (ucast (brk_current p));
          new_top = page_round_up (ucast want);
          finish = (\<lambda>p'. (want, c\<lparr>proc := p'\<lparr>brk_current := want\<rparr>\<rparr>))
      in if want < brk_start p then (brk_current p, c)
         else if new_top > old_top then
           (let start = ucast old_top
            in if new_top > ucast (mmap_limit p) \<or> \<not> range_free start (new_top - old_top) (pmem p) then (brk_current p, c)
               else case map_anon (e_mm E) start (new_top - old_top) (PROT_READ OR PROT_WRITE) (pmem p) of
                   (ok, m) \<Rightarrow> if ok then finish (p\<lparr>pmem := m\<rparr>) else (brk_current p, c\<lparr>proc := p\<lparr>pmem := m\<rparr>\<rparr>))
         else if new_top < old_top then
           (case unmap (e_mm E) (ucast new_top) (old_top - new_top) (pmem p) of
              (ok, m) \<Rightarrow> finish (invalidate (ucast new_top) (ucast (old_top - new_top)) (p\<lparr>pmem := m\<rparr>)))
         else finish p)"

text \<open>Where \<open>mmap2\<close> places the mapping, or the error.\<close>

definition mmap_place :: "u32 \<Rightarrow> u64 \<Rightarrow> u32 \<Rightarrow> process \<Rightarrow> nat + u32" where
  "mmap_place addr sz flags p =
     (let fixed = (flags AND MAP_FIXED \<noteq> 0); noreplace = (flags AND MAP_FIXED_NOREPLACE \<noteq> 0)
      in if fixed \<or> noreplace then
           if addr AND kPageMask \<noteq> 0 then Inl EINVAL
           else if ucast addr + sz > kGuestSpaceSize then Inl ENOMEM
           else if noreplace \<and> \<not> range_free addr sz (pmem p) then Inl EEXIST
           else Inr addr
         else if addr \<ge> 0x10000 \<and> addr AND kPageMask = 0 \<and> ucast addr + sz \<le> ucast (mmap_limit p) \<and> range_free addr sz (pmem p)
         then Inr addr
         else let at = find_free sz (mmap_limit p) (pmem p) in if at = 0 then Inl ENOMEM else Inr at)"

definition exec_allowed :: "'h env \<Rightarrow> int \<Rightarrow> 'h ctx \<Rightarrow> bool" where
  "exec_allowed E fd c =
     guest_executable_allowed (case e_file E fd (hst c) of None \<Rightarrow> None | Some f \<Rightarrow> read_exact f 52 0)
       (e_fd_target E fd (hst c)) (\<lambda>d. e_realpath E d (hst c)) (proc c)"

text \<open>The bytes a file mapping shows: the file, zero behind its end.\<close>

definition file_byte :: "'h env \<Rightarrow> int \<Rightarrow> 'h ctx \<Rightarrow> nat \<Rightarrow> u8" where
  "file_byte E fd c i = (case e_file E fd (hst c) of None \<Rightarrow> 0 | Some f \<Rightarrow> if i < length f then f ! i else 0)"

text \<open>\<open>errno\<close> after a mapping that was refused: set by the host call if there was one.\<close>

definition mmap_error :: "'h env \<Rightarrow> guest_memory \<Rightarrow> guest_memory \<Rightarrow> nat" where
  "mmap_error E m m' =
     (let e = (if hlog m' = hlog m then 0 else e_mm_errno E (hlog m')) in if e \<noteq> 0 then e else ENOMEM)"

definition map_at :: "'h env \<Rightarrow> u32 \<Rightarrow> u64 \<Rightarrow> u32 \<Rightarrow> u32 \<Rightarrow> int \<Rightarrow> u64 \<Rightarrow> 'h ctx \<Rightarrow> bool \<times> guest_memory" where
  "map_at E at sz prot flags fd offset c =
     (if flags AND MAP_ANONYMOUS \<noteq> 0 then map_anon (e_mm E) at sz prot (cmem c)
      else map_file (e_mm E) (file_byte E fd c) at sz prot flags offset (cmem c))"

text \<open>The bookkeeping after a successful mapping; \<open>nm\<close> is the path behind the descriptor.\<close>

definition after_map :: "u32 \<Rightarrow> u64 \<Rightarrow> u32 \<Rightarrow> bool \<Rightarrow> u64 \<Rightarrow> bool \<Rightarrow> bool \<Rightarrow> string \<Rightarrow> process \<Rightarrow> process" where
  "after_map at sz prot anon offset executable textrel nm p =
     (let p1 = set_exec_eligibility at sz executable p;
          p2 = (if anon then forget_mappings at sz p1
                else let q = record_file_mapping at (ucast sz) offset nm False p1
                     in if textrel then add_textrel_range at (ucast sz) prot q else q)
      in invalidate at (ucast sz) p2)"

definition sys_mmap2 :: "'h env \<Rightarrow> 'h ctx \<Rightarrow> u32 \<times> 'h ctx" where
  "sys_mmap2 E c =
     (let addr = arg c 0; len = arg c 1; prot = arg c 2; flags = arg c 3; fd = sint (arg c 4);
          offset = ucast (arg c 5) * 4096;
          sz = page_round_up (ucast len);
          anon = (flags AND MAP_ANONYMOUS \<noteq> 0)
      in if len = 0 then (neg EINVAL, c)
         else case mmap_place addr sz flags (proc c) of
             Inl e \<Rightarrow> (neg e, c)
           | Inr at \<Rightarrow>
               (let executable = (anon \<or> exec_allowed E fd c)
                in if prot AND PROT_EXEC \<noteq> 0 \<and> \<not> executable then (neg ENOEXEC, c)
                   else let textrel = (\<not> anon \<and> prot AND PROT_EXEC \<noteq> 0 \<and> elf_has_textrel_marker (e_file E fd (hst c)));
                            effective = (if textrel then prot OR PROT_WRITE else prot)
                        in case map_at E at sz effective flags fd offset c of
                             (False, m) \<Rightarrow> (neg (mmap_error E (cmem c) m), set_mem m c)
                           | (True, m) \<Rightarrow>
                               (let c1 = set_mem m c
                                in if anon then (at, c1\<lparr>proc := after_map at sz prot True offset executable textrel [] (proc c1)\<rparr>)
                                   else case hcall E ''readlink'' [AInt fd, AOut] c1 of
                                       (r, c2) \<Rightarrow>
                                         (at, c2\<lparr>proc := after_map at sz prot False offset executable textrel
                                                (if rc r > 0 then map (\<lambda>b. char_of (unat b)) (take (nat (rc r)) (blob r)) else ''fd'') (proc c2)\<rparr>))))"

definition sys_munmap :: "'h env \<Rightarrow> 'h ctx \<Rightarrow> u32 \<times> 'h ctx" where
  "sys_munmap E c =
     (let addr = arg c 0; sz = page_round_up (ucast (arg c 1))
      in if addr AND kPageMask \<noteq> 0 \<or> arg c 1 = 0 then (neg EINVAL, c)
         else if ucast addr + sz > kGuestSpaceSize then (neg EINVAL, c)
         else case unmap (e_mm E) addr sz (cmem c) of
             (False, m) \<Rightarrow> (neg EINVAL, set_mem m c)
           | (True, m) \<Rightarrow>
               (0, c\<lparr>proc := invalidate addr (ucast sz) (forget_mappings addr sz
                       (set_exec_eligibility addr sz True ((proc c)\<lparr>pmem := m\<rparr>)))\<rparr>))"

definition sys_mprotect :: "'h env \<Rightarrow> 'h ctx \<Rightarrow> u32 \<times> 'h ctx" where
  "sys_mprotect E c =
     (let addr = arg c 0; sz = page_round_up (ucast (arg c 1)); prot = arg c 2
      in if addr AND kPageMask \<noteq> 0 then (neg EINVAL, c)
         else if arg c 1 = 0 then (0, c)
         else if \<not> accessible addr sz 0 (cmem c) then (neg ENOMEM, c)
         else if prot AND PROT_EXEC \<noteq> 0 \<and> \<not> may_execute_range addr sz (proc c) then (neg ENOEXEC, c)
         else case protect (e_mm E) addr sz prot (cmem c) of
             (False, m) \<Rightarrow> (neg EACCES, set_mem m c)
           | (True, m) \<Rightarrow> (0, c\<lparr>proc := invalidate addr (ucast sz) ((proc c)\<lparr>pmem := m\<rparr>)\<rparr>))"

text \<open>Advice such as \<open>MADV_DONTNEED\<close> lets the kernel replace the content of the range, whatever its
  protection.\<close>

definition sys_madvise :: "'h env \<Rightarrow> 'h ctx \<Rightarrow> u32 \<times> 'h ctx" where
  "sys_madvise E c =
     (let addr = arg c 0; sz = page_round_up (ucast (arg c 1))
      in if addr AND kPageMask \<noteq> 0 then (neg EINVAL, c)
         else if arg c 1 = 0 then (0, c)
         else if \<not> accessible addr sz 0 (cmem c) then (neg ENOMEM, c)
         else case hcall E ''madvise'' [ARange (unat addr) (unat sz), AInt (sint (arg c 2))] c of
             (r, c1) \<Rightarrow> (result_of r, set_mem (store_bytes (unat addr) (take (unat sz) (blob r)) (cmem c1)) c1))"

definition sys_msync :: "'h env \<Rightarrow> 'h ctx \<Rightarrow> u32 \<times> 'h ctx" where
  "sys_msync E c =
     (let addr = arg c 0; sz = page_round_up (ucast (arg c 1))
      in if addr AND kPageMask \<noteq> 0 then (neg EINVAL, c)
         else if \<not> accessible addr sz 0 (cmem c) then (neg ENOMEM, c)
         else ret_call E ''msync'' [ARange (unat addr) (unat sz), AInt (sint (arg c 2))] c)"

section \<open>Executable pages\<close>

text \<open>A page flagged executable is eligible, and so is every page of a text relocation range that
  sealing will make executable.\<close>

definition page_exec :: "guest_memory \<Rightarrow> nat \<Rightarrow> bool" where
  "page_exec m i \<longleftrightarrow> pages m i AND kPageExec \<noteq> 0"

definition textrel_eligible :: "(nat \<Rightarrow> bool) \<Rightarrow> textrel_range \<Rightarrow> bool" where
  "textrel_eligible el r \<longleftrightarrow>
     (tr_prot r AND PROT_EXEC \<noteq> 0 \<longrightarrow>
        (\<forall>i. unat (tr_start r) div 4096 \<le> i \<and> i * 4096 < unat (tr_start r) + unat (tr_length r) \<longrightarrow> el i))"

definition exec_inv :: "process \<Rightarrow> bool" where
  "exec_inv p \<longleftrightarrow> (\<forall>i. page_exec (pmem p) i \<longrightarrow> exec_eligible p i) \<and> list_all (textrel_eligible (exec_eligible p)) (textrel_ranges p) \<and>
     list_all (\<lambda>r. 4096 dvd unat (tr_start r) \<and> 4096 dvd unat (tr_length r)) (textrel_ranges p)"

lemma and_four: "(w :: 'a::len word) AND 4 \<noteq> 0 \<longleftrightarrow> bit w 2"
  using and_exp_eq_0_iff_not_bit [of w 2] by simp

lemma page_exec_flags: "flags_from_prot prot AND kPageExec \<noteq> 0 \<longleftrightarrow> prot AND PROT_EXEC \<noteq> 0"
  by (simp only: kPageExec_def PROT_EXEC_def and_four bit_flags_from_prot)

text \<open>The page table after an operation that gives \<open>[addr, addr + len)\<close> the flags \<open>f\<close>.\<close>

definition repaged :: "u32 \<Rightarrow> u64 \<Rightarrow> u8 \<Rightarrow> guest_memory \<Rightarrow> guest_memory \<Rightarrow> bool" where
  "repaged addr len f m m' \<longleftrightarrow> 4096 dvd unat addr \<and> unat addr + unat (page_round_up len) \<le> 4294967296 \<and>
     (\<forall>i. pages m' i = (if touches addr (page_round_up len) i then f else pages m i))"

lemma repaged_flags:
  assumes "range_valid addr (page_round_up len)" "unat len \<le> 2 ^ 33" "pages m' = pages (set_flags addr (page_round_up len) f m)"
  shows "repaged addr len f m m'"
proof -
  have "unat (page_round_up len) \<le> 2 ^ 33 + 4095"
    using page_round_up_no_wrap [OF assms(2)] assms(2) using div_times_less_eq_dividend [of "unat len + 4095" 4096] by simp
  then have "unat addr + unat (page_round_up len) < 18446744073709551616" using unat_less_u32 [of addr] by simp
  from range_valid_fits [OF this] assms(1) have "4096 dvd unat addr" "unat addr + unat (page_round_up len) \<le> 4294967296" by simp_all
  then show ?thesis using assms(3) by (simp add: repaged_def pages_set_flags)
qed

lemma pages_set_flags_cong: "pages m1 = pages m2 \<Longrightarrow> pages (set_flags a l f m1) = pages (set_flags a l f m2)"
  by (simp add: set_flags_def)

lemma pages_hprot_log [simp]: "pages (set_hprot a l p m) = pages m" "pages (log_call c m) = pages m"
  by (simp_all add: set_hprot_def log_call_def)

lemma map_anon_repaged:
  "map_anon K addr len prot m = (True, m') \<Longrightarrow> unat len \<le> 2 ^ 33 \<Longrightarrow> repaged addr len (flags_from_prot prot) m m'"
  by (auto simp: map_anon_def Let_def split: if_splits intro!: repaged_flags pages_set_flags_cong)

lemma map_file_repaged:
  "map_file K fl addr len prot sh off m = (True, m') \<Longrightarrow> unat len \<le> 2 ^ 33 \<Longrightarrow> repaged addr len (flags_from_prot prot) m m'"
  by (auto simp: map_file_def Let_def split: if_splits intro!: repaged_flags pages_set_flags_cong)

lemma protect_repaged:
  "protect K addr len prot m = (True, m') \<Longrightarrow> unat len \<le> 2 ^ 33 \<Longrightarrow> repaged addr len (flags_from_prot prot) m m'"
  by (auto simp: protect_def Let_def split: if_splits intro!: repaged_flags pages_set_flags_cong)

lemma unmap_repaged:
  "unmap K addr len m = (True, m') \<Longrightarrow> unat len \<le> 2 ^ 33 \<Longrightarrow> repaged addr len 0 m m'"
  by (auto simp: unmap_def Let_def split: if_splits intro!: repaged_flags pages_set_flags_cong)

lemma failed_pages:
  "map_anon K addr len prot m = (False, m') \<Longrightarrow> pages m' = pages m"
  "map_file K fl addr len prot sh off m = (False, m') \<Longrightarrow> pages m' = pages m"
  "protect K addr len prot m = (False, m') \<Longrightarrow> pages m' = pages m"
  "unmap K addr len m = (False, m') \<Longrightarrow> pages m' = pages m"
  by (auto simp: map_anon_def map_file_def protect_def unmap_def Let_def split: if_splits)

text \<open>The pages whose eligibility \<open>set_exec_eligibility\<close> sets are the pages the operation touched.\<close>

lemma eligibility_touches:
  assumes "4096 dvd unat start" "unat start + unat (page_round_up len) \<le> 4294967296"
  shows "exec_eligible (set_exec_eligibility start len b p) i \<longleftrightarrow>
     (if touches start (page_round_up len) i then b else exec_eligible p i)"
proof -
  have e: "unat (ucast start + page_round_up len :: u64) = unat start + unat (page_round_up len)"
    using assms(2) by (simp add: unat_word_ariths)
  obtain q where q: "unat start + unat (page_round_up len) = q * 4096"
    using assms(1) page_round_up_dvd [of len] by (metis dvd_add dvd_def mult.commute)
  have "\<not> ucast start + page_round_up len > kGuestSpaceSize"
    using e assms(2) by (simp add: kGuestSpaceSize_def word_less_nat_alt)
  then show ?thesis by (simp add: set_exec_eligibility_def Let_def e touches_def q)
qed

lemma may_execute_touches:
  assumes "may_execute_range start len p" "4096 dvd unat start" "unat start + unat (page_round_up len) \<le> 4294967296"
    and "touches start (page_round_up len) i"
  shows "exec_eligible p i"
proof -
  have e: "unat (ucast start + page_round_up len :: u64) = unat start + unat (page_round_up len)"
    using assms(3) by (simp add: unat_word_ariths)
  obtain q where q: "unat start + unat (page_round_up len) = q * 4096"
    using assms(2) page_round_up_dvd [of len] by (metis dvd_add dvd_def mult.commute)
  show ?thesis using assms(1,4)
    by (auto simp: may_execute_range_def Let_def e q touches_def list_all_iff split: if_splits)
qed

lemma exec_inv_repage:
  assumes "exec_inv p" "repaged addr len f (pmem p) m"
    and "\<And>i. f AND kPageExec \<noteq> 0 \<Longrightarrow> touches addr (page_round_up len) i \<Longrightarrow> exec_eligible p i"
  shows "exec_inv (p\<lparr>pmem := m\<rparr>)"
  using assms by (auto simp: exec_inv_def page_exec_def repaged_def)

lemma exec_inv_same_pages: "exec_inv p \<Longrightarrow> pages m = pages (pmem p) \<Longrightarrow> exec_inv (p\<lparr>pmem := m\<rparr>)"
  by (simp add: exec_inv_def page_exec_def)

lemma exec_inv_sel [simp]:
  "exec_inv (invalidate a l p) = exec_inv p" "exec_inv (p\<lparr>brk_current := b\<rparr>) = exec_inv p"
  by (simp_all add: exec_inv_def invalidate_def)

lemma invalidate_sel [simp]:
  "pmem (invalidate a l p) = pmem p" "exec_eligible (invalidate a l p) = exec_eligible p"
  "textrel_ranges (invalidate a l p) = textrel_ranges p"
  by (simp_all add: invalidate_def)

lemma set_exec_eligibility_sel [simp]:
  "pmem (set_exec_eligibility a l b p) = pmem p" "textrel_ranges (set_exec_eligibility a l b p) = textrel_ranges p"
  by (simp_all add: set_exec_eligibility_def Let_def)

lemma forget_mappings_sel [simp]:
  "pmem (forget_mappings a l p) = pmem p" "exec_eligible (forget_mappings a l p) = exec_eligible p"
  "textrel_ranges (forget_mappings a l p) =
     filter (\<lambda>r. \<not> range_overlaps (tr_start r) (tr_length r) a (ucast a + l)) (textrel_ranges p)"
  by (simp_all add: forget_mappings_def Let_def)

lemma after_map_sel:
  "pmem (after_map at sz prot anon offset ex textrel nm p) = pmem p"
  "exec_eligible (after_map at sz prot anon offset ex textrel nm p) = exec_eligible (set_exec_eligibility at sz ex p)"
  "textrel_ranges (after_map at sz prot anon offset ex textrel nm p) =
     (if anon then filter (\<lambda>r. \<not> range_overlaps (tr_start r) (tr_length r) at (ucast at + sz)) (textrel_ranges p)
      else filter (\<lambda>r. \<not> range_overlaps (tr_start r) (tr_length r) at (ucast at + ucast (ucast sz :: u32))) (textrel_ranges p) @
        (if textrel then [\<lparr>tr_start = at, tr_length = ucast sz, tr_prot = prot\<rparr>] else []))"
  by (simp_all add: after_map_def Let_def record_file_mapping_def add_textrel_range_def)

lemma aligned_mult: "4096 dvd (a :: nat) \<Longrightarrow> a div 4096 \<le> i \<longleftrightarrow> a \<le> i * 4096"
  by (auto simp: dvd_def)

lemma no_overlap_untouched:
  assumes "\<not> range_overlaps ms ml start (ucast start + sz)" "unat start + unat sz \<le> 4294967296"
    and "4096 dvd unat ms" "4096 dvd unat start"
    and "unat ms div 4096 \<le> i" "i * 4096 < unat ms + unat ml"
  shows "\<not> touches start sz i"
proof -
  have e: "unat (ucast start + sz :: u64) = unat start + unat sz" using assms(2) by (simp add: unat_word_ariths)
  have s: "unat (ucast ms + ucast ml :: u64) = unat ms + unat ml"
    using unat_less_u32 [of ms] unat_less_u32 [of ml] by (simp add: unat_word_ariths)
  have "unat start + unat sz \<le> unat ms \<or> unat ms + unat ml \<le> unat start"
    using assms(1) by (simp add: range_overlaps_def word_less_nat_alt e s not_less)
  then show ?thesis using assms(3-6) by (auto simp: touches_def aligned_mult)
qed

text \<open>Forgetting the mappings of a range drops every text relocation range that meets it, so the
  eligibility of the pages that remain covered does not depend on the range.\<close>

lemma forget_keeps_eligible:
  assumes "list_all (textrel_eligible el) rs" "list_all (\<lambda>r. 4096 dvd unat (tr_start r) \<and> 4096 dvd unat (tr_length r)) rs"
    and "unat start + unat sz \<le> 4294967296" "4096 dvd unat start" "\<And>i. \<not> touches start sz i \<Longrightarrow> el' i = el i"
  shows "list_all (textrel_eligible el') (filter (\<lambda>r. \<not> range_overlaps (tr_start r) (tr_length r) start (ucast start + sz)) rs)"
  unfolding list_all_iff
proof clarify
  fix r assume r: "r \<in> set (filter (\<lambda>r. \<not> range_overlaps (tr_start r) (tr_length r) start (ucast start + sz)) rs)"
  then have "4096 dvd unat (tr_start r)" "textrel_eligible el r" using assms(1,2) by (auto simp: list_all_iff)
  then show "textrel_eligible el' r"
    using r assms(3,4,5) no_overlap_untouched [of "tr_start r" "tr_length r" start sz] by (auto simp: textrel_eligible_def)
qed

lemma after_map_exec_inv:
  assumes inv: "exec_inv p" and rep: "repaged at sz f (pmem p) m" and sz: "page_round_up sz = sz" "unat sz < 4294967296"
    and f: "f AND kPageExec \<noteq> 0 \<Longrightarrow> ex"
    and tr: "textrel \<Longrightarrow> ex"
  shows "exec_inv (after_map at sz prot anon offset ex textrel nm (p\<lparr>pmem := m\<rparr>))"
proof -
  let ?p1 = "set_exec_eligibility at sz ex (p\<lparr>pmem := m\<rparr>)"
  have r: "4096 dvd unat at" "unat at + unat sz \<le> 4294967296" using rep sz(1) by (simp_all add: repaged_def)
  have el: "exec_eligible ?p1 i \<longleftrightarrow> (if touches at sz i then ex else exec_eligible p i)" for i
    using eligibility_touches [of at sz ex "p\<lparr>pmem := m\<rparr>" i] r sz(1) by simp
  have pg: "page_exec m i \<Longrightarrow> exec_eligible ?p1 i" for i
    using inv rep f unfolding el by (auto simp: exec_inv_def page_exec_def repaged_def sz(1) split: if_splits)
  have cast: "(ucast (ucast sz :: u32) :: u64) = sz"
    using sz(2) by (simp add: word_unat_eq_iff unsigned_ucast_eq unsigned_take_bit_eq take_bit_nat_eq_self)
  have u: "unat (ucast sz :: u32) = unat sz" using arg_cong [OF cast, of unat] by simp
  let ?rs = "filter (\<lambda>r. \<not> range_overlaps (tr_start r) (tr_length r) at (ucast at + sz)) (textrel_ranges p)"
  have keep: "list_all (textrel_eligible (exec_eligible ?p1)) ?rs"
    using inv r el by (intro forget_keeps_eligible) (auto simp: exec_inv_def)
  have al: "list_all (\<lambda>r. 4096 dvd unat (tr_start r) \<and> 4096 dvd unat (tr_length r)) ?rs"
    using inv by (auto simp: exec_inv_def list_all_iff)
  have new: "textrel_eligible (exec_eligible ?p1) \<lparr>tr_start = at, tr_length = ucast sz, tr_prot = prot\<rparr>" if textrel
    using tr [OF that] el r by (simp add: textrel_eligible_def u touches_def)
  have "4096 dvd unat sz" using page_round_up_dvd [of sz] sz(1) by simp
  then show ?thesis using pg keep al new r unfolding exec_inv_def after_map_sel cast by (simp add: u)
qed

lemma page_round_up_u32: "unat (page_round_up (ucast (x :: u32))) \<le> 4294967296"
proof -
  have "unat (page_round_up (ucast x)) = (unat x + 4095) div 4096 * 4096"
    using unat_less_u32 [of x] by (subst page_round_up_no_wrap) simp_all
  moreover have "(unat x + 4095) div 4096 \<le> 4294967296 div 4096"
  proof -
    have "unat x + 4095 < 4294967296 + 4096" using unat_less_u32 [of x] by simp
    then have "(unat x + 4095) div 4096 < 1048577" by (simp add: div_less_iff_less_mult)
    then show ?thesis by simp
  qed
  ultimately show ?thesis by simp
qed

lemma diff_le_u64: "(b :: u64) \<le> a \<Longrightarrow> unat (a - b) \<le> unat a"
  by (simp add: unat_sub)

lemma rw_not_exec: "flags_from_prot (PROT_READ OR PROT_WRITE) AND kPageExec = 0"
  using page_exec_flags [of "PROT_READ OR PROT_WRITE"] by (simp add: prot_defs)

lemma sys_brk_exec_inv:
  assumes "exec_inv (proc c)" shows "exec_inv (proc (snd (sys_brk E c)))"
proof -
  let ?o = "page_round_up (ucast (brk_current (proc c)))" and ?n = "page_round_up (ucast (arg c 0))"
  have n: "?o < ?n \<Longrightarrow> unat (?n - ?o) \<le> 2 ^ 33" using diff_le_u64 [of ?o ?n] page_round_up_u32 [of "arg c 0"] by (simp add: less_imp_le le_trans)
  have o: "?n < ?o \<Longrightarrow> unat (?o - ?n) \<le> 2 ^ 33"
    using diff_le_u64 [of ?n ?o] page_round_up_u32 [of "brk_current (proc c)"] by (simp add: less_imp_le le_trans)
  have grow: "exec_inv ((proc c)\<lparr>pmem := m\<rparr>)"
    if "map_anon (e_mm E) a (?n - ?o) (PROT_READ OR PROT_WRITE) (cmem c) = (ok, m)" "?o < ?n" for a ok m
  proof (cases ok)
    case True
    then show ?thesis using exec_inv_repage [OF assms map_anon_repaged] that n rw_not_exec by auto
  next
    case False
    then show ?thesis using exec_inv_same_pages [OF assms] failed_pages(1) that by auto
  qed
  have shrink: "exec_inv ((proc c)\<lparr>pmem := m\<rparr>)"
    if "unmap (e_mm E) a (?o - ?n) (cmem c) = (ok, m)" "?n < ?o" for a ok m
  proof (cases ok)
    case True
    then show ?thesis using exec_inv_repage [OF assms unmap_repaged] that o by auto
  next
    case False
    then show ?thesis using exec_inv_same_pages [OF assms] failed_pages(4) that by auto
  qed
  show ?thesis using assms grow shrink by (auto simp: sys_brk_def Let_def split: prod.splits)
qed

lemma sys_munmap_exec_inv:
  assumes "exec_inv (proc c)" shows "exec_inv (proc (snd (sys_munmap E c)))"
proof -
  let ?sz = "page_round_up (ucast (arg c 1))"
  have sz: "unat ?sz \<le> 2 ^ 33" using page_round_up_u32 [of "arg c 1"] by simp
  have "exec_inv (forget_mappings (arg c 0) ?sz (set_exec_eligibility (arg c 0) ?sz True ((proc c)\<lparr>pmem := m\<rparr>)))"
    if u: "unmap (e_mm E) (arg c 0) ?sz (cmem c) = (True, m)" for m
  proof -
    let ?p = "set_exec_eligibility (arg c 0) ?sz True ((proc c)\<lparr>pmem := m\<rparr>)"
    note rep = unmap_repaged [OF u sz]
    have r: "4096 dvd unat (arg c 0)" "unat (arg c 0) + unat ?sz \<le> 4294967296" using rep by (simp_all add: repaged_def)
    have el: "exec_eligible ?p i \<longleftrightarrow> touches (arg c 0) ?sz i \<or> exec_eligible (proc c) i" for i
      using eligibility_touches [of "arg c 0" ?sz True "(proc c)\<lparr>pmem := m\<rparr>" i] r by simp
    have "list_all (textrel_eligible (exec_eligible ?p))
        (filter (\<lambda>r. \<not> range_overlaps (tr_start r) (tr_length r) (arg c 0) (ucast (arg c 0) + ?sz)) (textrel_ranges (proc c)))"
      using assms r el by (intro forget_keeps_eligible [of "exec_eligible (proc c)"]) (auto simp: exec_inv_def)
    moreover have "page_exec m i \<Longrightarrow> exec_eligible ?p i" for i
      using assms rep unfolding el by (auto simp: exec_inv_def page_exec_def repaged_def split: if_splits)
    ultimately show ?thesis using assms unfolding exec_inv_def by (simp add: list_all_iff)
  qed
  then show ?thesis using assms exec_inv_same_pages [OF assms] failed_pages(4)
    by (auto simp: sys_munmap_def Let_def set_mem_def split: prod.splits bool.splits)
qed

lemma sys_mprotect_exec_inv:
  assumes "exec_inv (proc c)" shows "exec_inv (proc (snd (sys_mprotect E c)))"
proof -
  let ?sz = "page_round_up (ucast (arg c 1))"
  have sz: "unat ?sz \<le> 2 ^ 33" using page_round_up_u32 [of "arg c 1"] by simp
  have "exec_inv ((proc c)\<lparr>pmem := m\<rparr>)"
    if u: "protect (e_mm E) (arg c 0) ?sz (arg c 2) (cmem c) = (True, m)"
      and x: "arg c 2 AND PROT_EXEC \<noteq> 0 \<Longrightarrow> may_execute_range (arg c 0) ?sz (proc c)" for m
  proof (rule exec_inv_repage [OF assms protect_repaged [OF u sz]])
    fix i assume "flags_from_prot (arg c 2) AND kPageExec \<noteq> 0" "touches (arg c 0) (page_round_up ?sz) i"
    then show "exec_eligible (proc c) i"
      using may_execute_touches [OF x, of i] protect_repaged [OF u sz] by (simp add: page_exec_flags repaged_def)
  qed
  then show ?thesis using assms exec_inv_same_pages [OF assms] failed_pages(3)
    by (auto simp: sys_mprotect_def Let_def set_mem_def split: prod.splits bool.splits)
qed

lemma hcall_proc: "hcall E nm as c = (r, c') \<Longrightarrow> proc c' = (proc c)\<lparr>pmem := kernel_writes as (wrote r) (cmem c)\<rparr>"
  by (auto simp: hcall_def Let_def set_mem_def split: prod.splits)

lemma map_at_repaged:
  "map_at E at sz prot flags fd offset c = (True, m) \<Longrightarrow> unat sz \<le> 2 ^ 33 \<Longrightarrow> repaged at sz (flags_from_prot prot) (cmem c) m"
  by (auto simp: map_at_def map_anon_repaged map_file_repaged split: if_splits)

lemma map_at_failed: "map_at E at sz prot flags fd offset c = (False, m) \<Longrightarrow> pages m = pages (cmem c)"
  by (auto simp: map_at_def failed_pages split: if_splits)

lemma sys_mmap2_exec_inv:
  assumes "exec_inv (proc c)" "unat (page_round_up (ucast (arg c 1))) < 4294967296"
  shows "exec_inv (proc (snd (sys_mmap2 E c)))"
proof -
  let ?sz = "page_round_up (ucast (arg c 1))" and ?fd = "sint (arg c 4)" and ?off = "ucast (arg c 5) * 4096 :: u64"
  have sz: "unat ?sz \<le> 2 ^ 33" using assms(2) by simp
  define anon where "anon = (arg c 3 AND MAP_ANONYMOUS \<noteq> 0)"
  define ex where "ex = (anon \<or> exec_allowed E ?fd c)"
  define tr where "tr = (\<not> anon \<and> arg c 2 AND PROT_EXEC \<noteq> 0 \<and> elf_has_textrel_marker (e_file E ?fd (hst c)))"
  define eff where "eff = (if tr then arg c 2 OR PROT_WRITE else arg c 2)"
  have mapped: "exec_inv (after_map at ?sz (arg c 2) an ?off ex tr nm ((proc c)\<lparr>pmem := m\<rparr>))"
    if "map_at E at ?sz eff (arg c 3) ?fd ?off c = (True, m)" "\<not> (arg c 2 AND PROT_EXEC \<noteq> 0 \<and> \<not> ex)" for at m an nm
  proof (rule after_map_exec_inv [OF assms(1) map_at_repaged [OF that(1) sz]])
    have "\<not> bit PROT_WRITE 2" by (simp add: PROT_WRITE_def)
    then have "eff AND PROT_EXEC \<noteq> 0 \<longleftrightarrow> arg c 2 AND PROT_EXEC \<noteq> 0"
      by (simp add: eff_def prot_bit_cases bit_or_iff)
    then show "flags_from_prot eff AND kPageExec \<noteq> 0 \<Longrightarrow> ex" using that(2) by (simp only: page_exec_flags) blast
    show "tr \<Longrightarrow> ex" using that(2) by (auto simp: tr_def)
  qed (use assms(2) in simp_all)
  have "exec_inv (proc (snd (sys_mmap2 E c)))"
  proof (cases "mmap_place (arg c 0) ?sz (arg c 3) (proc c)")
    case (Inl e)
    then show ?thesis using assms(1) by (simp add: sys_mmap2_def Let_def)
  next
    case (Inr at)
    show ?thesis
    proof (cases "arg c 1 = 0 \<or> arg c 2 AND PROT_EXEC \<noteq> 0 \<and> \<not> ex")
      case True
      then show ?thesis using assms(1) Inr
        by (auto simp: sys_mmap2_def Let_def anon_def [symmetric] ex_def [symmetric])
    next
      case False
      then have e: "snd (sys_mmap2 E c) = snd (case map_at E at ?sz eff (arg c 3) ?fd ?off c of
            (False, m) \<Rightarrow> (neg (mmap_error E (cmem c) m), set_mem m c)
          | (True, m) \<Rightarrow>
              (let c1 = set_mem m c
               in if anon then (at, c1\<lparr>proc := after_map at ?sz (arg c 2) True ?off ex tr [] (proc c1)\<rparr>)
                  else case hcall E ''readlink'' [AInt ?fd, AOut] c1 of
                      (r, c2) \<Rightarrow> (at, c2\<lparr>proc := after_map at ?sz (arg c 2) False ?off ex tr
                          (if rc r > 0 then map (\<lambda>b. char_of (unat b)) (take (nat (rc r)) (blob r)) else ''fd'') (proc c2)\<rparr>)))"
        using Inr unfolding sys_mmap2_def Let_def anon_def [symmetric] ex_def [symmetric] tr_def [symmetric] eff_def [symmetric]
        by (simp only: if_False sum.case) auto
      obtain ok m where m: "map_at E at ?sz eff (arg c 3) ?fd ?off c = (ok, m)" by fastforce
      show ?thesis
      proof (cases ok)
        case True
        obtain r c2 where h: "hcall E ''readlink'' [AInt ?fd, AOut] (set_mem m c) = (r, c2)" by fastforce
        have "proc c2 = (proc c)\<lparr>pmem := m\<rparr>" using hcall_proc [OF h] by (simp add: set_mem_def)
        then show ?thesis unfolding e using m True mapped [of at m] False h by (simp add: Let_def set_mem_def)
      next
        case f: False
        then have "map_at E at ?sz eff (arg c 3) ?fd ?off c = (False, m)" using m by simp
        from map_at_failed [OF this] exec_inv_same_pages [OF assms(1)] have "exec_inv ((proc c)\<lparr>pmem := m\<rparr>)" by blast
        then show ?thesis unfolding e using m f by (simp add: set_mem_def)
      qed
    qed
  qed
  then show ?thesis .
qed

lemma sys_madvise_exec_inv:
  assumes "exec_inv (proc c)" shows "exec_inv (proc (snd (sys_madvise E c)))"
  using assms hcall_proc
  by (fastforce simp: sys_madvise_def Let_def set_mem_def intro!: exec_inv_same_pages split: prod.splits)

lemma sys_msync_exec_inv:
  assumes "exec_inv (proc c)" shows "exec_inv (proc (snd (sys_msync E c)))"
  using assms hcall_proc
  by (fastforce simp: sys_msync_def ret_call_def Let_def intro!: exec_inv_same_pages split: prod.splits)

lemma seal_loop_exec_inv:
  "exec_inv p \<Longrightarrow> list_all (textrel_eligible (exec_eligible p)) rs \<Longrightarrow>
   list_all (\<lambda>r. 4096 dvd unat (tr_start r) \<and> 4096 dvd unat (tr_length r)) rs \<Longrightarrow> exec_inv (snd (seal_loop K rs p))"
proof (induction rs arbitrary: p)
  case (Cons r rs)
  obtain ok m where m: "protect K (tr_start r) (ucast (tr_length r)) (tr_prot r) (pmem p) = (ok, m)" by fastforce
  have rup: "page_round_up (ucast (tr_length r)) = ucast (tr_length r)"
  proof -
    obtain q where "unat (tr_length r) = 4096 * q" using Cons.prems(3) by (auto simp: dvd_def)
    then have "unat (page_round_up (ucast (tr_length r))) = unat (tr_length r)"
      using unat_less_u32 [of "tr_length r"] by (subst page_round_up_no_wrap) simp_all
    then show ?thesis by (simp add: word_unat_eq_iff)
  qed
  have "exec_inv (p\<lparr>pmem := m\<rparr>)"
  proof (cases ok)
    case True
    have sz: "unat (ucast (tr_length r) :: u64) \<le> 2 ^ 33" using unat_less_u32 [of "tr_length r"] by simp
    have m': "protect K (tr_start r) (ucast (tr_length r)) (tr_prot r) (pmem p) = (True, m)" using m True by simp
    show ?thesis
    proof (rule exec_inv_repage [OF Cons.prems(1) protect_repaged [OF m' sz]])
      fix i assume "flags_from_prot (tr_prot r) AND kPageExec \<noteq> 0" "touches (tr_start r) (page_round_up (ucast (tr_length r))) i"
      then show "exec_eligible p i" using Cons.prems(2) by (simp add: page_exec_flags rup textrel_eligible_def touches_def)
    qed
  next
    case False
    then show ?thesis using exec_inv_same_pages [OF Cons.prems(1)] failed_pages(3) m by auto
  qed
  then show ?case using Cons.IH [of "invalidate (tr_start r) (tr_length r) (p\<lparr>pmem := m\<rparr>)"] Cons.prems m
    by (simp add: Let_def)
qed simp

lemma seal_exec_inv:
  assumes "exec_inv p" shows "exec_inv (snd (seal_textrel_ranges K p))"
proof -
  have "exec_inv (snd (seal_loop K (textrel_ranges p) p))"
    using assms by (intro seal_loop_exec_inv) (auto simp: exec_inv_def)
  then show ?thesis by (auto simp: seal_textrel_ranges_def Let_def exec_inv_def split: prod.splits)
qed

section \<open>Sequences of memory calls\<close>

text \<open>One step is one memory system call with any arguments, or the sealing of the text relocation
  ranges that ends the linker's relocation window.  The length of a mapping is below 4 GiB after
  rounding.\<close>

inductive mm_step :: "'h env \<Rightarrow> 'h ctx \<Rightarrow> 'h ctx \<Rightarrow> bool" for E where
  mm_brk: "mm_step E c (snd (sys_brk E (c\<lparr>args := a\<rparr>)))"
| mm_mmap2: "unat (page_round_up (ucast (a ! 1))) < 4294967296 \<Longrightarrow> mm_step E c (snd (sys_mmap2 E (c\<lparr>args := a\<rparr>)))"
| mm_munmap: "mm_step E c (snd (sys_munmap E (c\<lparr>args := a\<rparr>)))"
| mm_mprotect: "mm_step E c (snd (sys_mprotect E (c\<lparr>args := a\<rparr>)))"
| mm_madvise: "mm_step E c (snd (sys_madvise E (c\<lparr>args := a\<rparr>)))"
| mm_msync: "mm_step E c (snd (sys_msync E (c\<lparr>args := a\<rparr>)))"
| mm_seal: "mm_step E c (c\<lparr>proc := snd (seal_textrel_ranges (e_mm E) (proc c))\<rparr>)"

lemmas sys_exec_inv = sys_brk_exec_inv sys_mmap2_exec_inv sys_munmap_exec_inv sys_mprotect_exec_inv
  sys_madvise_exec_inv sys_msync_exec_inv seal_exec_inv

lemma mm_step_exec_inv: "mm_step E c c' \<Longrightarrow> exec_inv (proc c) \<Longrightarrow> exec_inv (proc c')"
  by (induction rule: mm_step.induct) (simp_all add: sys_exec_inv)

lemma mm_reach_exec_inv: "(mm_step E)\<^sup>*\<^sup>* c c' \<Longrightarrow> exec_inv (proc c) \<Longrightarrow> exec_inv (proc c')"
  by (induction rule: rtranclp_induct) (auto intro: mm_step_exec_inv)

lemma new_process_exec_inv: "exec_inv new_process"
  by (simp add: exec_inv_def new_process_def)


text \<open>A host that accepts every memory call and answers 0, and a context over a new process.\<close>

definition plain_host :: "unit host" where
  "plain_host nm as m h = (\<lparr>rc = 0, err = 0, wrote = [], vals = [], blob = [], cmsgs = []\<rparr>, ())"

definition plain_env :: "unit env" where
  "plain_env = \<lparr>e_host = plain_host, e_mm = accept_all, e_mm_errno = (\<lambda>_. 0), e_fs = fs_w,
     e_file = (\<lambda>_ _. None), e_fd_target = (\<lambda>_ _. None), e_realpath = (\<lambda>_ _. None)\<rparr>"

definition plain_ctx :: "unit ctx" where
  "plain_ctx = \<lparr>proc = new_process, thr = 0, args = [], stop_flag = False, no_result = False, hst = (), hcalls = []\<rparr>"

text \<open>An anonymous executable page at \<open>0x10000\<close>.\<close>

definition exec_demo :: "u32 list" where
  "exec_demo = [0x10000, 4096, 5, 0x32, 0xFFFFFFFF, 0]"


end
