(* ===== verification/Syscall_Io.thy ===== *)
theory Syscall_Io
  imports Syscall_Base
begin

text \<open>
  The system calls of \<open>core/src/syscalls.cpp\<close> on files, time, signals, limits and waiting: one
  definition per handler, with its argument checks in the order of the code.  The values the kernel
  returns in a host structure are numbered in the order of the fields the code reads.
\<close>

section \<open>Conversions\<close>

text \<open>The fields of \<open>struct stat\<close>: device, inode, mode, link count, uid, gid, rdev, size, block
  size, blocks, and seconds and nanoseconds of access, modification and change.\<close>

definition fill_stat64 :: "hres \<Rightarrow> stat64" where
  "fill_stat64 r =
     \<lparr>st_dev = word_of_int (val r 0), st_ino_trunc = word_of_int (val r 1), st_mode = word_of_int (val r 2),
      st_nlink = word_of_int (val r 3), st_uid = word_of_int (val r 4), st_gid = word_of_int (val r 5),
      st_rdev = word_of_int (val r 6), st_size = word_of_int (val r 7), st_blksize = word_of_int (val r 8),
      st_blocks = word_of_int (val r 9), atime_sec = word_of_int (val r 10), atime_nsec = word_of_int (val r 11),
      mtime_sec = word_of_int (val r 12), mtime_nsec = word_of_int (val r 13),
      ctime_sec = word_of_int (val r 14), ctime_nsec = word_of_int (val r 15), st_ino = word_of_int (val r 1)\<rparr>"

definition read_timespec :: "u32 \<Rightarrow> bool \<Rightarrow> 'h ctx \<Rightarrow> (int \<times> int) option" where
  "read_timespec addr time64 c =
     (if time64
      then map_option (\<lambda>b. let t = timespec64_of b in (sint (ts64_sec t), sint (ts64_nsec t))) (read_guest 16 addr c)
      else map_option (\<lambda>b. let t = timespec32_of b in (sint (ts_sec t), sint (ts_nsec t))) (read_guest 8 addr c))"

definition timespec_image :: "bool \<Rightarrow> int \<Rightarrow> int \<Rightarrow> u8 list" where
  "timespec_image time64 s n =
     (if time64 then timespec64_bytes \<lparr>ts64_sec = word_of_int s, ts64_nsec = word_of_int n\<rparr>
      else timespec32_bytes \<lparr>ts_sec = word_of_int s, ts_nsec = word_of_int n\<rparr>)"

definition write_timespec :: "u32 \<Rightarrow> bool \<Rightarrow> int \<Rightarrow> int \<Rightarrow> 'h ctx \<Rightarrow> bool \<times> 'h ctx" where
  "write_timespec addr time64 s n c = write_guest addr (timespec_image time64 s n) c"

definition timeval_image :: "int \<Rightarrow> int \<Rightarrow> u8 list" where
  "timeval_image s u = timeval32_bytes \<lparr>tv_sec = word_of_int s, tv_usec = word_of_int u\<rparr>"

text \<open>A pointer to a \<open>timespec\<close> for the host, or null.\<close>

definition ts_arg :: "(int \<times> int) option \<Rightarrow> harg" where
  "ts_arg t = (case t of None \<Rightarrow> ANull | Some (s, n) \<Rightarrow> AVals [s, n])"

section \<open>Reading and writing\<close>

definition io_arg :: "bool \<Rightarrow> nat \<Rightarrow> nat \<Rightarrow> harg" where
  "io_arg is_write p n = (if is_write then ARead p n else AWrite p n)"

definition sys_read_write :: "'h env \<Rightarrow> bool \<Rightarrow> 'h ctx \<Rightarrow> u32 \<times> 'h ctx" where
  "sys_read_write E is_write c =
     (let len = arg c 2
      in case host_ptr (arg c 1) (ucast len) (if is_write then kPageRead else kPageWrite) (cmem c) of
           None \<Rightarrow> (neg EFAULT, c)
         | Some buf \<Rightarrow>
             ret_call E (if is_write then ''write'' else ''read'')
               [AInt (sint (arg c 0)), io_arg is_write buf (unat len), AInt (uint len)] c)"

definition join64 :: "u32 \<Rightarrow> u32 \<Rightarrow> u64" where
  "join64 lo hi = ucast lo OR push_bit 32 (ucast hi)"

definition sys_pread_pwrite :: "'h env \<Rightarrow> bool \<Rightarrow> 'h ctx \<Rightarrow> u32 \<times> 'h ctx" where
  "sys_pread_pwrite E is_write c =
     (let len = arg c 2
      in case host_ptr (arg c 1) (ucast len) (if is_write then kPageRead else kPageWrite) (cmem c) of
           None \<Rightarrow> (neg EFAULT, c)
         | Some buf \<Rightarrow>
             ret_call E (if is_write then ''pwrite'' else ''pread'')
               [AInt (sint (arg c 0)), io_arg is_write buf (unat len), AInt (uint len),
                AInt (sint (join64 (arg c 4) (arg c 5)))] c)"

definition IOV_MAX :: u32 where "IOV_MAX = 1024"

text \<open>The loop that checks the \<open>count\<close> guest vectors from \<open>addr\<close>: the host vector, or the fault.\<close>

fun gather_iov :: "bool \<Rightarrow> nat \<Rightarrow> u32 \<Rightarrow> 'h ctx \<Rightarrow> harg list option" where
  "gather_iov is_write 0 addr c = Some []"
| "gather_iov is_write (Suc n) addr c =
     (case read_guest 8 addr c of
        None \<Rightarrow> None
      | Some b \<Rightarrow>
          (let v = iovec32_of b
           in case host_ptr (iov_base v) (ucast (iov_len v)) (if is_write then kPageRead else kPageWrite) (cmem c) of
                None \<Rightarrow> None
              | Some base \<Rightarrow>
                  map_option (\<lambda>vs. io_arg is_write base (unat (iov_len v)) # vs) (gather_iov is_write n (addr + 8) c)))"

definition sys_readv_writev :: "'h env \<Rightarrow> bool \<Rightarrow> 'h ctx \<Rightarrow> u32 \<times> 'h ctx" where
  "sys_readv_writev E is_write c =
     (let count = arg c 2
      in if count > IOV_MAX then (neg EINVAL, c)
         else case gather_iov is_write (unat count) (arg c 1) c of
             None \<Rightarrow> (neg EFAULT, c)
           | Some vs \<Rightarrow>
               ret_call E (if is_write then ''writev'' else ''readv'') (AInt (sint (arg c 0)) # AInt (uint count) # vs) c)"

definition sys_llseek :: "'h env \<Rightarrow> 'h ctx \<Rightarrow> u32 \<times> 'h ctx" where
  "sys_llseek E c =
     (case hcall E ''lseek'' [AInt (sint (arg c 0)), AInt (sint (join64 (arg c 2) (arg c 1))), AInt (sint (arg c 4))] c of
        (r, c1) \<Rightarrow> if rc r = -1 then (neg (err r), c1) else ret_write (arg c 3) (le64 (word_of_int (rc r))) 0 c1)"

definition sys_lseek :: "'h env \<Rightarrow> 'h ctx \<Rightarrow> u32 \<times> 'h ctx" where
  "sys_lseek E c =
     (case hcall E ''lseek'' [AInt (sint (arg c 0)), AInt (sint (arg c 1)), AInt (sint (arg c 2))] c of
        (r, c1) \<Rightarrow> if rc r = -1 then (neg (err r), c1)
                   else if rc r > 2147483647 then (neg EOVERFLOW, c1)
                   else (word_of_int (rc r), c1))"

text \<open>\<open>pipe2\<close>, \<open>pipe\<close> and \<open>socketpair\<close>: two descriptors copied to the guest.\<close>

definition sys_fd_pair :: "'h env \<Rightarrow> u32 \<Rightarrow> string \<Rightarrow> harg list \<Rightarrow> 'h ctx \<Rightarrow> u32 \<times> 'h ctx" where
  "sys_fd_pair E out_addr nm as c =
     (case host_ptr out_addr 8 kPageWrite (cmem c) of
        None \<Rightarrow> (neg EFAULT, c)
      | Some out \<Rightarrow>
          (case hcall E nm (as @ [AOut]) c of
             (r, c1) \<Rightarrow> if rc r \<noteq> 0 then (neg (err r), c1)
                        else (0, set_mem (store_bytes out (le32 (word_of_int (val r 0)) @ le32 (word_of_int (val r 1))) (cmem c1)) c1)))"

definition sys_pipe2 :: "'h env \<Rightarrow> 'h ctx \<Rightarrow> u32 \<times> 'h ctx" where
  "sys_pipe2 E c = sys_fd_pair E (arg c 0) ''pipe2'' [AInt (sint (arg c 1))] c"

section \<open>Paths\<close>

definition sys_path_call :: "'h env \<Rightarrow> nat \<Rightarrow> ('h ctx \<Rightarrow> string \<Rightarrow> u32 \<times> 'h ctx) \<Rightarrow> 'h ctx \<Rightarrow> u32 \<times> 'h ctx" where
  "sys_path_call E path_arg k c =
     (case guest_cstr (arg c path_arg) c of
        None \<Rightarrow> (neg EFAULT, c)
      | Some path \<Rightarrow> k c (translate_path (e_fs E) (proc c) path))"

definition sys_two_paths ::
    "'h env \<Rightarrow> nat \<Rightarrow> nat \<Rightarrow> ('h ctx \<Rightarrow> string \<Rightarrow> string \<Rightarrow> u32 \<times> 'h ctx) \<Rightarrow> 'h ctx \<Rightarrow> u32 \<times> 'h ctx" where
  "sys_two_paths E first second k c =
     (case guest_cstr (arg c first) c of
        None \<Rightarrow> (neg EFAULT, c)
      | Some a \<Rightarrow>
          (case guest_cstr (arg c second) c of
             None \<Rightarrow> (neg EFAULT, c)
           | Some b \<Rightarrow> k c (translate_path (e_fs E) (proc c) a) (translate_path (e_fs E) (proc c) b)))"

definition sys_stat_common :: "hres \<Rightarrow> u32 \<Rightarrow> 'h ctx \<Rightarrow> u32 \<times> 'h ctx" where
  "sys_stat_common r out_addr c =
     (if rc r \<noteq> 0 then (neg (err r), c) else ret_write out_addr (stat64_bytes (fill_stat64 r)) 0 c)"

text \<open>The fields of \<open>struct statfs\<close>: type, block size, blocks, free and available blocks, files, free
  files, the two words of the id, name length, fragment size, flags.\<close>

definition sys_statfs_common :: "hres \<Rightarrow> u32 \<Rightarrow> 'h ctx \<Rightarrow> u32 \<times> 'h ctx" where
  "sys_statfs_common r out_addr c =
     (if rc r \<noteq> 0 then (neg (err r), c)
      else ret_write out_addr (statfs64_bytes
             \<lparr>f_type = word_of_int (val r 0), f_bsize = word_of_int (val r 1), f_blocks = word_of_int (val r 2),
              f_bfree = word_of_int (val r 3), f_bavail = word_of_int (val r 4), f_files = word_of_int (val r 5),
              f_ffree = word_of_int (val r 6), f_fsid = [word_of_int (val r 7), word_of_int (val r 8)],
              f_namelen = word_of_int (val r 9), f_frsize = word_of_int (val r 10), f_flags = word_of_int (val r 11)\<rparr>) 0 c)"

definition sys_fstatat64 :: "'h env \<Rightarrow> 'h ctx \<Rightarrow> u32 \<times> 'h ctx" where
  "sys_fstatat64 E c =
     sys_path_call E 1 (\<lambda>x p.
       case hcall E ''fstatat'' [AInt (sint (arg x 0)), AStr p, AOut, AInt (sint (arg x 3))] x of
         (r, c1) \<Rightarrow> sys_stat_common r (arg x 2) c1) c"

definition sys_statx :: "'h env \<Rightarrow> 'h ctx \<Rightarrow> u32 \<times> 'h ctx" where
  "sys_statx E c =
     (case guest_cstr (arg c 1) c of
        None \<Rightarrow> (neg EFAULT, c)
      | Some path \<Rightarrow>
          (case host_ptr (arg c 4) 256 kPageWrite (cmem c) of
             None \<Rightarrow> (neg EFAULT, c)
           | Some buf \<Rightarrow>
               ret_call E ''statx'' [AInt (sint (arg c 0)), AStr (translate_path (e_fs E) (proc c) path),
                 AInt (sint (arg c 2)), AInt (uint (arg c 3)), AWrite buf 256] c))"

definition sys_utimensat :: "'h env \<Rightarrow> bool \<Rightarrow> 'h ctx \<Rightarrow> u32 \<times> 'h ctx" where
  "sys_utimensat E time64 c =
     (let path = (if arg c 1 = 0 then Some ANull
                  else map_option (\<lambda>s. AStr (translate_path (e_fs E) (proc c) s)) (guest_cstr (arg c 1) c));
          step = (if time64 then 16 else 8);
          times = (if arg c 2 = 0 then Some ANull
                   else case read_timespec (arg c 2) time64 c of
                       None \<Rightarrow> None
                     | Some (s0, n0) \<Rightarrow>
                         map_option (\<lambda>(s1, n1). AVals [s0, n0, s1, n1]) (read_timespec (arg c 2 + step) time64 c))
      in case path of
           None \<Rightarrow> (neg EFAULT, c)
         | Some p \<Rightarrow>
             (case times of
                None \<Rightarrow> (neg EFAULT, c)
              | Some tp \<Rightarrow> ret_call E ''utimensat'' [AInt (sint (arg c 0)), p, tp, AInt (sint (arg c 3))] c))"

section \<open>Devices, descriptors, names\<close>

definition kPrSetVma :: int where "kPrSetVma = 0x53564d41"
definition kSeenIoctl :: u64 where "kSeenIoctl = push_bit 33 1"
definition kSeenFcntl :: u64 where "kSeenFcntl = push_bit 34 1"
definition kSeenPrctl :: u64 where "kSeenPrctl = push_bit 35 1"
definition kSeenFutex :: u64 where "kSeenFutex = push_bit 36 1"
definition kSeenSignal :: u64 where "kSeenSignal = push_bit 37 1"

text \<open>The size and the access of an \<open>ioctl\<close> argument: \<open>TCGETS\<close>, \<open>TIOCGWINSZ\<close>, \<open>FIONREAD\<close>, \<open>FIONBIO\<close>.\<close>

definition ioctl_arg :: "u32 \<Rightarrow> (nat \<times> bool) option" where
  "ioctl_arg request =
     (if request = 0x5401 then Some (36, True) else if request = 0x5413 then Some (8, True)
      else if request = 0x541B then Some (4, True) else if request = 0x5421 then Some (4, False) else None)"

definition sys_ioctl :: "'h env \<Rightarrow> 'h ctx \<Rightarrow> u32 \<times> 'h ctx" where
  "sys_ioctl E c =
     (case ioctl_arg (arg c 1) of
        None \<Rightarrow> (neg ENOTTY, note_seen (kSeenIoctl OR ucast (arg c 1)) c)
      | Some (arg_size, written) \<Rightarrow>
          (case host_ptr (arg c 2) (of_nat arg_size) (if written then kPageRead OR kPageWrite else kPageRead) (cmem c) of
             None \<Rightarrow> (neg EFAULT, c)
           | Some p \<Rightarrow> ret_call E ''ioctl'' [AInt (sint (arg c 0)), AInt (uint (arg c 1)),
                         (if written then AReadWrite p arg_size else ARead p arg_size)] c))"

definition sys_fcntl64 :: "'h env \<Rightarrow> 'h ctx \<Rightarrow> u32 \<times> 'h ctx" where
  "sys_fcntl64 E c =
     (if arg c 1 \<in> {0, 1, 2, 3, 4, 1030}
      then ret_call E ''fcntl'' [AInt (sint (arg c 0)), AInt (sint (arg c 1)), AInt (uint (arg c 2))] c
      else (neg EINVAL, note_seen (kSeenFcntl OR ucast (arg c 1)) c))"

definition PR_SET_NAME :: u32 where "PR_SET_NAME = 15"
definition PR_GET_NAME :: u32 where "PR_GET_NAME = 16"

definition sys_prctl :: "'h env \<Rightarrow> 'h ctx \<Rightarrow> u32 \<times> 'h ctx" where
  "sys_prctl E c =
     (let option = arg c 0
      in if sint option = kPrSetVma then (0, c)
         else if option \<in> {3, 4, 38, 39} then
           ret_call E ''prctl'' [AInt (sint option), AInt (uint (arg c 1)), AInt (uint (arg c 2)),
             AInt (uint (arg c 3)), AInt (uint (arg c 4))] c
         else if option = PR_SET_NAME \<or> option = PR_GET_NAME then
           (case host_ptr (arg c 1) 16 (if option = PR_SET_NAME then kPageRead else kPageWrite) (cmem c) of
              None \<Rightarrow> (neg EFAULT, c)
            | Some nm \<Rightarrow> ret_call E ''prctl'' [AInt (sint option), io_arg (option = PR_SET_NAME) nm 16, AInt 0, AInt 0, AInt 0] c)
         else (neg EINVAL, note_seen (kSeenPrctl OR ucast option) c))"

text \<open>\<open>struct utsname\<close> is six fields of 65 bytes; \<open>machine\<close> is the fifth and is overwritten with
  zero padding, as \<open>strncpy\<close> does.\<close>

definition armv8l :: "u8 list" where
  "armv8l = map (\<lambda>ch. of_nat (of_char ch)) ''armv8l''"

definition uname_image :: "u8 list \<Rightarrow> u8 list" where
  "uname_image u = (let b = vec_resize 390 0 u in take 260 b @ vec_resize 65 0 armv8l @ drop 325 b)"

definition sys_uname :: "'h env \<Rightarrow> 'h ctx \<Rightarrow> u32 \<times> 'h ctx" where
  "sys_uname E c =
     (case hcall E ''uname'' [AOut] c of
        (r, c1) \<Rightarrow> if rc r \<noteq> 0 then (neg (err r), c1) else ret_write (arg c 0) (uname_image (blob r)) 0 c1)"

section \<open>Time\<close>

definition sys_clock_get :: "'h env \<Rightarrow> bool \<Rightarrow> bool \<Rightarrow> 'h ctx \<Rightarrow> u32 \<times> 'h ctx" where
  "sys_clock_get E res time64 c =
     (case hcall E (if res then ''clock_getres'' else ''clock_gettime'') [AInt (sint (arg c 0)), AOut] c of
        (r, c1) \<Rightarrow>
          if rc r \<noteq> 0 then (neg (err r), c1)
          else ret_write_opt (arg c 1) (timespec_image time64 (val r 0) (val r 1)) 0 c1)"

definition sys_gettimeofday :: "'h env \<Rightarrow> 'h ctx \<Rightarrow> u32 \<times> 'h ctx" where
  "sys_gettimeofday E c =
     (case hcall E ''gettimeofday'' [AOut, AOut] c of
        (r, c1) \<Rightarrow>
          if rc r \<noteq> 0 then (neg (err r), c1)
          else case ret_write_opt (arg c 0) (timeval_image (val r 0) (val r 1)) 0 c1 of
              (x, c2) \<Rightarrow> if x \<noteq> 0 then (x, c2)
                         else ret_write_opt (arg c 1) (le32 (word_of_int (val r 2)) @ le32 (word_of_int (val r 3))) 0 c2)"

definition sys_clock_nanosleep :: "'h env \<Rightarrow> bool \<Rightarrow> 'h ctx \<Rightarrow> u32 \<times> 'h ctx" where
  "sys_clock_nanosleep E time64 c =
     (case read_timespec (arg c 2) time64 c of
        None \<Rightarrow> (neg EFAULT, c)
      | Some (s, n) \<Rightarrow>
          (case hcall E ''clock_nanosleep'' [AInt (sint (arg c 0)), AInt (sint (arg c 1)), AVals [s, n], AOut] c of
             (r, c1) \<Rightarrow>
               if rc r = int EINTR \<and> arg c 3 \<noteq> 0
               then (case write_timespec (arg c 3) time64 (val r 0) (val r 1) c1 of (b, c2) \<Rightarrow> (- word_of_int (rc r), c2))
               else (- word_of_int (rc r), c1)))"

definition sys_nanosleep :: "'h env \<Rightarrow> 'h ctx \<Rightarrow> u32 \<times> 'h ctx" where
  "sys_nanosleep E c =
     (case read_timespec (arg c 0) False c of
        None \<Rightarrow> (neg EFAULT, c)
      | Some (s, n) \<Rightarrow>
          (case hcall E ''nanosleep'' [AVals [s, n], AOut] c of
             (r, c1) \<Rightarrow>
               if rc r = 0 then (0, c1)
               else if err r = EINTR \<and> arg c 1 \<noteq> 0
               then (case write_timespec (arg c 1) False (val r 0) (val r 1) c1 of (b, c2) \<Rightarrow> (neg (err r), c2))
               else (neg (err r), c1)))"

definition read_itimerval :: "u32 \<Rightarrow> 'h ctx \<Rightarrow> int list option" where
  "read_itimerval addr c =
     map_option (\<lambda>b. let t = itimerval32_of b
                     in [sint (tv_sec (itv_interval t)), sint (tv_usec (itv_interval t)),
                         sint (tv_sec (itv_value t)), sint (tv_usec (itv_value t))]) (read_guest 16 addr c)"

definition itimerval_image :: "hres \<Rightarrow> u8 list" where
  "itimerval_image r = itimerval32_bytes
     \<lparr>itv_interval = \<lparr>tv_sec = word_of_int (val r 0), tv_usec = word_of_int (val r 1)\<rparr>,
      itv_value = \<lparr>tv_sec = word_of_int (val r 2), tv_usec = word_of_int (val r 3)\<rparr>\<rparr>"

definition sys_setitimer :: "'h env \<Rightarrow> 'h ctx \<Rightarrow> u32 \<times> 'h ctx" where
  "sys_setitimer E c =
     (let new = (if arg c 1 = 0 then Some ANull else map_option AVals (read_itimerval (arg c 1) c))
      in case new of
           None \<Rightarrow> (neg EFAULT, c)
         | Some nv \<Rightarrow>
             (case hcall E ''setitimer'' [AInt (sint (arg c 0)), nv, AOut] c of
                (r, c1) \<Rightarrow> if rc r \<noteq> 0 then (neg (err r), c1) else ret_write_opt (arg c 2) (itimerval_image r) 0 c1))"

definition sys_getitimer :: "'h env \<Rightarrow> 'h ctx \<Rightarrow> u32 \<times> 'h ctx" where
  "sys_getitimer E c =
     (case hcall E ''getitimer'' [AInt (sint (arg c 0)), AOut] c of
        (r, c1) \<Rightarrow> if rc r \<noteq> 0 then (neg (err r), c1) else ret_write (arg c 1) (itimerval_image r) 0 c1)"

definition read_itimerspec :: "u32 \<Rightarrow> 'h ctx \<Rightarrow> int list option" where
  "read_itimerspec addr c =
     map_option (\<lambda>b. let t = itimerspec32_of b
                     in [sint (ts_sec (its_interval t)), sint (ts_nsec (its_interval t)),
                         sint (ts_sec (its_value t)), sint (ts_nsec (its_value t))]) (read_guest 16 addr c)"

definition itimerspec_image :: "hres \<Rightarrow> u8 list" where
  "itimerspec_image r = itimerspec32_bytes
     \<lparr>its_interval = \<lparr>ts_sec = word_of_int (val r 0), ts_nsec = word_of_int (val r 1)\<rparr>,
      its_value = \<lparr>ts_sec = word_of_int (val r 2), ts_nsec = word_of_int (val r 3)\<rparr>\<rparr>"

definition sys_timerfd_settime :: "'h env \<Rightarrow> 'h ctx \<Rightarrow> u32 \<times> 'h ctx" where
  "sys_timerfd_settime E c =
     (case read_itimerspec (arg c 2) c of
        None \<Rightarrow> (neg EFAULT, c)
      | Some nv \<Rightarrow>
          (case hcall E ''timerfd_settime'' [AInt (sint (arg c 0)), AInt (sint (arg c 1)), AVals nv, AOut] c of
             (r, c1) \<Rightarrow> if rc r \<noteq> 0 then (neg (err r), c1) else ret_write_opt (arg c 3) (itimerspec_image r) 0 c1))"

definition sys_timerfd_gettime :: "'h env \<Rightarrow> 'h ctx \<Rightarrow> u32 \<times> 'h ctx" where
  "sys_timerfd_gettime E c =
     (case hcall E ''timerfd_gettime'' [AInt (sint (arg c 0)), AOut] c of
        (r, c1) \<Rightarrow> if rc r \<noteq> 0 then (neg (err r), c1) else ret_write (arg c 1) (itimerspec_image r) 0 c1)"

section \<open>What the handlers hand to the host\<close>

lemma host_ptr_has_num:
  "host_ptr addr (of_nat n) need m = Some p \<Longrightarrow> n < 2 ^ 63 \<Longrightarrow> range_has m p n need"
  using host_ptr_has [of addr "of_nat n" need m p] by (simp add: unat_eq_of_nat)

lemma host_ptr_has_lit [intro]:
  "host_ptr addr (numeral n) need m = Some p \<Longrightarrow> numeral n < (2 ^ 63 :: nat) \<Longrightarrow> range_has m p (numeral n) need"
  using host_ptr_has_num [of addr "numeral n" need m p] by simp

lemma io_arg_ok: "arg_ok m (io_arg w p n) \<longleftrightarrow> range_has m p n (if w then kPageRead else kPageWrite)"
  by (simp add: io_arg_def)

lemma ts_arg_ok [simp]: "arg_ok m (ts_arg t)"
  by (simp add: ts_arg_def split: option.splits)

lemma length_timespec_image [simp]: "length (timespec_image b s n) \<le> 16"
  by (simp add: timespec_image_def)

lemma length_timeval_image [simp]: "length (timeval_image s n) = 8"
  by (simp add: timeval_image_def)

lemma length_uname_image [simp]: "length (uname_image u) = 390"
  by (simp add: uname_image_def Let_def)

lemma length_itimer_images [simp]: "length (itimerval_image r) = 16" "length (itimerspec_image r) = 16"
  by (simp_all add: itimerval_image_def itimerspec_image_def)

lemma timespec_image_small [simp]: "length (timespec_image b s n) < 4294967296"
  by (rule le_less_trans [OF length_timespec_image]) simp

lemma gather_iov_ok: "gather_iov w n addr c = Some vs \<Longrightarrow> list_all (arg_ok (cmem c)) vs"
proof (induction n arbitrary: addr vs)
  case (Suc n)
  obtain b base rest where "vs = io_arg w base (unat (iov_len (iovec32_of b))) # rest" "gather_iov w n (addr + 8) c = Some rest"
    and h: "host_ptr (iov_base (iovec32_of b)) (ucast (iov_len (iovec32_of b))) (if w then kPageRead else kPageWrite) (cmem c) = Some base"
    using Suc.prems by (auto simp: Let_def split: option.splits)
  then show ?case using Suc.IH host_ptr_has32 [OF h] by (simp add: io_arg_ok)
qed simp

named_theorems handler_ok \<open>every handler is \<open>sys_ok\<close>\<close>

lemma sys_read_write_ok [handler_ok]: "sys_ok c (snd (sys_read_write E w c))"
  unfolding sys_read_write_def Let_def
  by (intro sys_okI) (auto simp: io_arg_ok intro: host_ptr_has32)

lemma sys_pread_pwrite_ok [handler_ok]: "sys_ok c (snd (sys_pread_pwrite E w c))"
  unfolding sys_pread_pwrite_def Let_def
  by (intro sys_okI) (auto simp: io_arg_ok intro: host_ptr_has32)

lemma sys_readv_writev_ok [handler_ok]: "sys_ok c (snd (sys_readv_writev E w c))"
  unfolding sys_readv_writev_def Let_def
  by (intro sys_okI) (auto dest: gather_iov_ok)

lemma sys_llseek_ok [handler_ok]: "sys_ok c (snd (sys_llseek E c))"
  unfolding sys_llseek_def by (intro sys_okI) simp_all

lemma sys_lseek_ok [handler_ok]: "sys_ok c (snd (sys_lseek E c))"
  unfolding sys_lseek_def by (intro sys_okI) simp_all

lemma sys_fd_pair_ok [handler_ok]:
  "list_all (arg_ok (cmem c)) as \<Longrightarrow> sys_ok c (snd (sys_fd_pair E a nm as c))"
  unfolding sys_fd_pair_def
  by (intro sys_okI) (auto simp: range_has_def dest: host_ptr_has_lit)

lemma sys_pipe2_ok [handler_ok]: "sys_ok c (snd (sys_pipe2 E c))"
  by (simp add: sys_pipe2_def sys_fd_pair_ok)

lemma sys_path_call_ok [handler_ok]:
  "(\<And>p. sys_ok c (snd (k c p))) \<Longrightarrow> sys_ok c (snd (sys_path_call E i k c))"
  unfolding sys_path_call_def by (intro sys_okI) simp_all

lemma sys_two_paths_ok [handler_ok]:
  "(\<And>p q. sys_ok c (snd (k c p q))) \<Longrightarrow> sys_ok c (snd (sys_two_paths E i j k c))"
  unfolding sys_two_paths_def by (intro sys_okI) simp_all

lemma sys_stat_common_ok [sys_okI]: "sys_ok c (snd (sys_stat_common r a c))"
  unfolding sys_stat_common_def by (intro sys_okI) simp_all

lemma sys_statfs_common_ok [sys_okI]: "sys_ok c (snd (sys_statfs_common r a c))"
  unfolding sys_statfs_common_def by (intro sys_okI) simp_all

lemma sys_fstatat64_ok [handler_ok]: "sys_ok c (snd (sys_fstatat64 E c))"
  unfolding sys_fstatat64_def by (intro sys_path_call_ok sys_okI) simp_all

lemma sys_statx_ok [handler_ok]: "sys_ok c (snd (sys_statx E c))"
  unfolding sys_statx_def by (intro sys_okI) (auto dest: host_ptr_has_lit)

lemma sys_utimensat_ok [handler_ok]: "sys_ok c (snd (sys_utimensat E b c))"
  unfolding sys_utimensat_def Let_def by (intro sys_okI) (auto split: if_splits option.splits)

lemma sys_ioctl_ok [handler_ok]: "sys_ok c (snd (sys_ioctl E c))"
proof (cases "ioctl_arg (arg c 1)")
  case None
  then show ?thesis by (simp add: sys_ioctl_def sys_ok_note_seen)
next
  case (Some q)
  obtain n w where q: "q = (n, w)" by fastforce
  then have "n < 2 ^ 63" using Some by (auto simp: ioctl_arg_def split: if_splits)
  with Some q show ?thesis unfolding sys_ioctl_def
    by (simp only: option.case prod.case, intro sys_okI) (auto dest: host_ptr_has_num)
qed

lemma sys_fcntl64_ok [handler_ok]: "sys_ok c (snd (sys_fcntl64 E c))"
  unfolding sys_fcntl64_def by (intro sys_okI) simp_all

lemma sys_prctl_ok [handler_ok]: "sys_ok c (snd (sys_prctl E c))"
  unfolding sys_prctl_def Let_def by (intro sys_okI) (auto simp: io_arg_ok intro: host_ptr_has_lit)

lemma sys_uname_ok [handler_ok]: "sys_ok c (snd (sys_uname E c))"
  unfolding sys_uname_def by (intro sys_okI) simp_all

lemma sys_clock_get_ok [handler_ok]: "sys_ok c (snd (sys_clock_get E b d c))"
  unfolding sys_clock_get_def by (intro sys_okI) simp_all

lemma sys_ok_case_write_opt [sys_okI]:
  "length bs < 2 ^ 32 \<Longrightarrow> (\<And>x c1. sys_ok c1 (snd (body x c1))) \<Longrightarrow>
   sys_ok c (snd (case ret_write_opt a bs ok c of (x, c1) \<Rightarrow> body x c1))"
  by (rule sys_ok_case_pair [OF sys_ok_ret_write_opt])

lemma sys_gettimeofday_ok [handler_ok]: "sys_ok c (snd (sys_gettimeofday E c))"
  unfolding sys_gettimeofday_def by (intro sys_okI) simp_all

lemma sys_ok_timespec_option [sys_okI]:
  "sys_ok c (snd x) \<Longrightarrow> (\<And>s n. sys_ok c (snd (f s n))) \<Longrightarrow>
   sys_ok c (snd (case (v :: (int \<times> int) option) of None \<Rightarrow> x | Some (s, n) \<Rightarrow> f s n))"
  by (simp split: option.splits prod.splits)

lemma sys_clock_nanosleep_ok [handler_ok]: "sys_ok c (snd (sys_clock_nanosleep E b c))"
  unfolding sys_clock_nanosleep_def write_timespec_def
  by (rule sys_ok_timespec_option; intro sys_okI) simp_all

lemma sys_nanosleep_ok [handler_ok]: "sys_ok c (snd (sys_nanosleep E c))"
  unfolding sys_nanosleep_def write_timespec_def
  by (rule sys_ok_timespec_option; intro sys_okI) simp_all

lemma sys_setitimer_ok [handler_ok]: "sys_ok c (snd (sys_setitimer E c))"
  unfolding sys_setitimer_def Let_def by (intro sys_okI) (auto split: if_splits)

lemma sys_getitimer_ok [handler_ok]: "sys_ok c (snd (sys_getitimer E c))"
  unfolding sys_getitimer_def by (intro sys_okI) simp_all

lemma sys_timerfd_settime_ok [handler_ok]: "sys_ok c (snd (sys_timerfd_settime E c))"
  unfolding sys_timerfd_settime_def by (intro sys_okI) simp_all

lemma sys_timerfd_gettime_ok [handler_ok]: "sys_ok c (snd (sys_timerfd_gettime E c))"
  unfolding sys_timerfd_gettime_def by (intro sys_okI) simp_all

end
