(* ===== verification/Syscall_Proc.thy ===== *)
theory Syscall_Proc
  imports Syscall_Io
begin

text \<open>
  The system calls of \<open>core/src/syscalls.cpp\<close> on signals, futexes, limits, resources and waiting.
\<close>

section \<open>Signals\<close>

definition sys_rt_sigaction :: "'h ctx \<Rightarrow> u32 \<times> 'h ctx" where
  "sys_rt_sigaction c =
     (let sig = arg c 0;
          has_new = (arg c 1 \<noteq> 0);
          install = (\<lambda>act (x, c1). if x \<noteq> 0 then (x, c1)
             else (0, if has_new then c1\<lparr>proc := (proc c1)\<lparr>sigactions := (sigactions (proc c1))(unat sig := act)\<rparr>\<rparr> else c1));
          old = ret_write_opt (arg c 2) (ksigaction32_bytes (sigactions (proc c) (unat sig))) 0 c
      in if sig < 1 \<or> sig > 64 \<or> arg c 3 \<noteq> 8 then (neg EINVAL, c)
         else if has_new then
           if unat sig = SIGKILL \<or> unat sig = SIGSTOP then (neg EINVAL, c)
           else case read_guest 20 (arg c 1) c of
               None \<Rightarrow> (neg EFAULT, c)
             | Some b \<Rightarrow>
                 (let act = ksigaction32_of b
                  in install (if sa_handler act > 1 \<and> in_guest_linker (sa_handler act AND NOT 1) (proc c)
                              then zero_action else act) old)
         else install zero_action old)"

definition SIG_BLOCK :: u32 where "SIG_BLOCK = 0"
definition SIG_UNBLOCK :: u32 where "SIG_UNBLOCK = 1"
definition SIG_SETMASK :: u32 where "SIG_SETMASK = 2"

definition new_sigmask :: "u32 \<Rightarrow> u64 \<Rightarrow> u64 \<Rightarrow> u64 option" where
  "new_sigmask how old s =
     (if how = SIG_BLOCK then Some (old OR s)
      else if how = SIG_UNBLOCK then Some (old AND NOT s)
      else if how = SIG_SETMASK then Some s else None)"

definition sys_rt_sigprocmask :: "'h ctx \<Rightarrow> u32 \<times> 'h ctx" where
  "sys_rt_sigprocmask c =
     (let old_mask = sigmask (cthread c)
      in if arg c 3 \<noteq> 8 then (neg EINVAL, c)
         else if arg c 1 \<noteq> 0 then
           (case read_guest 8 (arg c 1) c of
              None \<Rightarrow> (neg EFAULT, c)
            | Some b \<Rightarrow>
                (case new_sigmask (arg c 0) old_mask (of_le64 b) of
                   None \<Rightarrow> (neg EINVAL, c)
                 | Some m \<Rightarrow>
                     ret_write_opt (arg c 2) (le64 old_mask) 0 (set_thread (\<lambda>t. t\<lparr>sigmask := m AND NOT kUnblockable\<rparr>) c)))
         else ret_write_opt (arg c 2) (le64 old_mask) 0 c)"

definition sys_sigaltstack :: "'h ctx \<Rightarrow> u32 \<times> 'h ctx" where
  "sys_sigaltstack c =
     (let has_new = (arg c 0 \<noteq> 0);
          old = ret_write_opt (arg c 1) (stack32_bytes (altstack (cthread c))) 0 c
      in if has_new then
           (case read_guest 12 (arg c 0) c of
              None \<Rightarrow> (neg EFAULT, c)
            | Some b \<Rightarrow>
                (case old of (x, c1) \<Rightarrow>
                   if x \<noteq> 0 then (x, c1) else (0, set_thread (\<lambda>t. t\<lparr>altstack := stack32_of b\<rparr>) c1)))
         else old)"

definition sys_send_signal ::
    "'h env \<Rightarrow> bool \<Rightarrow> int \<Rightarrow> int \<Rightarrow> u32 \<Rightarrow> siginfo32 option \<Rightarrow> int \<Rightarrow> 'h ctx \<Rightarrow> u32 \<times> 'h ctx" where
  "sys_send_signal E process_directed tgid tid' sig queued_info code c =
     (if sig > 64 then (neg EINVAL, c)
      else case hcall E ''getpid'' [] c of
        (rp, c1) \<Rightarrow>
          (case (case queued_info of
                   Some q \<Rightarrow> (q, c1)
                 | None \<Rightarrow>
                     (case hcall E ''getuid'' [] c1 of
                        (ru, c2) \<Rightarrow> (zero_info\<lparr>si_code := word_of_int code,
                           si_fields := (si_fields zero_info)[0 := word_of_int (rc rp), 1 := word_of_int (rc ru)]\<rparr>, c2))) of
             (info0, c2) \<Rightarrow>
               (let info = info0\<lparr>si_signo := sig\<rparr>
                in if process_directed then
                     if tgid \<noteq> rc rp \<and> tgid \<noteq> 0 then (neg EPERM, note_seen (kSeenSignal OR ucast sig) c2)
                     else (0, if sig \<noteq> 0 then set_thread (post_signal info) c2 else c2)
                   else if tgid \<noteq> -1 \<and> tgid \<noteq> rc rp then (neg ESRCH, c2)
                   else if sig = 0 then (if find_thread tid' (proc c2) \<noteq> None then 0 else neg ESRCH, c2)
                   else case post_signal_to tid' info (proc c2) of
                       (found, p') \<Rightarrow> (if found then 0 else neg ESRCH, c2\<lparr>proc := p'\<rparr>))))"

definition sys_rt_tgsigqueueinfo :: "'h env \<Rightarrow> int \<Rightarrow> 'h ctx \<Rightarrow> u32 \<times> 'h ctx" where
  "sys_rt_tgsigqueueinfo E si_queue c =
     (if arg c 3 = 0 then sys_send_signal E False (sint (arg c 0)) (sint (arg c 1)) (arg c 2) None si_queue c
      else case read_guest 128 (arg c 3) c of
          None \<Rightarrow> (neg EFAULT, c)
        | Some b \<Rightarrow> sys_send_signal E False (sint (arg c 0)) (sint (arg c 1)) (arg c 2) (Some (siginfo32_of b)) si_queue c)"

definition sys_rt_sigpending :: "'h ctx \<Rightarrow> u32 \<times> 'h ctx" where
  "sys_rt_sigpending c =
     (if arg c 1 \<noteq> 8 then (neg EINVAL, c) else ret_write (arg c 0) (le64 (pending_signals (cthread c))) 0 c)"

section \<open>Futexes and waiting\<close>

definition sys_futex :: "'h env \<Rightarrow> bool \<Rightarrow> 'h ctx \<Rightarrow> u32 \<times> 'h ctx" where
  "sys_futex E time64 c =
     (let cmd = arg c 1 AND NOT 0x180
      in case host_ptr (arg c 0) 4 kPageRead (cmem c) of
           None \<Rightarrow> (neg EFAULT, c)
         | Some uaddr \<Rightarrow>
             (if cmd = 0 \<or> cmd = 9 then
                (case (if arg c 3 = 0 then Some None else map_option Some (read_timespec (arg c 3) time64 c)) of
                   None \<Rightarrow> (neg EFAULT, c)
                 | Some t \<Rightarrow>
                     ret_call E ''futex'' [ARead uaddr 4, AInt (sint (arg c 1)), AInt (uint (arg c 2)), ts_arg t, ANull, AInt (uint (arg c 5))] c)
              else if cmd = 1 \<or> cmd = 10 then
                ret_call E ''futex'' [ARead uaddr 4, AInt (sint (arg c 1)), AInt (uint (arg c 2)), ANull, ANull, AInt (uint (arg c 5))] c
              else (neg ENOSYS, note_seen (kSeenFutex OR ucast cmd) c)))"

definition sys_poll :: "'h env \<Rightarrow> bool \<Rightarrow> bool \<Rightarrow> 'h ctx \<Rightarrow> u32 \<times> 'h ctx" where
  "sys_poll E ppoll time64 c =
     (let nfds = arg c 1
      in if nfds > 65536 then (neg EINVAL, c)
         else case host_ptr (arg c 0) (ucast nfds * 8) (kPageRead OR kPageWrite) (cmem c) of
             None \<Rightarrow> (neg EFAULT, c)
           | Some fds \<Rightarrow>
               if \<not> ppoll then ret_call E ''poll'' [AReadWrite fds (unat nfds * 8), AInt (uint nfds), AInt (sint (arg c 2))] c
               else case (if arg c 2 = 0 then Some None else map_option Some (read_timespec (arg c 2) time64 c)) of
                   None \<Rightarrow> (neg EFAULT, c)
                 | Some t \<Rightarrow> ret_call E ''ppoll'' [AReadWrite fds (unat nfds * 8), AInt (uint nfds), ts_arg t, ANull] c)"

text \<open>A guest \<open>fd_set\<close> of 128 bytes, null, or a fault.\<close>

definition guest_fd_set :: "u32 \<Rightarrow> 'h ctx \<Rightarrow> harg option" where
  "guest_fd_set addr c =
     (if addr = 0 then Some ANull
      else map_option (\<lambda>p. AReadWrite p 128) (host_ptr addr 128 (kPageRead OR kPageWrite) (cmem c)))"

definition sys_select :: "'h env \<Rightarrow> bool \<Rightarrow> bool \<Rightarrow> 'h ctx \<Rightarrow> u32 \<times> 'h ctx" where
  "sys_select E pselect time64 c =
     (let nfds = sint (arg c 0)
      in if nfds < 0 \<or> nfds > 1024 then (neg EINVAL, c)
         else case (guest_fd_set (arg c 1) c, guest_fd_set (arg c 2) c, guest_fd_set (arg c 3) c) of
             (Some r, Some w, Some e) \<Rightarrow>
               if \<not> pselect then
                 (case (if arg c 4 = 0 then Some ANull
                        else map_option (\<lambda>b. let t = timeval32_of b in AVals [sint (tv_sec t), sint (tv_usec t)]) (read_guest 8 (arg c 4) c)) of
                    None \<Rightarrow> (neg EFAULT, c)
                  | Some tv \<Rightarrow>
                      (case hcall E ''select'' [AInt nfds, r, w, e, tv] c of
                         (res, c1) \<Rightarrow>
                           if rc res < 0 then (neg (err res), c1)
                           else if arg c 4 = 0 then (word_of_int (rc res), c1)
                           else case write_guest (arg c 4) (timeval_image (val res 0) (val res 1)) c1 of
                               (b, c2) \<Rightarrow> (word_of_int (rc res), c2)))
               else
                 (case (if arg c 4 = 0 then Some None else map_option Some (read_timespec (arg c 4) time64 c)) of
                    None \<Rightarrow> (neg EFAULT, c)
                  | Some t \<Rightarrow> ret_call E ''pselect'' [AInt nfds, r, w, e, ts_arg t, ANull] c)
           | _ \<Rightarrow> (neg EFAULT, c))"

text \<open>\<open>struct epoll_event\<close> is 16 bytes on the 64-bit ARM host.\<close>

definition sys_epoll_wait :: "'h env \<Rightarrow> 'h ctx \<Rightarrow> u32 \<times> 'h ctx" where
  "sys_epoll_wait E c =
     (let max_events = sint (arg c 2)
      in if max_events \<le> 0 \<or> max_events > 65536 then (neg EINVAL, c)
         else case host_ptr (arg c 1) (word_of_int max_events * 16) kPageWrite (cmem c) of
             None \<Rightarrow> (neg EFAULT, c)
           | Some events \<Rightarrow>
               ret_call E ''epoll_pwait'' [AInt (sint (arg c 0)), AWrite events (nat max_events * 16), AInt max_events,
                 AInt (sint (arg c 3)), ANull] c)"

definition sys_epoll_ctl :: "'h env \<Rightarrow> 'h ctx \<Rightarrow> u32 \<times> 'h ctx" where
  "sys_epoll_ctl E c =
     (case (if arg c 3 = 0 then Some ANull else map_option (\<lambda>p. ARead p 16) (host_ptr (arg c 3) 16 kPageRead (cmem c))) of
        None \<Rightarrow> (neg EFAULT, c)
      | Some event \<Rightarrow> ret_call E ''epoll_ctl'' [AInt (sint (arg c 0)), AInt (sint (arg c 1)), AInt (sint (arg c 2)), event] c)"

section \<open>Limits and resources\<close>

definition clamp32 :: "int \<Rightarrow> u32" where
  "clamp32 v = (if v > 0xFFFFFFFF then 0xFFFFFFFF else word_of_int v)"

definition sys_ugetrlimit :: "'h env \<Rightarrow> 'h ctx \<Rightarrow> u32 \<times> 'h ctx" where
  "sys_ugetrlimit E c =
     (case hcall E ''getrlimit'' [AInt (sint (arg c 0)), AOut] c of
        (r, c1) \<Rightarrow> if rc r \<noteq> 0 then (neg (err r), c1)
                   else ret_write (arg c 1) (rlimit32_bytes \<lparr>rlim_cur = clamp32 (val r 0), rlim_max = clamp32 (val r 1)\<rparr>) 0 c1)"

definition sys_prlimit64 :: "'h env \<Rightarrow> 'h ctx \<Rightarrow> u32 \<times> 'h ctx" where
  "sys_prlimit64 E c =
     (case (if arg c 2 = 0 then Some ANull else map_option (\<lambda>p. ARead p 16) (host_ptr (arg c 2) 16 kPageRead (cmem c))) of
        None \<Rightarrow> (neg EFAULT, c)
      | Some new_limit \<Rightarrow>
          (case (if arg c 3 = 0 then Some ANull else map_option (\<lambda>p. AWrite p 16) (host_ptr (arg c 3) 16 kPageWrite (cmem c))) of
             None \<Rightarrow> (neg EFAULT, c)
           | Some old_limit \<Rightarrow> ret_call E ''prlimit64'' [AInt (sint (arg c 0)), AInt (sint (arg c 1)), new_limit, old_limit] c))"

definition sys_times :: "'h env \<Rightarrow> 'h ctx \<Rightarrow> u32 \<times> 'h ctx" where
  "sys_times E c =
     (case hcall E ''times'' [AOut] c of
        (r, c1) \<Rightarrow>
          if rc r = -1 then (neg (err r), c1)
          else ret_write_opt (arg c 0) (tms32_bytes \<lparr>tms_utime = word_of_int (val r 0), tms_stime = word_of_int (val r 1),
                 tms_cutime = word_of_int (val r 2), tms_cstime = word_of_int (val r 3)\<rparr>) (word_of_int (rc r)) c1)"

text \<open>The fields of \<open>struct rusage\<close>: user time, system time, then the fourteen counters.\<close>

definition fill_rusage32 :: "hres \<Rightarrow> nat \<Rightarrow> rusage32" where
  "fill_rusage32 r k =
     \<lparr>ru_utime = \<lparr>tv_sec = word_of_int (val r k), tv_usec = word_of_int (val r (k + 1))\<rparr>,
      ru_stime = \<lparr>tv_sec = word_of_int (val r (k + 2)), tv_usec = word_of_int (val r (k + 3))\<rparr>,
      ru_fields = map (\<lambda>i. word_of_int (val r (k + 4 + i))) [0..<14]\<rparr>"

definition sys_getrusage :: "'h env \<Rightarrow> 'h ctx \<Rightarrow> u32 \<times> 'h ctx" where
  "sys_getrusage E c =
     (case hcall E ''getrusage'' [AInt (sint (arg c 0)), AOut] c of
        (r, c1) \<Rightarrow> if rc r \<noteq> 0 then (neg (err r), c1) else ret_write (arg c 1) (rusage32_bytes (fill_rusage32 r 0)) 0 c1)"

text \<open>\<open>wait4\<close>: value 0 is the status, the usage follows.\<close>

definition sys_wait4 :: "'h env \<Rightarrow> 'h ctx \<Rightarrow> u32 \<times> 'h ctx" where
  "sys_wait4 E c =
     (case hcall E ''wait4'' [AInt (sint (arg c 0)), AOut, AInt (sint (arg c 2)), AOut] c of
        (r, c1) \<Rightarrow>
          if rc r < 0 then (neg (err r), c1)
          else case ret_write_opt (arg c 1) (le32 (word_of_int (val r 0))) 0 c1 of
              (x, c2) \<Rightarrow>
                if x \<noteq> 0 then (x, c2)
                else if arg c 3 = 0 then (word_of_int (rc r), c2)
                else case write_guest (arg c 3) (rusage32_bytes (fill_rusage32 r 1)) c2 of
                    (b, c3) \<Rightarrow> (word_of_int (rc r), c3))"

section \<open>System information\<close>

lemma grow_unit_guard: "(b :: u64) div 2 ^ k > 0xFFFFFFFF \<Longrightarrow> k < 32"
proof (rule ccontr)
  assume g: "b div 2 ^ k > 0xFFFFFFFF" and "\<not> k < 32"
  show False
  proof (cases "k < 64")
    case True
    then have "unat (2 ^ k :: u64) = 2 ^ k" using unat_eq_of_nat [where 'a = 64 and n = "2 ^ k"] power_strict_increasing [of k 64 "2 :: nat"] by simp
    then have "unat (b div 2 ^ k) = unat b div 2 ^ k" by (simp add: unat_div)
    also have "\<dots> \<le> unat b div 2 ^ 32" using \<open>\<not> k < 32\<close> by (intro div_le_mono2 power_increasing) simp_all
    also have "\<dots> < 2 ^ 32" using unat_less_u64 [of b] by (simp add: div_less_iff_less_mult)
    finally show False using g by (simp add: word_less_nat_alt)
  next
    case False
    then have z: "(2 ^ k :: u64) = 0" by simp
    show False using g unfolding z by simp
  qed
qed

text \<open>\<open>while (b / guest_unit > 0xFFFFFFFF) guest_unit <<= 1\<close>; the unit doubles at most 32 times
  because \<open>b\<close> is below \<open>2 ^ 64\<close>.\<close>

function grow_unit :: "u64 \<Rightarrow> nat \<Rightarrow> nat" where
  "grow_unit b k = (if b div 2 ^ k > 0xFFFFFFFF then grow_unit b (k + 1) else k)"
  by pat_completeness auto

termination
  by (relation "measure (\<lambda>(b, k). 64 - k)") (auto dest: grow_unit_guard)

declare grow_unit.simps [simp del]

text \<open>The shift of the unit after the loop over the eight sizes.\<close>

definition guest_unit_shift :: "u64 list \<Rightarrow> nat" where
  "guest_unit_shift bs = fold grow_unit bs 0"

text \<open>The fields of \<open>struct sysinfo\<close>: uptime, three loads, the eight sizes (total, free, shared and
  buffer RAM, total and free swap, total and free high memory), processes, unit.\<close>

definition sysinfo_bytes :: "hres \<Rightarrow> u64 list" where
  "sysinfo_bytes r =
     (let unit = (if (word_of_int (val r 13) :: u32) \<noteq> 0 then ucast (word_of_int (val r 13) :: u32) else 1)
      in map (\<lambda>i. word_of_int (val r (4 + i)) * unit) [0..<8])"

definition sysinfo_image :: "hres \<Rightarrow> sysinfo32" where
  "sysinfo_image r =
     (let bs = sysinfo_bytes r; u = 2 ^ guest_unit_shift bs; q = (\<lambda>i. ucast (bs ! i div u) :: u32)
      in \<lparr>uptime = word_of_int (val r 0), loads = map (\<lambda>i. word_of_int (val r (1 + i))) [0..<3],
          totalram = q 0, freeram = q 1, sharedram = q 2, bufferram = q 3, totalswap = q 4, freeswap = q 5,
          procs = word_of_int (val r 12), totalhigh = q 6, freehigh = q 7, mem_unit = ucast u\<rparr>)"

definition sys_sysinfo :: "'h env \<Rightarrow> 'h ctx \<Rightarrow> u32 \<times> 'h ctx" where
  "sys_sysinfo E c =
     (case hcall E ''sysinfo'' [AOut] c of
        (r, c1) \<Rightarrow> if rc r \<noteq> 0 then (neg (err r), c1) else ret_write (arg c 0) (sysinfo32_bytes (sysinfo_image r)) 0 c1)"

section \<open>What the handlers hand to the host\<close>

lemma sys_rt_sigaction_ok [handler_ok]: "sys_ok c (snd (sys_rt_sigaction c))"
proof -
  have inst: "sys_ok c (snd ((\<lambda>act (x, c1). if x \<noteq> 0 then (x, c1)
      else (0, if b then c1\<lparr>proc := (proc c1)\<lparr>sigactions := (sigactions (proc c1))(k := act)\<rparr>\<rparr> else c1)) act
      (ret_write_opt a bs 0 c)))" if "length bs < 2 ^ 32" for act b k a bs
  proof -
    obtain x c1 where w: "ret_write_opt a bs 0 c = (x, c1)" by fastforce
    then have "sys_ok c c1" using sys_ok_ret_write_opt [OF that, of c a 0] by simp
    then show ?thesis using w by (auto simp: sys_ok_def)
  qed
  have "length (ksigaction32_bytes s) < 2 ^ 32" for s by simp
  then show ?thesis unfolding sys_rt_sigaction_def Let_def
    by (intro sys_ok_if sys_ok_option inst) (simp_all add: sys_ok_refl)
qed

lemma sys_rt_sigprocmask_ok [handler_ok]: "sys_ok c (snd (sys_rt_sigprocmask c))"
proof -
  have "sys_ok c (snd (ret_write_opt a bs 0 (set_thread f c)))" if "length bs < 2 ^ 32" "thread_ok (cthread c) (f (cthread c))" for a bs f
    using sys_ok_trans [OF sys_ok_set_thread [of c f, OF that(2)] sys_ok_ret_write_opt [OF that(1)]] .
  moreover have "thread_ok t (t\<lparr>sigmask := m AND NOT kUnblockable\<rparr>)" for t m by (simp add: thread_ok_def and.assoc)
  ultimately show ?thesis unfolding sys_rt_sigprocmask_def Let_def by (intro sys_ok_if sys_ok_option) (simp_all add: sys_okI)
qed

lemma sys_sigaltstack_ok [handler_ok]: "sys_ok c (snd (sys_sigaltstack c))"
  unfolding sys_sigaltstack_def Let_def by (intro sys_okI) (simp_all add: thread_ok_def)

lemma sys_ok_proc_update:
  "pmem p' = cmem c \<Longrightarrow> thread_ok (cthread c) (theap p' (thr c)) \<Longrightarrow> sys_ok c (c\<lparr>proc := p'\<rparr>)"
  by (rule sys_ok_same) simp_all

lemma post_signal_kept [simp]: "thread_ok t (post_signal i t)"
  by (auto simp: thread_ok_def post_signal_def wake_def Let_def)

lemma post_signal_to_kept: "post_signal_to t i p = (b, p') \<Longrightarrow> thread_ok (theap p tp) (theap p' tp)"
  by (auto simp: post_signal_to_def upd_thread_def split: option.splits if_splits)

lemma post_signal_to_mem: "post_signal_to t i p = (b, p') \<Longrightarrow> pmem p' = pmem p"
  by (auto simp: post_signal_to_def split: option.splits if_splits)

lemma sys_send_signal_ok [handler_ok]: "sys_ok c (snd (sys_send_signal E pd tg td sg q cd c))"
  unfolding sys_send_signal_def
proof (intro sys_ok_if sys_ok_case_hcall)
  fix rp c1
  let ?v = "(case q of Some q \<Rightarrow> (q, c1) | None \<Rightarrow> (case hcall E ''getuid'' [] c1 of
      (ru, c2) \<Rightarrow> (zero_info\<lparr>si_code := word_of_int cd,
         si_fields := (si_fields zero_info)[0 := word_of_int (rc rp), 1 := word_of_int (rc ru)]\<rparr>, c2)))"
  have "sys_ok c1 (snd ?v)" by (intro sys_okI) simp_all
  then show "sys_ok c1 (snd (case ?v of (info0, c2) \<Rightarrow>
      let info = info0\<lparr>si_signo := sg\<rparr>
      in if pd then if tg \<noteq> rc rp \<and> tg \<noteq> 0 then (neg EPERM, note_seen (kSeenSignal OR ucast sg) c2)
           else (0, if sg \<noteq> 0 then set_thread (post_signal info) c2 else c2)
         else if tg \<noteq> -1 \<and> tg \<noteq> rc rp then (neg ESRCH, c2)
         else if sg = 0 then (if find_thread td (proc c2) \<noteq> None then 0 else neg ESRCH, c2)
         else case post_signal_to td info (proc c2) of
             (found, p') \<Rightarrow> (if found then 0 else neg ESRCH, c2\<lparr>proc := p'\<rparr>)))"
    by (rule sys_ok_case_pair)
      (auto simp: Let_def sys_okI intro!: sys_ok_proc_update dest: post_signal_to_mem post_signal_to_kept split: prod.splits)
qed (simp_all add: sys_ok_refl)

lemma sys_rt_tgsigqueueinfo_ok [handler_ok]: "sys_ok c (snd (sys_rt_tgsigqueueinfo E k c))"
  unfolding sys_rt_tgsigqueueinfo_def by (intro sys_okI sys_send_signal_ok)

lemma sys_rt_sigpending_ok [handler_ok]: "sys_ok c (snd (sys_rt_sigpending c))"
  unfolding sys_rt_sigpending_def by (intro sys_okI) simp_all

lemma sys_futex_ok [handler_ok]: "sys_ok c (snd (sys_futex E b c))"
  unfolding sys_futex_def Let_def by (intro sys_okI) (auto dest: host_ptr_has_lit)

lemma unat_mult_small:
  "unat (x :: u32) \<le> 65536 \<Longrightarrow> unat (ucast x * 8 :: u64) = unat x * 8"
  by (simp add: unat_word_ariths)

lemma sys_poll_ok [handler_ok]: "sys_ok c (snd (sys_poll E b d c))"
proof (cases "arg c 1 > 65536")
  case True
  then show ?thesis by (simp add: sys_poll_def sys_ok_refl)
next
  case False
  then have n: "unat (ucast (arg c 1) * 8 :: u64) = unat (arg c 1) * 8"
    by (intro unat_mult_small) (simp add: word_less_nat_alt)
  have "unat (arg c 1) \<le> 65536" using False by (simp add: word_less_nat_alt)
  then have "range_has (cmem c) p (unat (arg c 1) * 8) need"
    if "host_ptr a (ucast (arg c 1) * 8) need (cmem c) = Some p" for a p need
    using host_ptr_has [OF that] unfolding n by simp
  then show ?thesis unfolding sys_poll_def Let_def by (intro sys_okI) auto
qed

lemma guest_fd_set_ok: "guest_fd_set a c = Some x \<Longrightarrow> arg_ok (cmem c) x"
  by (auto simp: guest_fd_set_def split: if_splits dest: host_ptr_has_lit)

lemma sys_select_ok [handler_ok]: "sys_ok c (snd (sys_select E b d c))"
proof (cases "guest_fd_set (arg c 1) c = None \<or> guest_fd_set (arg c 2) c = None \<or> guest_fd_set (arg c 3) c = None")
  case True
  then show ?thesis by (auto simp: sys_select_def Let_def sys_ok_refl split: option.splits)
next
  case False
  then obtain r w e where f: "guest_fd_set (arg c 1) c = Some r" "guest_fd_set (arg c 2) c = Some w" "guest_fd_set (arg c 3) c = Some e"
    by auto
  note ok = f [THEN guest_fd_set_ok]
  show ?thesis unfolding sys_select_def Let_def f
    by (simp only: prod.case option.case, intro sys_okI) (auto simp: ok split: if_splits)
qed

lemma sys_epoll_wait_ok [handler_ok]: "sys_ok c (snd (sys_epoll_wait E c))"
proof -
  have "range_has (cmem c) p (nat n * 16) need"
    if "host_ptr a (word_of_int n * 16) need (cmem c) = Some p" "0 < n" "n \<le> 65536" for a p need n
  proof -
    have "unat (word_of_int n * 16 :: u64) = nat n * 16"
    proof -
      have "word_of_int n * 16 = (of_nat (nat n * 16) :: u64)" using that(2) by simp
      moreover have "nat n * 16 < 2 ^ LENGTH(64)" using that(3) by simp
      ultimately show ?thesis by (metis unat_eq_of_nat)
    qed
    then show ?thesis using host_ptr_has [OF that(1)] that(3) by simp
  qed
  then show ?thesis unfolding sys_epoll_wait_def Let_def by (intro sys_okI) auto
qed

lemma sys_epoll_ctl_ok [handler_ok]: "sys_ok c (snd (sys_epoll_ctl E c))"
  unfolding sys_epoll_ctl_def by (intro sys_okI) (auto split: if_splits dest: host_ptr_has_lit)

lemma sys_ugetrlimit_ok [handler_ok]: "sys_ok c (snd (sys_ugetrlimit E c))"
  unfolding sys_ugetrlimit_def by (intro sys_okI) simp_all

lemma sys_prlimit64_ok [handler_ok]: "sys_ok c (snd (sys_prlimit64 E c))"
  unfolding sys_prlimit64_def by (intro sys_okI) (auto split: if_splits dest: host_ptr_has_lit)

lemma sys_times_ok [handler_ok]: "sys_ok c (snd (sys_times E c))"
  unfolding sys_times_def by (intro sys_okI) simp_all

lemma sys_getrusage_ok [handler_ok]: "sys_ok c (snd (sys_getrusage E c))"
  unfolding sys_getrusage_def by (intro sys_okI) simp_all

lemma sys_wait4_ok [handler_ok]: "sys_ok c (snd (sys_wait4 E c))"
  unfolding sys_wait4_def by (intro sys_okI) simp_all

lemma sys_sysinfo_ok [handler_ok]: "sys_ok c (snd (sys_sysinfo E c))"
  unfolding sys_sysinfo_def by (intro sys_okI) simp_all

section \<open>The memory unit of sysinfo\<close>

lemma unat_div_unit: "k \<le> 32 \<Longrightarrow> unat ((b :: u64) div 2 ^ k) = unat b div 2 ^ k"
proof -
  assume "k \<le> 32"
  then have "(2 :: nat) ^ k < 2 ^ 64" by (intro power_strict_increasing) simp_all
  then have "unat (2 ^ k :: u64) = 2 ^ k" using unat_eq_of_nat [where 'a = 64 and n = "2 ^ k"] by simp
  then show ?thesis by (simp add: unat_div)
qed

lemma grow_unit_result:
  "k \<le> 32 \<Longrightarrow> k \<le> grow_unit b k \<and> grow_unit b k \<le> 32 \<and> unat b div 2 ^ grow_unit b k < 2 ^ 32 \<and>
   (grow_unit b k = k \<or> 2 ^ 32 \<le> unat b div 2 ^ (grow_unit b k - 1))"
proof (induction b k rule: grow_unit.induct)
  case (1 b k)
  note d = unat_div_unit [OF "1.prems", of b]
  show ?case
  proof (cases "b div 2 ^ k > 0xFFFFFFFF")
    case True
    have "2 ^ 32 \<le> unat b div 2 ^ k" using True d by (simp add: word_less_nat_alt)
    moreover have "grow_unit b k = grow_unit b (k + 1)" using True by (subst grow_unit.simps) simp
    moreover have "k + 1 \<le> 32" using grow_unit_guard [OF True] by simp
    ultimately show ?thesis using "1.IH" [OF True] by (auto split: if_splits)
  next
    case False
    have "grow_unit b k = k" using False by (subst grow_unit.simps) simp
    moreover have "unat b div 2 ^ k < 2 ^ 32" using False d by (simp add: word_less_nat_alt)
    ultimately show ?thesis using "1.prems" by simp
  qed
qed

lemma fold_grow_unit:
  "k \<le> 32 \<Longrightarrow> let n = fold grow_unit bs k in k \<le> n \<and> n \<le> 32 \<and> (\<forall>b \<in> set bs. unat b div 2 ^ n < 2 ^ 32) \<and>
   (n = k \<or> (\<exists>b \<in> set bs. 2 ^ 32 \<le> unat b div 2 ^ (n - 1)))"
proof (induction bs arbitrary: k)
  case (Cons b bs)
  let ?k = "grow_unit b k" and ?n = "fold grow_unit bs (grow_unit b k)"
  note g = grow_unit_result [OF Cons.prems, of b]
  then have ih: "?k \<le> ?n" "?n \<le> 32" "\<forall>b \<in> set bs. unat b div 2 ^ ?n < 2 ^ 32"
    "?n = ?k \<or> (\<exists>b \<in> set bs. 2 ^ 32 \<le> unat b div 2 ^ (?n - 1))" using Cons.IH [of ?k] by (auto simp: Let_def)
  have "unat b div 2 ^ ?n \<le> unat b div 2 ^ ?k" using ih(1) by (intro div_le_mono2 power_increasing) simp_all
  then have "unat b div 2 ^ ?n < 2 ^ 32" using g by linarith
  then show ?case using ih g by (auto simp: Let_def)
qed simp

text \<open>
  C36: The loops that choose the memory unit of \<open>sysinfo\<close> end: whatever 64-bit sizes the host reports,
  the unit doubles at most 32 times, every size in units fits the 32-bit field it is written to, and
  the unit is the smallest such power of two.
\<close>

theorem sysinfo_unit_terminates:
  "guest_unit_shift bs \<le> 32 \<and>
   (\<forall>b \<in> set bs. unat (ucast (b div 2 ^ guest_unit_shift bs) :: u32) = unat b div 2 ^ guest_unit_shift bs) \<and>
   (guest_unit_shift bs = 0 \<or> (\<exists>b \<in> set bs. 2 ^ 32 \<le> unat b div 2 ^ (guest_unit_shift bs - 1)))"
proof -
  let ?k = "guest_unit_shift bs"
  note f = fold_grow_unit [of 0 bs, unfolded Let_def, folded guest_unit_shift_def]
  have "unat (ucast (b div 2 ^ ?k) :: u32) = unat b div 2 ^ ?k" if "b \<in> set bs" for b
  proof -
    have "unat (b div 2 ^ ?k) = unat b div 2 ^ ?k" using f by (intro unat_div_unit) simp
    moreover have "unat b div 2 ^ ?k < 2 ^ 32" using f that by simp
    ultimately show ?thesis by (simp add: unsigned_ucast_eq take_bit_eq_mod)
  qed
  then show ?thesis using f by simp
qed

theorem sysinfo_unit_terminates_witness:
  "guest_unit_shift [0x200000000, 0x1000] = 2 \<and>
   unat (ucast ((0x200000000 :: u64) div 2 ^ guest_unit_shift [0x200000000, 0x1000]) :: u32) = 0x80000000"
proof -
  have k: "guest_unit_shift [0x200000000, 0x1000] = 2" by (simp add: guest_unit_shift_def grow_unit.simps)
  show ?thesis
    using sysinfo_unit_terminates [of "[0x200000000, 0x1000]", THEN conjunct2, THEN conjunct1, THEN bspec, of "0x200000000"] k
    by simp
qed

end
