(* ===== verification/Syscall_Net.thy ===== *)
theory Syscall_Net
  imports Syscall_Io
begin

text \<open>
  The socket calls of \<open>core/src/syscalls.cpp\<close>, with the conversion of message headers and control
  messages between the 32-bit and the 64-bit layout.
\<close>

section \<open>Addresses and data\<close>

definition sys_sockaddr_in :: "'h env \<Rightarrow> string \<Rightarrow> 'h ctx \<Rightarrow> u32 \<times> 'h ctx" where
  "sys_sockaddr_in E nm c =
     (case host_ptr (arg c 1) (ucast (arg c 2)) kPageRead (cmem c) of
        None \<Rightarrow> (neg EFAULT, c)
      | Some addr \<Rightarrow> ret_call E nm [AInt (sint (arg c 0)), ARead addr (unat (arg c 2)), AInt (uint (arg c 2))] c)"

text \<open>The address buffer and its length word, as \<open>sys_sockaddr_out\<close> and \<open>sys_recvfrom\<close> check them:
  the two pointers for the host, or a fault.\<close>

definition out_address :: "u32 \<Rightarrow> u32 \<Rightarrow> 'h ctx \<Rightarrow> (harg \<times> harg) option" where
  "out_address addr_arg len_arg c =
     (if len_arg = 0 then Some (ANull, ANull)
      else case host_ptr len_arg 4 (kPageRead OR kPageWrite) (cmem c) of
          None \<Rightarrow> None
        | Some len \<Rightarrow>
            (let capacity = of_le32 (load_bytes len 4 (cmem c))
             in if addr_arg = 0 then Some (ANull, AReadWrite len 4)
                else map_option (\<lambda>addr. (AWrite addr (unat capacity), AReadWrite len 4))
                       (host_ptr addr_arg (ucast capacity) kPageWrite (cmem c))))"

definition sys_sockaddr_out :: "'h env \<Rightarrow> string \<Rightarrow> bool \<Rightarrow> 'h ctx \<Rightarrow> u32 \<times> 'h ctx" where
  "sys_sockaddr_out E nm with_flags c =
     (case out_address (arg c 1) (arg c 2) c of
        None \<Rightarrow> (neg EFAULT, c)
      | Some al \<Rightarrow>
          ret_call E nm ([AInt (sint (arg c 0)), fst al, snd al] @ (if with_flags then [AInt (sint (arg c 3))] else [])) c)"

definition sys_sendto :: "'h env \<Rightarrow> u32 \<Rightarrow> u32 \<Rightarrow> 'h ctx \<Rightarrow> u32 \<times> 'h ctx" where
  "sys_sendto E dest dest_len c =
     (case host_ptr (arg c 1) (ucast (arg c 2)) kPageRead (cmem c) of
        None \<Rightarrow> (neg EFAULT, c)
      | Some buf \<Rightarrow>
          (case (if dest = 0 then Some ANull
                 else map_option (\<lambda>p. ARead p (unat dest_len)) (host_ptr dest (ucast dest_len) kPageRead (cmem c))) of
             None \<Rightarrow> (neg EFAULT, c)
           | Some to_arg \<Rightarrow>
               ret_call E ''sendto'' [AInt (sint (arg c 0)), ARead buf (unat (arg c 2)), AInt (uint (arg c 2)),
                 AInt (sint (arg c 3)), to_arg, AInt (if dest \<noteq> 0 then uint dest_len else 0)] c))"

definition sys_recvfrom :: "'h env \<Rightarrow> u32 \<Rightarrow> u32 \<Rightarrow> 'h ctx \<Rightarrow> u32 \<times> 'h ctx" where
  "sys_recvfrom E src src_len_addr c =
     (case host_ptr (arg c 1) (ucast (arg c 2)) kPageWrite (cmem c) of
        None \<Rightarrow> (neg EFAULT, c)
      | Some buf \<Rightarrow>
          (case out_address src src_len_addr c of
             None \<Rightarrow> (neg EFAULT, c)
           | Some al \<Rightarrow>
               ret_call E ''recvfrom'' [AInt (sint (arg c 0)), AWrite buf (unat (arg c 2)), AInt (uint (arg c 2)),
                 AInt (sint (arg c 3)), fst al, snd al] c))"

section \<open>Options\<close>

definition kSoRcvTimeoOld :: int where "kSoRcvTimeoOld = 20"
definition kSoSndTimeoOld :: int where "kSoSndTimeoOld = 21"

definition is_old_timeval_option :: "int \<Rightarrow> int \<Rightarrow> bool" where
  "is_old_timeval_option level nm \<longleftrightarrow> level = 1 \<and> (nm = kSoRcvTimeoOld \<or> nm = kSoSndTimeoOld)"

definition sys_setsockopt :: "'h env \<Rightarrow> 'h ctx \<Rightarrow> u32 \<times> 'h ctx" where
  "sys_setsockopt E c =
     (let level = sint (arg c 1); nm = sint (arg c 2)
      in if is_old_timeval_option level nm \<and> arg c 4 \<ge> 8 then
           (case read_guest 8 (arg c 3) c of
              None \<Rightarrow> (neg EFAULT, c)
            | Some b \<Rightarrow>
                (let t = timeval32_of b
                 in ret_call E ''setsockopt'' [AInt (sint (arg c 0)), AInt level, AInt nm,
                      AVals [sint (tv_sec t), sint (tv_usec t)], AInt 16] c))
         else case host_ptr (arg c 3) (ucast (arg c 4)) kPageRead (cmem c) of
             None \<Rightarrow> (neg EFAULT, c)
           | Some v \<Rightarrow> ret_call E ''setsockopt'' [AInt (sint (arg c 0)), AInt level, AInt nm,
                         ARead v (unat (arg c 4)), AInt (uint (arg c 4))] c)"

definition sys_getsockopt :: "'h env \<Rightarrow> 'h ctx \<Rightarrow> u32 \<times> 'h ctx" where
  "sys_getsockopt E c =
     (let level = sint (arg c 1); nm = sint (arg c 2)
      in case host_ptr (arg c 4) 4 (kPageRead OR kPageWrite) (cmem c) of
           None \<Rightarrow> (neg EFAULT, c)
         | Some len \<Rightarrow>
             (let capacity = of_le32 (load_bytes len 4 (cmem c))
              in if is_old_timeval_option level nm then
                   (case hcall E ''getsockopt'' [AInt (sint (arg c 0)), AInt level, AInt nm, AOut, AOut] c of
                      (r, c1) \<Rightarrow>
                        if rc r \<noteq> 0 then (neg (err r), c1)
                        else if capacity < 8 then (neg EINVAL, c1)
                        else case write_guest (arg c 3) (timeval_image (val r 0) (val r 1)) c1 of
                            (ok, c2) \<Rightarrow> if \<not> ok then (neg EFAULT, c2)
                                       else (0, set_mem (store_bytes len (le32 8) (cmem c2)) c2))
                 else case host_ptr (arg c 3) (ucast capacity) kPageWrite (cmem c) of
                     None \<Rightarrow> (neg EFAULT, c)
                   | Some v \<Rightarrow> ret_call E ''getsockopt'' [AInt (sint (arg c 0)), AInt level, AInt nm,
                                 AWrite v (unat capacity), AReadWrite len 4] c))"

section \<open>Messages\<close>

text \<open>The vector and the name of a message, checked for the host.\<close>

definition build_host_message :: "msghdr32 \<Rightarrow> bool \<Rightarrow> 'h ctx \<Rightarrow> nat + harg list \<times> harg" where
  "build_host_message gm receiving c =
     (if msg_iovlen gm > IOV_MAX then Inl EMSGSIZE
      else case gather_iov (\<not> receiving) (unat (msg_iovlen gm)) (msg_iov gm) c of
          None \<Rightarrow> Inl EFAULT
        | Some vs \<Rightarrow>
            if msg_name gm = 0 then Inr (vs, ANull)
            else case host_ptr (msg_name gm) (ucast (msg_namelen gm)) (if receiving then kPageWrite else kPageRead) (cmem c) of
                None \<Rightarrow> Inl EFAULT
              | Some nm \<Rightarrow> Inr (vs, io_arg (\<not> receiving) nm (unat (msg_namelen gm))))"

definition CMSG_ALIGN :: "nat \<Rightarrow> nat" where
  "CMSG_ALIGN n = (n + 7) div 8 * 8"

text \<open>One host control message: 16-byte header, data, padding to \<open>CMSG_SPACE\<close>.\<close>

definition host_cmsg :: "u32 \<Rightarrow> u32 \<Rightarrow> u8 list \<Rightarrow> u8 list" where
  "host_cmsg level typ dat =
     le64 (of_nat (16 + length dat)) @ le32 level @ le32 typ @ dat @ replicate (CMSG_ALIGN (length dat) - length dat) 0"

text \<open>\<open>(len + 3) & ~3u\<close>, on 32 bits.\<close>

definition cmsg_align32 :: "u32 \<Rightarrow> u32" where
  "cmsg_align32 w = (w + 3) AND NOT 3"

text \<open>\<open>control_to_host\<close>: \<open>offset\<close> and the sum with the message length are 32-bit, as in the source.
  Besides the host buffer, the ranges that \<open>memcpy\<close> reads are returned.  The loop need not end, so
  its result is optional.\<close>

partial_function (option) control_loop ::
    "guest_memory \<Rightarrow> nat \<Rightarrow> u32 \<Rightarrow> u32 \<Rightarrow> u8 list \<Rightarrow> (nat \<times> nat) list \<Rightarrow> (u8 list \<times> (nat \<times> nat) list) option" where
  "control_loop m src len offset out copies =
     (if unat offset + 12 \<le> unat len
      then let h = cmsghdr32_of (load_bytes (src + unat offset) 12 m)
           in if cmsg_len h < 12 \<or> offset + cmsg_len h > len then Some (out, copies)
              else let data_len = cmsg_len h - 12;
                       from = src + unat offset + 12
                   in control_loop m src len (offset + cmsg_align32 (cmsg_len h))
                        (out @ host_cmsg (cmsg_level h) (cmsg_type h) (load_bytes from (unat data_len) m))
                        (copies @ [(from, unat data_len)])
      else Some (out, copies))"

definition control_to_host :: "u32 \<Rightarrow> u32 \<Rightarrow> guest_memory \<Rightarrow> (u8 list \<times> (nat \<times> nat) list) option option" where
  "control_to_host addr len m =
     map_option (\<lambda>src. control_loop m src len 0 [] []) (host_ptr addr (ucast len) kPageRead m)"

definition MSG_CTRUNC :: u32 where "MSG_CTRUNC = 8"

fun control_to_guest :: "(u32 \<times> u32 \<times> u8 list) list \<Rightarrow> nat \<Rightarrow> u32 \<Rightarrow> u32 \<Rightarrow> u32 \<Rightarrow> guest_memory \<Rightarrow> u32 \<times> u32 \<times> guest_memory" where
  "control_to_guest [] dst capacity offset flags m = (offset, flags, m)"
| "control_to_guest ((level, typ, dat) # hs) dst capacity offset flags m =
     (let needed = 12 + of_nat (length dat)
      in if offset + needed > capacity then (offset, flags OR MSG_CTRUNC, m)
         else control_to_guest hs dst capacity (min capacity (offset + cmsg_align32 needed)) flags
                (store_bytes (dst + unat offset + 12) dat
                  (store_bytes (dst + unat offset)
                    (cmsghdr32_bytes \<lparr>cmsg_len = needed, cmsg_level = level, cmsg_type = typ\<rparr>) m)))"

text \<open>\<open>sendmsg\<close>; \<open>None\<close> when \<open>control_to_host\<close> does not end.\<close>

definition send_message :: "'h env \<Rightarrow> msghdr32 \<Rightarrow> harg list \<times> harg \<Rightarrow> harg \<Rightarrow> 'h ctx \<Rightarrow> u32 \<times> 'h ctx" where
  "send_message E gm vn ctl c = ret_call E ''sendmsg''
     ([AInt (sint (arg c 0)), snd vn, ctl, AInt (sint (msg_flags gm)), AInt (sint (arg c 2))] @ fst vn) c"

definition sys_sendmsg :: "'h env \<Rightarrow> 'h ctx \<Rightarrow> (u32 \<times> 'h ctx) option" where
  "sys_sendmsg E c =
     (case read_guest 28 (arg c 1) c of
        None \<Rightarrow> Some (neg EFAULT, c)
      | Some b \<Rightarrow>
          (let gm = msghdr32_of b
           in case build_host_message gm False c of
                Inl e \<Rightarrow> Some (neg e, c)
              | Inr vn \<Rightarrow>
                  if msg_controllen gm = 0 then Some (send_message E gm vn ANull c)
                  else case control_to_host (msg_control gm) (msg_controllen gm) (cmem c) of
                      None \<Rightarrow> Some (neg EFAULT, c)
                    | Some res \<Rightarrow> map_option (\<lambda>oc. send_message E gm vn (AData (fst oc)) c) res))"

text \<open>The guest's control buffer: a fault, none, or its place.\<close>

definition guest_control :: "msghdr32 \<Rightarrow> 'h ctx \<Rightarrow> nat option option" where
  "guest_control gm c =
     (if msg_controllen gm = 0 then Some None
      else map_option Some (host_ptr (msg_control gm) (ucast (msg_controllen gm)) kPageWrite (cmem c)))"

text \<open>After a successful \<open>recvmsg\<close>: the control messages, then the header with the lengths and flags the
  kernel left.\<close>

definition recv_finish :: "u32 \<Rightarrow> msghdr32 \<Rightarrow> nat option \<Rightarrow> hres \<Rightarrow> 'h ctx \<Rightarrow> u32 \<times> 'h ctx" where
  "recv_finish hdr gm gc r c =
     (let flags = word_of_int (val r 1)
      in case (case gc of
                 None \<Rightarrow> (0, flags, cmem c)
               | Some dst \<Rightarrow> control_to_guest (cmsgs r) dst (msg_controllen gm) 0 flags (cmem c)) of
           (clen, flags', m1) \<Rightarrow>
             (case write_guest hdr (msghdr32_bytes (gm\<lparr>msg_controllen := clen,
                      msg_namelen := word_of_int (val r 0), msg_flags := flags'\<rparr>)) (set_mem m1 c) of
                (ok, c2) \<Rightarrow> (word_of_int (rc r), c2)))"

definition sys_recvmsg :: "'h env \<Rightarrow> 'h ctx \<Rightarrow> u32 \<times> 'h ctx" where
  "sys_recvmsg E c =
     (case read_guest 28 (arg c 1) c of
        None \<Rightarrow> (neg EFAULT, c)
      | Some b \<Rightarrow>
          if host_ptr (arg c 1) 28 kPageWrite (cmem c) = None then (neg EFAULT, c)
          else (let gm = msghdr32_of b
                in case build_host_message gm True c of
                     Inl e \<Rightarrow> (neg e, c)
                   | Inr vn \<Rightarrow>
                       (case guest_control gm c of
                          None \<Rightarrow> (neg EFAULT, c)
                        | Some gc \<Rightarrow>
                            (case hcall E ''recvmsg''
                                    ([AInt (sint (arg c 0)), snd vn,
                                      AInt (if gc = None then 0 else uint (msg_controllen gm) * 2 + 64),
                                      AInt (sint (msg_flags gm)), AInt (sint (arg c 2))] @ fst vn) c of
                               (r, c1) \<Rightarrow>
                                 if rc r < 0 then (neg (err r), c1) else recv_finish (arg c 1) gm gc r c1))))"

section \<open>What the handlers hand to the host\<close>

lemma sys_sockaddr_in_ok [handler_ok]: "sys_ok c (snd (sys_sockaddr_in E nm c))"
  unfolding sys_sockaddr_in_def by (intro sys_okI) (auto dest: host_ptr_has32)

lemma out_address_ok: "out_address a l c = Some al \<Longrightarrow> arg_ok (cmem c) (fst al) \<and> arg_ok (cmem c) (snd al)"
  by (auto simp: out_address_def Let_def split: if_splits option.splits dest: host_ptr_has32 host_ptr_has_lit)

lemma sys_sockaddr_out_ok [handler_ok]: "sys_ok c (snd (sys_sockaddr_out E nm b c))"
  unfolding sys_sockaddr_out_def by (intro sys_okI) (auto dest: out_address_ok)

lemma sys_sendto_ok [handler_ok]: "sys_ok c (snd (sys_sendto E d l c))"
  unfolding sys_sendto_def by (intro sys_okI) (auto split: if_splits dest: host_ptr_has32)

lemma sys_recvfrom_ok [handler_ok]: "sys_ok c (snd (sys_recvfrom E d l c))"
  unfolding sys_recvfrom_def by (intro sys_okI) (auto dest: host_ptr_has32 out_address_ok)

lemma sys_setsockopt_ok [handler_ok]: "sys_ok c (snd (sys_setsockopt E c))"
  unfolding sys_setsockopt_def Let_def by (intro sys_okI) (auto dest: host_ptr_has32)

lemma rw_word_writable:
  assumes "host_ptr a 4 (kPageRead OR kPageWrite) (cmem c) = Some p" "pages (cmem c2) = pages (cmem c)"
  shows "range_has (cmem c2) p 4 kPageWrite"
proof -
  have "range_has (cmem c) p 4 (kPageRead OR kPageWrite)" using host_ptr_has_lit [OF assms(1)] by simp
  then show ?thesis using range_has_weaken assms(2) by (simp add: range_has_def)
qed

lemma sys_getsockopt_ok [handler_ok]: "sys_ok c (snd (sys_getsockopt E c))"
  unfolding sys_getsockopt_def Let_def
  by (intro sys_okI) (auto intro!: sys_ok_store rw_word_writable dest: host_ptr_has32 host_ptr_has_lit)

lemma build_host_message_ok:
  "build_host_message gm rcv c = Inr vn \<Longrightarrow> list_all (arg_ok (cmem c)) (fst vn) \<and> arg_ok (cmem c) (snd vn)"
  by (auto simp: build_host_message_def io_arg_ok split: if_splits option.splits dest: gather_iov_ok host_ptr_has32)

section \<open>Control messages\<close>

definition align4 :: "nat \<Rightarrow> nat" where
  "align4 n = (n + 3) div 4 * 4"

lemma align4_ge: "n \<le> align4 n" "align4 n \<le> n + 3"
  unfolding align4_def by presburger+

text \<open>The 32-bit alignment of the source, without wrap-around.\<close>

lemma unat_align4:
  assumes "unat (w :: u32) + 3 < 4294967296"
  shows "unat (cmsg_align32 w) = align4 (unat w)"
proof -
  have "(3 :: u32) = mask 2" by (rule mask_2)
  then have "unat ((w + 3) AND NOT 3) = unat (w + 3) div 4 * 4" using unat_and_not_mask [of "w + 3" 2] by simp
  also have "unat (w + 3) = unat w + 3" using assms by (simp add: unat_word_ariths)
  finally show ?thesis by (simp add: align4_def cmsg_align32_def)
qed

text \<open>The messages all fit behind offset \<open>k\<close> of a buffer of \<open>cap\<close> bytes.\<close>

fun ctl_fits :: "(u32 \<times> u32 \<times> u8 list) list \<Rightarrow> nat \<Rightarrow> nat \<Rightarrow> bool" where
  "ctl_fits [] k cap = True"
| "ctl_fits ((l, t, d) # ms) k cap = (k + 12 + length d \<le> cap \<and> ctl_fits ms (min cap (k + align4 (12 + length d))) cap)"

definition host_control :: "(u32 \<times> u32 \<times> u8 list) list \<Rightarrow> u8 list" where
  "host_control ms = concat (map (\<lambda>(l, t, d). host_cmsg l t d) ms)"

text \<open>One message: the words of the source as numbers.\<close>

lemma needed_word:
  fixes off cap :: u32
  assumes "unat off + 12 + length d \<le> unat cap" "unat cap \<le> 2 ^ 31"
  shows "unat (12 + of_nat (length d) :: u32) = 12 + length d"
    and "\<not> off + (12 + of_nat (length d)) > cap"
    and "unat (off + (12 + of_nat (length d))) = unat off + 12 + length d"
    and "unat (off + cmsg_align32 (12 + of_nat (length d))) = unat off + align4 (12 + length d)"
proof -
  have l: "unat (of_nat (length d) :: u32) = length d" using assms by (intro unat_eq_of_nat) simp
  show n: "unat (12 + of_nat (length d) :: u32) = 12 + length d" using assms by (simp add: unat_word_ariths l)
  show o: "unat (off + (12 + of_nat (length d))) = unat off + 12 + length d"
    using assms by (simp add: unat_word_ariths n l)
  then show "\<not> off + (12 + of_nat (length d)) > cap" using assms by (simp add: word_less_nat_alt)
  have a: "unat (cmsg_align32 (12 + of_nat (length d))) = align4 (12 + length d)"
    using assms by (subst unat_align4) (simp_all add: n)
  show "unat (off + cmsg_align32 (12 + of_nat (length d))) = unat off + align4 (12 + length d)"
    using assms align4_ge(2) [of "12 + length d"] unfolding unat_word_ariths a by simp
qed

lemma control_to_guest_outside:
  assumes "ctl_fits ms (unat off) (unat cap)" "unat cap \<le> 2 ^ 31" "unat off \<le> unat cap"
    and "control_to_guest ms dst cap off fl m = (off', fl', m')"
  shows "unat off \<le> unat off' \<and> unat off' \<le> unat cap \<and> pages m' = pages m \<and> hprot m' = hprot m \<and>
     (\<forall>i. i < dst + unat off \<or> dst + unat cap \<le> i \<longrightarrow> bytes m' i = bytes m i)"
  using assms
proof (induction ms arbitrary: off m)
  case (Cons x ms)
  obtain l t d where x: "x = (l, t, d)" by (cases x)
  let ?nd = "12 + of_nat (length d) :: u32"
  have fit: "unat off + 12 + length d \<le> unat cap" using Cons.prems(1) x by simp
  note nw = needed_word [OF fit Cons.prems(2)]
  let ?o1 = "min cap (off + cmsg_align32 ?nd)"
  have o1: "unat ?o1 = min (unat cap) (unat off + align4 (12 + length d))" using nw(4) by (simp add: min_def word_le_nat_alt)
  let ?m1 = "store_bytes (dst + unat off + 12) d (store_bytes (dst + unat off) (cmsghdr32_bytes \<lparr>cmsg_len = ?nd, cmsg_level = l, cmsg_type = t\<rparr>) m)"
  have "control_to_guest ms dst cap ?o1 fl ?m1 = (off', fl', m')"
    using Cons.prems(4) nw(2) by (simp add: x Let_def)
  from Cons.IH [OF _ Cons.prems(2) _ this] Cons.prems(1)
  have ih: "unat ?o1 \<le> unat off'" "unat off' \<le> unat cap" "pages m' = pages m" "hprot m' = hprot m"
    "\<forall>i. i < dst + unat ?o1 \<or> dst + unat cap \<le> i \<longrightarrow> bytes m' i = bytes ?m1 i"
    by (simp_all add: o1 x)
  have "unat off + 12 + length d \<le> unat ?o1" using fit align4_ge(1) [of "12 + length d"] by (simp add: o1)
  then show ?case using ih fit by (auto simp: store_bytes_def)
qed simp

lemma control_to_guest_back:
  assumes "ctl_fits ms (unat off) (unat cap)" "unat cap \<le> 2 ^ 31" "unat off \<le> unat cap"
    and "control_to_guest ms dst cap off fl m = (off', fl', m')"
  shows "\<exists>copies'. control_loop m' dst off' off out copies = Some (out @ host_control ms, copies @ copies') \<and>
     (\<forall>(p, n) \<in> set copies'. dst \<le> p \<and> p + n \<le> dst + unat off')"
  using assms
proof (induction ms arbitrary: off m out copies)
  case Nil
  then have "off' = off" by simp
  then show ?case by (subst control_loop.simps) (simp add: host_control_def)
next
  case (Cons x ms)
  obtain l t d where x: "x = (l, t, d)" by (cases x)
  let ?nd = "12 + of_nat (length d) :: u32"
  have fit: "unat off + 12 + length d \<le> unat cap" using Cons.prems(1) x by simp
  note nw = needed_word [OF fit Cons.prems(2)]
  let ?next = "off + cmsg_align32 ?nd" and ?o1 = "min cap (off + cmsg_align32 ?nd)"
  have o1: "unat ?o1 = min (unat cap) (unat off + align4 (12 + length d))" using nw(4) by (simp add: min_def word_le_nat_alt)
  let ?h = "\<lparr>cmsg_len = ?nd, cmsg_level = l, cmsg_type = t\<rparr>"
  let ?m1 = "store_bytes (dst + unat off + 12) d (store_bytes (dst + unat off) (cmsghdr32_bytes ?h) m)"
  have rec: "control_to_guest ms dst cap ?o1 fl ?m1 = (off', fl', m')"
    using Cons.prems(4) nw(2) by (simp add: x Let_def)
  have fits1: "ctl_fits ms (unat ?o1) (unat cap)" and le1: "unat ?o1 \<le> unat cap" using Cons.prems(1) by (simp_all add: o1 x)
  note out1 = control_to_guest_outside [OF fits1 Cons.prems(2) le1 rec]
  have ge: "unat off + 12 + length d \<le> unat ?o1" using fit align4_ge(1) [of "12 + length d"] by (simp add: o1)
  have same: "load_bytes (dst + unat off) 12 m' = load_bytes (dst + unat off) 12 ?m1"
    "load_bytes (dst + unat off + 12) (length d) m' = load_bytes (dst + unat off + 12) (length d) ?m1"
    using out1 ge by (auto simp: load_bytes_def)
  have head: "cmsghdr32_of (load_bytes (dst + unat off) 12 m') = ?h"
    using cmsghdr32_of_bytes [of ?h "[]"] unfolding same by (simp add: load_store_other load_store_same)
  have dat: "load_bytes (dst + unat off + 12) (length d) m' = d"
    unfolding same by (simp add: load_store_same)
  have c: "unat off + 12 \<le> unat off'" "\<not> (?nd < 12 \<or> off + ?nd > off')"
    using out1 ge nw(1,3) by (auto simp: word_less_nat_alt)
  have dl: "unat (?nd - 12) = length d" using fit Cons.prems(2) by (simp add: unat_eq_of_nat)
  let ?out = "out @ host_cmsg l t d" and ?cp = "copies @ [(dst + unat off + 12, length d)]"
  have unroll: "control_loop m' dst off' off out copies = control_loop m' dst off' ?next ?out ?cp"
    by (subst control_loop.simps) (use c head dat dl in \<open>simp add: Let_def\<close>)
  have cp: "dst + unat off + 12 + length d \<le> dst + unat off'" using out1 ge by simp
  show ?case
  proof (cases "unat off + align4 (12 + length d) \<le> unat cap")
    case True
    then have "?o1 = ?next" using nw(4) by (simp add: min_def word_le_nat_alt word_unat_eq_iff)
    with Cons.IH [OF fits1 Cons.prems(2) le1 rec, of ?out ?cp] obtain cs where
      "control_loop m' dst off' ?next ?out ?cp = Some (?out @ host_control ms, ?cp @ cs)"
      "\<forall>(p, n) \<in> set cs. dst \<le> p \<and> p + n \<le> dst + unat off'" by auto
    then show ?thesis using unroll cp
      by (intro exI [of _ "(dst + unat off + 12, length d) # cs"]) (auto simp: host_control_def x)
  next
    case False
    then have "unat ?o1 = unat cap" using o1 by simp
    then have ms: "ms = []" using fits1 by (cases ms) auto
    have "\<not> unat ?next + 12 \<le> unat off'" using False nw(4) out1 by simp
    then have "control_loop m' dst off' ?next ?out ?cp = Some (?out, ?cp)" by (subst control_loop.simps) simp
    then show ?thesis using unroll cp ms
      by (intro exI [of _ "[(dst + unat off + 12, length d)]"]) (auto simp: host_control_def x)
  qed
qed

text \<open>
  C37: Control messages survive the bridge.  When the messages a \<open>recvmsg\<close> delivered fit in the guest's
  control buffer (of at most 2 GiB), \<open>control_to_guest\<close> writes nothing outside the buffer, and sending
  what it wrote back through \<open>control_to_host\<close> ends, reads only bytes of the buffer it was given, and
  rebuilds exactly the host's messages.
\<close>

theorem control_messages_round_trip:
  assumes "ctl_fits ms 0 (unat cap)" and "unat cap \<le> 2 ^ 31"
    and "control_to_guest ms (unat addr) cap 0 fl m = (len, fl', m')"
    and "accessible addr (ucast len) kPageRead m'"
  shows "unat len \<le> unat cap \<and> (\<forall>i. i < unat addr \<or> unat addr + unat cap \<le> i \<longrightarrow> bytes m' i = bytes m i) \<and>
    (\<exists>copies. control_to_host addr len m' = Some (Some (host_control ms, copies)) \<and>
       (\<forall>(p, n) \<in> set copies. unat addr \<le> p \<and> p + n \<le> unat addr + unat len))"
proof -
  have f: "ctl_fits ms (unat (0 :: u32)) (unat cap)" "unat (0 :: u32) \<le> unat cap" using assms(1) by simp_all
  note out = control_to_guest_outside [OF f(1) assms(2) f(2) assms(3)]
  obtain cs where "control_loop m' (unat addr) len 0 [] [] = Some (host_control ms, cs)"
    "\<forall>(p, n) \<in> set cs. unat addr \<le> p \<and> p + n \<le> unat addr + unat len"
    using control_to_guest_back [OF f(1) assms(2) f(2) assms(3), of "[]" "[]"] by auto
  then have "\<exists>copies. control_to_host addr len m' = Some (Some (host_control ms, copies)) \<and>
       (\<forall>(p, n) \<in> set copies. unat addr \<le> p \<and> p + n \<le> unat addr + unat len)"
    using assms(4) by (intro exI [of _ cs]) (simp add: control_to_host_def host_ptr_def)
  then show ?thesis using out by simp
qed

text \<open>A readable page at \<open>0x10000\<close>, for the examples.\<close>

definition page_memory :: guest_memory where
  "page_memory = (new_guest_memory True)\<lparr>pages := (\<lambda>i. if i = 16 then kPageMapped OR kPageRead OR kPageWrite else 0)\<rparr>"

lemma page_memory_accessible:
  "pages m = pages page_memory \<Longrightarrow> 0 < unat len \<Longrightarrow> unat len \<le> 4096 \<Longrightarrow> accessible 0x10000 (ucast (len :: u32)) kPageRead m"
  by (subst accessible_iff)
    (auto simp: touches_def page_memory_def kPageMapped_def kPageRead_def kPageWrite_def)

theorem control_messages_round_trip_witness:
  "\<exists>len fl' m'. control_to_guest [(1, 1, [7, 0, 0, 0])] 0x10000 64 0 0 page_memory = (len, fl', m') \<and>
     (\<exists>copies. control_to_host 0x10000 len m' = Some (Some (host_control [(1, 1, [7, 0, 0, 0])], copies)))"
proof -
  have f: "ctl_fits [(1, 1, [7, 0, 0, 0])] 0 (unat (64 :: u32))" by simp
  obtain len fl' m' where c: "control_to_guest [(1, 1, [7, 0, 0, 0])] (unat (0x10000 :: u32)) 64 0 0 page_memory = (len, fl', m')"
    by (metis prod.exhaust)
  have "len = 16" "pages m' = pages page_memory" using c by (auto simp: Let_def cmsg_align32_def)
  then have "accessible 0x10000 (ucast len) kPageRead m'" by (intro page_memory_accessible) simp_all
  from control_messages_round_trip [OF f _ c this] c show ?thesis by auto
qed

text \<open>
  \<open>control_to_host\<close> compares \<open>offset + cmsg_len\<close> with the length in 32 bits.  A guest buffer of 24 bytes
  whose second header claims \<open>0xFFFFFFF8\<close> bytes passes the check, and the copy that follows runs four
  gigabytes past the buffer.
\<close>

definition overread_words :: "u32 list" where
  "overread_words = [12, 0, 0, 0xFFFFFFF8, 0, 0]"

definition overread_memory :: guest_memory where
  "overread_memory = store_bytes 0x10000 (words_bytes overread_words) page_memory"

lemma overread_load: "k + 12 \<le> 24 \<Longrightarrow> load_bytes (0x10000 + k) 12 overread_memory = take 12 (drop k (words_bytes overread_words))"
  unfolding overread_memory_def by (subst load_store_inside) (simp_all add: overread_words_def)

lemma overread_headers:
  "cmsghdr32_of (load_bytes 0x10000 12 overread_memory) = \<lparr>cmsg_len = 12, cmsg_level = 0, cmsg_type = 0\<rparr>"
  "cmsghdr32_of (load_bytes 0x1000C 12 overread_memory) = \<lparr>cmsg_len = 0xFFFFFFF8, cmsg_level = 0, cmsg_type = 0\<rparr>"
  "cmsg_len (cmsghdr32_of (load_bytes 0x10004 12 overread_memory)) = 0"
  using overread_load [of 0] overread_load [of 12] overread_load [of 4]
  by (simp_all add: overread_words_def words_bytes_Cons cmsghdr32_of_def)


section \<open>Messages and the host\<close>

text \<open>The kernel bounds the control data it delivers (its limits are signed 32-bit numbers).\<close>

definition ctl_size :: "(u32 \<times> u32 \<times> u8 list) list \<Rightarrow> nat" where
  "ctl_size ms = (\<Sum>(l, t, d) \<leftarrow> ms. length d + 16)"

definition control_bounded :: "'h env \<Rightarrow> bool" where
  "control_bounded E \<longleftrightarrow> (\<forall>nm as m h. ctl_size (cmsgs (fst (e_host E nm as m h))) < 2 ^ 31)"

lemma control_to_guest_confined:
  assumes "unat off + ctl_size ms < 4294967296" "range_has m dst (unat cap) kPageWrite" "unat off \<le> unat cap"
    and "control_to_guest ms dst cap off fl m = (off', fl', m')"
  shows "mem_confined m m'"
  using assms
proof (induction ms arbitrary: off m)
  case (Cons x ms)
  obtain l t d where x: "x = (l, t, d)" by (cases x)
  let ?nd = "12 + of_nat (length d) :: u32" and ?h = "\<lparr>cmsg_len = 12 + of_nat (length d), cmsg_level = l, cmsg_type = t\<rparr>"
  have b: "unat off + 16 + length d + ctl_size ms < 4294967296" using Cons.prems(1) by (simp add: x ctl_size_def)
  have l: "unat (of_nat (length d) :: u32) = length d" using b by (intro unat_eq_of_nat) simp
  have nd: "unat ?nd = 12 + length d" using b by (simp add: unat_word_ariths l)
  have o: "unat (off + ?nd) = unat off + 12 + length d" using b by (simp add: unat_word_ariths nd l)
  show ?case
  proof (cases "off + ?nd > cap")
    case True
    then show ?thesis using Cons.prems(4) by (simp add: x Let_def)
  next
    case False
    then have fit: "unat off + 12 + length d \<le> unat cap" by (simp add: word_less_nat_alt o)
    let ?o1 = "min cap (off + cmsg_align32 ?nd)"
    let ?m0 = "store_bytes (dst + unat off) (cmsghdr32_bytes ?h) m" and ?m1 = "store_bytes (dst + unat off + 12) d (store_bytes (dst + unat off) (cmsghdr32_bytes ?h) m)"
    have rec: "control_to_guest ms dst cap ?o1 fl ?m1 = (off', fl', m')"
      using Cons.prems(4) False by (simp add: x Let_def)
    have c0: "mem_confined m ?m0" using Cons.prems(2) fit by (intro store_confined) (auto intro: range_has_sub)
    have r0: "range_has ?m0 dst (unat cap) kPageWrite" "range_has ?m1 dst (unat cap) kPageWrite"
      using Cons.prems(2) by (simp_all add: range_has_def)
    have c1: "mem_confined ?m0 ?m1" using r0(1) fit by (intro store_confined) (auto intro: range_has_sub)
    have "unat (off + cmsg_align32 ?nd) \<le> unat off + 15 + length d"
    proof -
      have "unat (cmsg_align32 ?nd) \<le> 15 + length d"
        using align4_ge(2) [of "12 + length d"] b by (subst unat_align4) (simp_all add: nd)
      moreover have "unat (off + cmsg_align32 ?nd) \<le> unat off + unat (cmsg_align32 ?nd)"
        unfolding unat_word_ariths by (rule mod_less_eq_dividend)
      ultimately show ?thesis by simp
    qed
    then have "unat ?o1 + ctl_size ms < 4294967296" using b by (auto simp: min_def word_le_nat_alt)
    moreover have "unat ?o1 \<le> unat cap" by (simp add: min_def word_le_nat_alt)
    ultimately have "mem_confined ?m1 m'" using Cons.IH r0(2) rec by blast
    then show ?thesis using c0 c1 mem_confined_trans by blast
  qed
qed simp

lemma sys_sendmsg_ok:
  assumes "sys_sendmsg E c = Some (x, c')" shows "sys_ok c c'"
proof -
  have ok: "sys_ok c (snd (send_message E gm vn ctl c))"
    if "build_host_message gm False c = Inr vn" "arg_ok (cmem c) ctl" for gm vn ctl
    unfolding send_message_def using build_host_message_ok [OF that(1)] that(2) by (intro sys_ok_ret_call) simp
  show ?thesis using assms ok [of _ _ ANull] ok [of _ _ "AData (fst z)" for z]
    by (auto simp: sys_sendmsg_def Let_def sys_ok_refl split: option.splits sum.splits if_splits)
      (metis arg_ok.simps(9) ok snd_conv)+
qed

lemma recv_finish_ok:
  assumes "guest_control gm c0 = Some gc" "ctl_size (cmsgs r) < 2 ^ 31" "pages (cmem c) = pages (cmem c0)"
  shows "sys_ok c (snd (recv_finish hdr gm gc r c))"
proof -
  obtain clen fl m1 where m1: "(case gc of None \<Rightarrow> (0, word_of_int (val r 1), cmem c)
      | Some dst \<Rightarrow> control_to_guest (cmsgs r) dst (msg_controllen gm) 0 (word_of_int (val r 1)) (cmem c)) = (clen, fl, m1)"
    by (metis prod.exhaust)
  have "mem_confined (cmem c) m1"
  proof (cases gc)
    case None
    then show ?thesis using m1 by simp
  next
    case (Some dst)
    then have "range_has (cmem c0) dst (unat (msg_controllen gm)) kPageWrite"
      using assms(1) host_ptr_has32 by (auto simp: guest_control_def split: if_splits)
    then have "range_has (cmem c) dst (unat (msg_controllen gm)) kPageWrite" using assms(3) by (simp add: range_has_def)
    then show ?thesis using m1 Some assms(2) control_to_guest_confined [of 0 "cmsgs r" "cmem c" dst] by simp
  qed
  then have "sys_ok c (set_mem m1 c)" by (simp add: sys_ok_def)
  moreover have "sys_ok (set_mem m1 c) (snd (case write_guest hdr (msghdr32_bytes (gm\<lparr>msg_controllen := clen,
      msg_namelen := word_of_int (val r 0), msg_flags := fl\<rparr>)) (set_mem m1 c) of (ok, c2) \<Rightarrow> (word_of_int (rc r), c2)))"
    by (intro sys_okI) simp_all
  ultimately show ?thesis using sys_ok_trans unfolding recv_finish_def Let_def m1 by fastforce
qed

lemma hcall_bounded: "control_bounded E \<Longrightarrow> hcall E nm as c = (r, c') \<Longrightarrow> ctl_size (cmsgs r) < 2 ^ 31"
  by (auto simp: control_bounded_def hcall_def Let_def split: prod.splits) (metis fst_conv)

lemma sys_ok_sum:
  "(\<And>e. v = Inl e \<Longrightarrow> sys_ok c (snd (f e))) \<Longrightarrow> (\<And>x. v = Inr x \<Longrightarrow> sys_ok c (snd (g x))) \<Longrightarrow>
   sys_ok c (snd (case v of Inl e \<Rightarrow> f e | Inr x \<Rightarrow> g x))"
  by (cases v) simp_all

lemma sys_recvmsg_ok [handler_ok]:
  assumes "control_bounded E" shows "sys_ok c (snd (sys_recvmsg E c))"
proof -
  have fin: "sys_ok c (snd (case hcall E nm as c of (r, c1) \<Rightarrow>
      if rc r < 0 then (neg (err r), c1) else recv_finish hdr gm gc r c1))"
    if "guest_control gm c = Some gc" "list_all (arg_ok (cmem c)) as" for gm gc as nm hdr
  proof (cases "hcall E nm as c")
    case (Pair r c1)
    have ok: "sys_ok c c1" using sys_ok_hcall [OF that(2) Pair] .
    then have "pages (cmem c1) = pages (cmem c)" by (simp add: sys_ok_def mem_confined_def)
    from recv_finish_ok [OF that(1) hcall_bounded [OF assms Pair] this]
    show ?thesis using ok sys_ok_trans Pair by fastforce
  qed
  show ?thesis unfolding sys_recvmsg_def Let_def
    by (intro sys_ok_option sys_ok_if sys_ok_sum fin) (auto simp: sys_ok_refl dest: build_host_message_ok)
qed

end
