(* ===== verification/Proc_Files.thy ===== *)
theory Proc_Files
  imports Syscall_Base
begin

text \<open>
  The synthesised \<open>/proc\<close> files of \<open>core/src/proc_files.cpp\<close>: the guest sees its own address
  space, its own initial stack pointer and an AArch32 processor.

  \<open>maps_entries\<close> is the loop of \<open>build_maps\<close> with each line kept as its fields; \<open>maps_line\<close> prints
  one.  The fixed buffers of \<open>snprintf\<close> are larger than any line printed into them, so nothing is
  cut.  The main results: the entries list exactly the mapped pages, in ascending order, each with
  the permissions and the name of all its pages and as long as possible; and the start of the
  stack is field 28 of the \<open>stat\<close> file, where bionic looks for it.
\<close>

section \<open>Numbers\<close>

definition digit_char :: "nat \<Rightarrow> char" where
  "digit_char d = (if d < 10 then char_of (48 + d) else char_of (87 + d))"

fun digits_in :: "nat \<Rightarrow> nat \<Rightarrow> string" where
  "digits_in b n = (if n < b \<or> b < 2 then [digit_char n] else digits_in b (n div b) @ [digit_char (n mod b)])"

declare digits_in.simps [simp del]

definition dec :: "nat \<Rightarrow> string" where
  "dec = digits_in 10"

definition dec_int :: "int \<Rightarrow> string" where
  "dec_int i = (if i < 0 then CHR ''-'' # dec (nat (- i)) else dec (nat i))"

text \<open>\<open>%08x\<close> and \<open>%08llx\<close>\<close>

definition hex08 :: "nat \<Rightarrow> string" where
  "hex08 n = (let d = digits_in 16 n in replicate (8 - length d) (CHR ''0'') @ d)"

section \<open>The memory map\<close>

definition kKuserPage :: u32 where "kKuserPage = 0xFFFF0000"

definition kPageCount :: nat where "kPageCount = 1048576"

definition name_at :: "process \<Rightarrow> u32 \<Rightarrow> string \<times> u64" where
  "name_at p addr =
     (if addr \<ge> kStackTop - kStackSize \<and> addr < kStackTop then (''[stack]'', 0)
      else if addr = kKuserPage then (''[vectors]'', 0)
      else case find (\<lambda>m. addr \<ge> fm_start m \<and> addr - fm_start m < fm_length m) (file_mappings p) of
          Some m \<Rightarrow> (fm_path m, if \<not> fm_vaddr m then fm_offset m + ucast (addr - fm_start m) else 0)
        | None \<Rightarrow> ([], 0))"

abbreviation page_addr :: "nat \<Rightarrow> u32" where
  "page_addr page \<equiv> of_nat (page * 4096)"

definition flags_at :: "process \<Rightarrow> nat \<Rightarrow> u8" where
  "flags_at p page = page_flags (pmem p) (page_addr page)"

record map_entry =
  me_page :: nat
  me_end :: nat
  me_flags :: u8
  me_offset :: u64
  me_name :: string

definition same_run :: "process \<Rightarrow> u8 \<Rightarrow> string \<Rightarrow> nat \<Rightarrow> bool" where
  "same_run p flags nm page \<longleftrightarrow> flags_at p page = flags \<and> fst (name_at p (page_addr page)) = nm"

text \<open>The inner loop: the end of the run of pages with these flags and this name.\<close>

function run_end :: "process \<Rightarrow> u8 \<Rightarrow> string \<Rightarrow> nat \<Rightarrow> nat" where
  "run_end p flags nm e =
     (if e < kPageCount \<and> same_run p flags nm e then run_end p flags nm (e + 1) else e)"
  by pat_completeness auto
termination
  by (relation "measure (\<lambda>(p, flags, nm, e). kPageCount - e)") auto

declare run_end.simps [simp del]

lemma run_end_ge: "e \<le> run_end p flags nm e"
proof (induction p flags nm e rule: run_end.induct)
  case (1 p flags nm e)
  then show ?case using run_end.simps [of p flags nm e]
    by (cases "e < kPageCount \<and> same_run p flags nm e") auto
qed

function maps_loop :: "process \<Rightarrow> nat \<Rightarrow> map_entry list" where
  "maps_loop p page =
     (if page < kPageCount then
        let flags = flags_at p page
        in if flags AND kPageMapped = 0 then maps_loop p (page + 1)
           else let (nm, offset) = name_at p (page_addr page);
                    e = run_end p flags nm (page + 1)
                in \<lparr>me_page = page, me_end = e, me_flags = flags, me_offset = offset, me_name = nm\<rparr> # maps_loop p e
      else [])"
  by pat_completeness auto
termination
proof (relation "measure (\<lambda>(p, page). kPageCount - page)", simp, simp)
  fix p page x y nm offset e
  assume "page < kPageCount" and e: "e = run_end p x nm (page + 1)"
  then show "((p, e), (p, page)) \<in> measure (\<lambda>(p, page). kPageCount - page)"
    using run_end_ge [of "page + 1" p x nm] by auto
qed

declare maps_loop.simps [simp del]

definition maps_entries :: "process \<Rightarrow> map_entry list" where
  "maps_entries p = maps_loop p 0"

definition flag_char :: "u8 \<Rightarrow> u8 \<Rightarrow> char \<Rightarrow> char" where
  "flag_char flags f c = (if flags AND f \<noteq> 0 then c else CHR ''-'')"

definition maps_line :: "map_entry \<Rightarrow> string" where
  "maps_line e =
     hex08 (me_page e * 4096) @ ''-'' @ hex08 (me_end e * 4096) @ '' '' @
     [flag_char (me_flags e) kPageRead (CHR ''r''), flag_char (me_flags e) kPageWrite (CHR ''w''),
      flag_char (me_flags e) kPageExec (CHR ''x''), CHR ''p'', CHR '' ''] @
     hex08 (unat (me_offset e)) @ '' 00:00 0'' @
     (if me_name e \<noteq> [] then replicate 20 (CHR '' '') @ me_name e else []) @ [char_of (10 :: nat)]"

definition build_maps :: "process \<Rightarrow> string" where
  "build_maps p = concat (map maps_line (maps_entries p))"

section \<open>The other files\<close>

text \<open>The fields of the \<open>stat\<close> line, as the format string has them; \<open>%d\<close> prints an \<open>int\<close>.\<close>

definition as_int :: "int \<Rightarrow> int" where
  "as_int i = sint (word_of_int i :: u32)"

definition stat_fields :: "int \<Rightarrow> int \<Rightarrow> int \<Rightarrow> int \<Rightarrow> nat \<Rightarrow> u32 \<Rightarrow> string list" where
  "stat_fields pid ppid pgrp sid nthreads sp =
     [dec_int (as_int pid), ''(zbguest)'', ''R'', dec_int (as_int ppid), dec_int (as_int pgrp), dec_int (as_int sid),
      ''0'', ''-1'', ''4194304'', ''0'', ''0'', ''0'', ''0'', ''0'', ''0'', ''0'', ''0'', ''20'', ''0'', dec nthreads,
      ''0'', ''0'', dec 0, ''0'', ''4294967295'', dec 0, dec 0, dec (unat sp)] @
     replicate 9 ''0'' @ [''17''] @ replicate 14 ''0''"

fun join_words :: "string list \<Rightarrow> string" where
  "join_words [] = []"
| "join_words [w] = w"
| "join_words (w # ws) = w @ '' '' @ join_words ws"

definition build_stat :: "'h env \<Rightarrow> 'h ctx \<Rightarrow> string \<times> 'h ctx" where
  "build_stat E c =
     (case hcall E ''getpid'' [] c of (r1, c1) \<Rightarrow>
      case hcall E ''getppid'' [] c1 of (r2, c2) \<Rightarrow>
      case hcall E ''getpgrp'' [] c2 of (r3, c3) \<Rightarrow>
      case hcall E ''getsid'' [AInt 0] c3 of (r4, c4) \<Rightarrow>
        (join_words (stat_fields (rc r1) (rc r2) (rc r3) (rc r4) (thread_count (proc c)) (initial_sp (proc c))) @
           [char_of (10 :: nat)], c4))"

definition tab :: string where "tab = [char_of (9 :: nat)]"
definition newline :: string where "newline = [char_of (10 :: nat)]"

definition cpu_block :: "nat \<Rightarrow> string" where
  "cpu_block i =
     ''processor'' @ tab @ '': '' @ dec i @ newline @
     ''model name'' @ tab @ '': ARMv8 Processor rev 2 (v8l)'' @ newline @
     ''BogoMIPS'' @ tab @ '': 38.40'' @ newline @
     ''Features'' @ tab @ '': half thumb fastmult vfp edsp neon vfpv3 tls vfpv4 idiva idivt vfpd32 lpae evtstrm'' @ newline @
     ''CPU implementer'' @ tab @ '': 0x51'' @ newline @
     ''CPU architecture: 8'' @ newline @
     ''CPU variant'' @ tab @ '': 0x0'' @ newline @
     ''CPU part'' @ tab @ '': 0x001'' @ newline @
     ''CPU revision'' @ tab @ '': 2'' @ newline @ newline"

text \<open>\<open>CPU_COUNT\<close> of the 128-byte set that \<open>sched_getaffinity\<close> filled.\<close>

definition cpu_count :: "u8 list \<Rightarrow> nat" where
  "cpu_count bs = sum_list (map (\<lambda>b. length (filter (bit b) [0..<8])) (take 128 bs))"

definition cpuinfo_text :: "'h env \<Rightarrow> 'h ctx \<Rightarrow> string \<times> 'h ctx" where
  "cpuinfo_text E c =
     (case hcall E ''sched_getaffinity'' [AInt 0, AInt 128, AOut] c of (r, c1) \<Rightarrow>
        (concat (map cpu_block [0..<(if rc r = 0 then cpu_count (blob r) else 1)]) @
           ''Hardware'' @ tab @ '': ZettaBridge'' @ newline, c1))"

definition O_ACCMODE :: u32 where "O_ACCMODE = 3"
definition O_RDONLY :: u32 where "O_RDONLY = 0"
definition O_CLOEXEC :: u32 where "O_CLOEXEC = 0x80000"
definition kMfdCloexec :: int where "kMfdCloexec = 1"

text \<open>The loop of \<open>write\<close> calls; the result is 0, or the error that ended it.\<close>

function write_all :: "'h env \<Rightarrow> int \<Rightarrow> string \<Rightarrow> 'h ctx \<Rightarrow> nat \<times> 'h ctx" where
  "write_all E fd text c =
     (if text = [] then (0, c)
      else case hcall E ''write'' [AInt fd, AStr text] c of (r, c1) \<Rightarrow>
        if rc r \<le> 0 then (if rc r < 0 then err r else EIO, snd (hcall E ''close'' [AInt fd] c1))
        else write_all E fd (drop (nat (rc r)) text) c1)"
  by pat_completeness auto
termination
  by (relation "measure (\<lambda>(E, fd, text, c). length text)") auto

declare write_all.simps [simp del]

definition memfd_with :: "'h env \<Rightarrow> string \<Rightarrow> u32 \<Rightarrow> 'h ctx \<Rightarrow> u32 \<times> 'h ctx" where
  "memfd_with E text flags c =
     (case hcall E ''memfd_create'' [AStr ''zbridge-proc'', AInt (if flags AND O_CLOEXEC \<noteq> 0 then kMfdCloexec else 0)] c of (r, c1) \<Rightarrow>
        if rc r < 0 then (neg (err r), c1)
        else case write_all E (rc r) text c1 of (e, c2) \<Rightarrow>
          if e \<noteq> 0 then (neg e, c2)
          else case hcall E ''lseek'' [AInt (rc r), AInt 0, AInt 0] c2 of (_, c3) \<Rightarrow> (word_of_int (rc r), c3))"

definition is_self_path :: "'h env \<Rightarrow> string \<Rightarrow> string \<Rightarrow> 'h ctx \<Rightarrow> bool \<times> 'h ctx" where
  "is_self_path E path leaf c =
     (if path = ''/proc/self/'' @ leaf then (True, c)
      else if path = ''/proc/thread-self/'' @ leaf then (True, c)
      else case hcall E ''getpid'' [] c of (r, c1) \<Rightarrow> (path = ''/proc/'' @ dec_int (rc r) @ ''/'' @ leaf, c1))"

text \<open>The text of a synthesised file, if the path names one.\<close>

definition synthetic_text :: "'h env \<Rightarrow> string \<Rightarrow> 'h ctx \<Rightarrow> string option \<times> 'h ctx" where
  "synthetic_text E path c =
     (case is_self_path E path ''maps'' c of (b1, c1) \<Rightarrow>
        if b1 then (Some (build_maps (proc c1)), c1)
        else case is_self_path E path ''stat'' c1 of (b2, c2) \<Rightarrow>
          if b2 then (case build_stat E c2 of (t, c3) \<Rightarrow> (Some t, c3))
          else if path = ''/proc/cpuinfo'' then (case cpuinfo_text E c2 of (t, c3) \<Rightarrow> (Some t, c3))
          else (None, c2))"

definition open_synthetic_file :: "'h env \<Rightarrow> string \<Rightarrow> u32 \<Rightarrow> 'h ctx \<Rightarrow> u32 option \<times> 'h ctx" where
  "open_synthetic_file E path flags c =
     (case synthetic_text E path c of (t, c1) \<Rightarrow>
        case t of
          None \<Rightarrow> (None, c1)
        | Some text \<Rightarrow>
            if flags AND O_ACCMODE \<noteq> O_RDONLY then (Some (neg EACCES), c1)
            else (case memfd_with E text flags c1 of (x, c2) \<Rightarrow> (Some x, c2)))"

section \<open>What the host sees of them\<close>

lemma write_all_ok: "sys_ok c (snd (write_all E fd s c))"
proof (induction E fd s c rule: write_all.induct)
  case (1 E fd s c)
  show ?case
  proof (cases "s = []")
    case False
    obtain r c1 where h: "hcall E ''write'' [AInt fd, AStr s] c = (r, c1)" by fastforce
    have "sys_ok c1 (snd (hcall E ''close'' [AInt fd] c1))"
      by (rule sys_ok_hcall [OF _ surjective_pairing]) simp
    then have "sys_ok c1 (snd (if rc r \<le> 0 then (if rc r < 0 then err r else EIO, snd (hcall E ''close'' [AInt fd] c1))
        else write_all E fd (drop (nat (rc r)) s) c1))"
      using 1 [OF False h [symmetric]] by (intro sys_ok_if sys_ok_pair)
    then show ?thesis unfolding write_all.simps [of E fd s c] h
      using False sys_ok_trans [OF sys_ok_hcall [OF _ h]] by simp
  qed (simp add: write_all.simps sys_ok_refl)
qed

lemma memfd_with_ok: "sys_ok c (snd (memfd_with E text flags c))"
  unfolding memfd_with_def
  by (intro sys_okI sys_ok_case_pair [OF write_all_ok]) simp_all

lemma is_self_path_ok: "sys_ok c (snd (is_self_path E path leaf c))"
  unfolding is_self_path_def by (intro sys_okI) simp_all

lemma build_stat_ok: "sys_ok c (snd (build_stat E c))"
  unfolding build_stat_def by (intro sys_okI) simp_all

lemma cpuinfo_text_ok: "sys_ok c (snd (cpuinfo_text E c))"
  unfolding cpuinfo_text_def by (intro sys_okI) simp_all

lemma synthetic_text_ok: "sys_ok c (snd (synthetic_text E path c))"
  unfolding synthetic_text_def
  by (intro sys_ok_if sys_ok_pair sys_ok_refl sys_ok_case_pair [OF is_self_path_ok]
      sys_ok_case_pair [OF build_stat_ok] sys_ok_case_pair [OF cpuinfo_text_ok])

lemma open_synthetic_file_ok: "sys_ok c (snd (open_synthetic_file E path flags c))"
  unfolding open_synthetic_file_def
  by (intro sys_ok_if sys_ok_option sys_ok_pair sys_ok_refl sys_ok_case_pair [OF synthetic_text_ok]
      sys_ok_case_pair [OF memfd_with_ok])

section \<open>The start of the stack\<close>

text \<open>The words of a line, the way a reader of \<open>/proc/self/stat\<close> splits it at the blanks.\<close>

fun words :: "string \<Rightarrow> string list" where
  "words [] = [[]]"
| "words (ch # cs) = (if ch = CHR '' '' then [] # words cs else (ch # hd (words cs)) # tl (words cs))"

lemma words_append:
  assumes "CHR '' '' \<notin> set w" shows "words (w @ '' '' @ r) = w # words r"
  using assms by (induction w) auto

lemma words_join:
  "i + 1 < length ws \<Longrightarrow> \<forall>w \<in> set ws. CHR '' '' \<notin> set w \<Longrightarrow> words (join_words ws @ t) ! i = ws ! i"
proof (induction ws arbitrary: i rule: join_words.induct)
  case (3 w v vs)
  then show ?case using words_append [of w "join_words (v # vs) @ t"] by (cases i) simp_all
qed simp_all

lemma digit_char_not_blank: "d < 16 \<Longrightarrow> digit_char d \<noteq> CHR '' ''"
proof -
  assume "d < 16"
  then have "of_char (digit_char d) = (if d < 10 then 48 + d else 87 + d)"
    by (auto simp: digit_char_def)
  then show ?thesis by (auto split: if_splits)
qed

lemma digits_no_blank: "2 \<le> b \<Longrightarrow> b \<le> 16 \<Longrightarrow> CHR '' '' \<notin> set (digits_in b n)"
proof (induction b n rule: digits_in.induct)
  case (1 b n)
  have "n mod b < 16" using 1(2,3) mod_less_divisor [of b n] by linarith
  then show ?case using 1 digit_char_not_blank [of n] digit_char_not_blank [of "n mod b"]
    by (subst digits_in.simps) auto
qed

lemma dec_no_blank: "CHR '' '' \<notin> set (dec n)" "CHR '' '' \<notin> set (dec_int i)"
  using digits_no_blank [of 10] by (auto simp: dec_def dec_int_def)

text \<open>
  The start of the stack that bionic reads: field 28 of the \<open>/proc/self/stat\<close> text is the
  initial stack pointer of the main thread in decimal, and field 20 the number of its threads.
\<close>

lemma stat_startstack:
  "words (fst (build_stat E c)) ! 27 = dec (unat (initial_sp (proc c))) \<and>
   words (fst (build_stat E c)) ! 19 = dec (thread_count (proc c))"
proof -
  obtain a b d e where s: "fst (build_stat E c) =
      join_words (stat_fields a b d e (thread_count (proc c)) (initial_sp (proc c))) @ [char_of (10 :: nat)]"
    by (simp add: build_stat_def case_prod_beta)
  have "\<forall>w \<in> set (stat_fields a b d e n sp). CHR '' '' \<notin> set w" for n sp
    unfolding stat_fields_def by (simp add: dec_no_blank)
  then have "words (fst (build_stat E c)) ! i = stat_fields a b d e (thread_count (proc c)) (initial_sp (proc c)) ! i"
    if "i < 30" for i unfolding s by (intro words_join) (use that in \<open>simp_all add: stat_fields_def\<close>)
  from this [of 27] this [of 19] show ?thesis by (simp add: stat_fields_def)
qed

section \<open>The map lists the address space\<close>

lemma run_end_spec:
  "e \<le> kPageCount \<Longrightarrow> run_end p flags nm e \<le> kPageCount \<and>
     (\<forall>i. e \<le> i \<and> i < run_end p flags nm e \<longrightarrow> same_run p flags nm i) \<and>
     (run_end p flags nm e < kPageCount \<longrightarrow> \<not> same_run p flags nm (run_end p flags nm e))"
proof (induction p flags nm e rule: run_end.induct)
  case (1 p flags nm e)
  show ?case
  proof (cases "e < kPageCount \<and> same_run p flags nm e")
    case True
    then have r: "run_end p flags nm e = run_end p flags nm (e + 1)" by (simp add: run_end.simps [of p flags nm e])
    have ih: "run_end p flags nm (e + 1) \<le> kPageCount"
      "\<And>i. e + 1 \<le> i \<Longrightarrow> i < run_end p flags nm (e + 1) \<Longrightarrow> same_run p flags nm i"
      "run_end p flags nm (e + 1) < kPageCount \<Longrightarrow> \<not> same_run p flags nm (run_end p flags nm (e + 1))"
      using 1(1) True by auto
    have "same_run p flags nm i" if "e \<le> i" "i < run_end p flags nm (e + 1)" for i
      using that True ih(2) by (cases "i = e") auto
    then show ?thesis using ih(1,3) unfolding r by blast
  next
    case False
    then have "run_end p flags nm e = e" by (subst run_end.simps) (rule if_not_P)
    then show ?thesis using 1(2) False by auto
  qed
qed

definition entry_ok :: "process \<Rightarrow> map_entry \<Rightarrow> bool" where
  "entry_ok p e \<longleftrightarrow> me_page e < me_end e \<and> me_end e \<le> kPageCount \<and> me_flags e AND kPageMapped \<noteq> 0 \<and>
     (\<forall>i. me_page e \<le> i \<and> i < me_end e \<longrightarrow> same_run p (me_flags e) (me_name e) i) \<and>
     (me_end e < kPageCount \<longrightarrow> \<not> same_run p (me_flags e) (me_name e) (me_end e))"

text \<open>One round of the outer loop on a mapped page.\<close>

lemma maps_loop_mapped:
  assumes "page < kPageCount" "flags_at p page AND kPageMapped \<noteq> 0"
  obtains e where "maps_loop p page = e # maps_loop p (me_end e)" "entry_ok p e" "me_page e = page"
proof -
  let ?f = "flags_at p page" and ?nm = "fst (name_at p (page_addr page))"
  let ?e = "\<lparr>me_page = page, me_end = run_end p ?f ?nm (page + 1), me_flags = ?f,
    me_offset = snd (name_at p (page_addr page)), me_name = ?nm\<rparr>"
  have "maps_loop p page = ?e # maps_loop p (me_end ?e)"
    using assms by (simp add: maps_loop.simps [of p page] Let_def case_prod_beta)
  moreover have "entry_ok p ?e"
  proof -
    have r: "run_end p ?f ?nm (page + 1) \<le> kPageCount"
      "\<And>i. page + 1 \<le> i \<Longrightarrow> i < run_end p ?f ?nm (page + 1) \<Longrightarrow> same_run p ?f ?nm i"
      "run_end p ?f ?nm (page + 1) < kPageCount \<Longrightarrow> \<not> same_run p ?f ?nm (run_end p ?f ?nm (page + 1))"
      using run_end_spec [of "page + 1" p ?f ?nm] assms(1) by auto
    have "same_run p ?f ?nm page" by (simp add: same_run_def)
    then have "same_run p ?f ?nm i" if "page \<le> i" "i < run_end p ?f ?nm (page + 1)" for i
      using that r(2) by (cases "i = page") auto
    moreover have "page < run_end p ?f ?nm (page + 1)" using run_end_ge [of "page + 1" p ?f ?nm] by simp
    ultimately show ?thesis unfolding entry_ok_def using r(1,3) assms(2) by simp
  qed
  ultimately show ?thesis by (rule that) simp
qed

lemma maps_loop_spec:
  "list_all (entry_ok p) (maps_loop p page) \<and> sorted_wrt (\<lambda>a b. me_end a \<le> me_page b) (maps_loop p page) \<and>
     (\<forall>e \<in> set (maps_loop p page). page \<le> me_page e) \<and>
     (\<forall>i. page \<le> i \<and> i < kPageCount \<and> flags_at p i AND kPageMapped \<noteq> 0 \<longrightarrow>
        (\<exists>e \<in> set (maps_loop p page). me_page e \<le> i \<and> i < me_end e))"
proof (induction "kPageCount - page" arbitrary: page rule: less_induct)
  case less
  consider "\<not> page < kPageCount" | "page < kPageCount" "flags_at p page AND kPageMapped = 0"
    | "page < kPageCount" "flags_at p page AND kPageMapped \<noteq> 0" by blast
  then show ?case
  proof cases
    case 1
    then show ?thesis by (simp add: maps_loop.simps)
  next
    case 2
    then have m: "maps_loop p page = maps_loop p (page + 1)" by (simp add: maps_loop.simps [of p page])
    have ih: "list_all (entry_ok p) (maps_loop p (page + 1))" "sorted_wrt (\<lambda>a b. me_end a \<le> me_page b) (maps_loop p (page + 1))"
      "\<And>e. e \<in> set (maps_loop p (page + 1)) \<Longrightarrow> page + 1 \<le> me_page e"
      "\<And>i. page + 1 \<le> i \<Longrightarrow> i < kPageCount \<Longrightarrow> flags_at p i AND kPageMapped \<noteq> 0 \<Longrightarrow>
         \<exists>e \<in> set (maps_loop p (page + 1)). me_page e \<le> i \<and> i < me_end e"
      using less [of "page + 1"] 2(1) by auto
    have "i \<noteq> page" if "flags_at p i AND kPageMapped \<noteq> 0" for i using that 2(2) by auto
    then have "page \<le> i \<Longrightarrow> flags_at p i AND kPageMapped \<noteq> 0 \<Longrightarrow> page + 1 \<le> i" for i
      by (metis Suc_eq_plus1 Suc_leI le_neq_implies_less)
    then show ?thesis unfolding m using ih by (meson add_leD1)
  next
    case 3
    then obtain e where e: "maps_loop p page = e # maps_loop p (me_end e)" "entry_ok p e" "me_page e = page"
      by (rule maps_loop_mapped)
    have lt: "page < me_end e" using e(2,3) by (simp add: entry_ok_def)
    then have ih: "list_all (entry_ok p) (maps_loop p (me_end e))" "sorted_wrt (\<lambda>a b. me_end a \<le> me_page b) (maps_loop p (me_end e))"
      "\<And>x. x \<in> set (maps_loop p (me_end e)) \<Longrightarrow> me_end e \<le> me_page x"
      "\<And>i. me_end e \<le> i \<Longrightarrow> i < kPageCount \<Longrightarrow> flags_at p i AND kPageMapped \<noteq> 0 \<Longrightarrow>
         \<exists>x \<in> set (maps_loop p (me_end e)). me_page x \<le> i \<and> i < me_end x"
      using less [of "me_end e"] 3(1) by auto
    have cov: "\<exists>x \<in> set (e # maps_loop p (me_end e)). me_page x \<le> i \<and> i < me_end x"
      if "page \<le> i" "i < kPageCount" "flags_at p i AND kPageMapped \<noteq> 0" for i
      using that ih(4) [of i] e(3) by (cases "i < me_end e") auto
    have "page \<le> me_page x" if "x \<in> set (e # maps_loop p (me_end e))" for x
      using that ih(3) [of x] lt e(3) by auto
    then show ?thesis unfolding e(1) using ih(1-3) e(2) cov by simp
  qed
qed

lemma flags_at_pages:
  assumes "page < kPageCount" shows "flags_at p page = pages (pmem p) page"
proof -
  have "unat (page_addr page) = page * 4096" using assms by (intro unat_eq_of_nat) (simp add: kPageCount_def)
  then show ?thesis by (simp add: flags_at_def page_flags_def unat_drop_bit del: of_nat_mult)
qed

lemma maps_entry_covers:
  assumes "page < kPageCount"
  shows "flags_at p page AND kPageMapped \<noteq> 0 \<longleftrightarrow>
    (\<exists>e. e \<in> set (maps_entries p) \<and> me_page e \<le> page \<and> page < me_end e \<and> same_run p (me_flags e) (me_name e) page)"
proof
  assume "flags_at p page AND kPageMapped \<noteq> 0"
  then obtain e where "e \<in> set (maps_entries p)" "me_page e \<le> page" "page < me_end e" "entry_ok p e"
    using maps_loop_spec [of p 0] assms unfolding maps_entries_def list_all_iff by blast
  then show "\<exists>e. e \<in> set (maps_entries p) \<and> me_page e \<le> page \<and> page < me_end e \<and> same_run p (me_flags e) (me_name e) page"
    unfolding entry_ok_def by blast
next
  assume "\<exists>e. e \<in> set (maps_entries p) \<and> me_page e \<le> page \<and> page < me_end e \<and> same_run p (me_flags e) (me_name e) page"
  then show "flags_at p page AND kPageMapped \<noteq> 0"
    using maps_loop_spec [of p 0] unfolding maps_entries_def list_all_iff entry_ok_def same_run_def by metis
qed

text \<open>
  C39: The memory map of the guest lists its address space exactly.  The entries are in ascending
  order and do not overlap; the address is in a mapped page iff an entry contains it, and that
  entry has the permission flags and the name of the page; and no entry can be extended: its run
  ends at the end of the space or at a page with other flags or another name.
\<close>

theorem maps_list_address_space:
  "sorted_wrt (\<lambda>a b. me_end a \<le> me_page b) (maps_entries p) \<and> list_all (entry_ok p) (maps_entries p) \<and>
   (pages (pmem p) (unat (addr :: u32) div 4096) AND kPageMapped \<noteq> 0 \<longleftrightarrow>
      (\<exists>e. e \<in> set (maps_entries p) \<and> me_page e * 4096 \<le> unat addr \<and> unat addr < me_end e * 4096 \<and>
           me_flags e = pages (pmem p) (unat addr div 4096) \<and>
           me_name e = fst (name_at p (page_addr (unat addr div 4096)))))"
proof -
  let ?i = "unat addr div 4096"
  have i: "?i < kPageCount" using unat_less_u32 [of addr] by (simp add: kPageCount_def div_less_iff_less_mult)
  have le: "k * 4096 \<le> unat addr \<longleftrightarrow> k \<le> ?i" "unat addr < k * 4096 \<longleftrightarrow> ?i < k" for k
    by (simp_all add: less_eq_div_iff_mult_less_eq div_less_iff_less_mult)
  have "same_run p f nm ?i \<longleftrightarrow> f = pages (pmem p) ?i \<and> nm = fst (name_at p (page_addr ?i))" for f nm
    unfolding same_run_def flags_at_pages [OF i] by blast
  then show ?thesis
    using maps_entry_covers [OF i, of p] maps_loop_spec [of p 0] unfolding le flags_at_pages [OF i] maps_entries_def
    by simp
qed

end
