(* ===== verification/Syscalls.thy ===== *)
theory Syscalls
  imports Syscall_Memory Syscall_Proc Syscall_Net Proc_Files
begin

text \<open>
  The dispatcher \<open>handle_syscall\<close> of \<open>core/src/syscalls.cpp\<close>.

  Each group of cases of the switch is a table from system call numbers to handlers; the calls that
  end the thread or the process, return from a signal, create a thread or may not return are
  separate.  The entries of the runtime report that the dispatcher writes (thread activity, watched
  opens) and the trace log are diagnostics and not modelled.

  The results: no system call hands the host a guest range without the permission the host needs
  for it, and, the memory calls apart, none changes a guest page it may not write, a register other
  than \<open>r0\<close>, or the mask of the signals that cannot be blocked; the tables have no duplicate case.
\<close>

section \<open>Numbers\<close>

definition NR_exit :: u32 where "NR_exit = 1"
definition NR_exit_group :: u32 where "NR_exit_group = 248"
definition NR_clone :: u32 where "NR_clone = 120"
definition NR_read :: u32 where "NR_read = 3"
definition NR_write :: u32 where "NR_write = 4"
definition NR_pread64 :: u32 where "NR_pread64 = 180"
definition NR_pwrite64 :: u32 where "NR_pwrite64 = 181"
definition NR_readv :: u32 where "NR_readv = 145"
definition NR_writev :: u32 where "NR_writev = 146"
definition NR_close :: u32 where "NR_close = 6"
definition NR_dup :: u32 where "NR_dup = 41"
definition NR_dup3 :: u32 where "NR_dup3 = 358"
definition NR_pipe2 :: u32 where "NR_pipe2 = 359"
definition NR_lseek :: u32 where "NR_lseek = 19"
definition NR__llseek :: u32 where "NR__llseek = 140"
definition NR_fcntl64 :: u32 where "NR_fcntl64 = 221"
definition NR_ioctl :: u32 where "NR_ioctl = 54"
definition NR_openat :: u32 where "NR_openat = 322"
definition NR_faccessat :: u32 where "NR_faccessat = 334"
definition NR_faccessat2 :: u32 where "NR_faccessat2 = 439"
definition NR_unlinkat :: u32 where "NR_unlinkat = 328"
definition NR_mkdirat :: u32 where "NR_mkdirat = 323"
definition NR_readlinkat :: u32 where "NR_readlinkat = 332"
definition NR_getcwd :: u32 where "NR_getcwd = 183"
definition NR_fstat64 :: u32 where "NR_fstat64 = 197"
definition NR_fstatat64 :: u32 where "NR_fstatat64 = 327"
definition NR_statx :: u32 where "NR_statx = 397"
definition NR_fstatfs64 :: u32 where "NR_fstatfs64 = 267"
definition NR_statfs64 :: u32 where "NR_statfs64 = 266"
definition NR_brk :: u32 where "NR_brk = 45"
definition NR_mmap2 :: u32 where "NR_mmap2 = 192"
definition NR_munmap :: u32 where "NR_munmap = 91"
definition NR_mprotect :: u32 where "NR_mprotect = 125"
definition NR_madvise :: u32 where "NR_madvise = 220"
definition NR_mremap :: u32 where "NR_mremap = 163"
definition NR_ARM_set_tls :: u32 where "NR_ARM_set_tls = 983045"
definition NR_ARM_get_tls :: u32 where "NR_ARM_get_tls = 983046"
definition NR_ARM_cacheflush :: u32 where "NR_ARM_cacheflush = 983042"
definition NR_set_tid_address :: u32 where "NR_set_tid_address = 256"
definition NR_getpid :: u32 where "NR_getpid = 20"
definition NR_getppid :: u32 where "NR_getppid = 64"
definition NR_gettid :: u32 where "NR_gettid = 224"
definition NR_getuid32 :: u32 where "NR_getuid32 = 199"
definition NR_geteuid32 :: u32 where "NR_geteuid32 = 201"
definition NR_getgid32 :: u32 where "NR_getgid32 = 200"
definition NR_getegid32 :: u32 where "NR_getegid32 = 202"
definition NR_rt_sigaction :: u32 where "NR_rt_sigaction = 174"
definition NR_rt_sigprocmask :: u32 where "NR_rt_sigprocmask = 175"
definition NR_sigaltstack :: u32 where "NR_sigaltstack = 186"
definition NR_kill :: u32 where "NR_kill = 37"
definition NR_tkill :: u32 where "NR_tkill = 238"
definition NR_tgkill :: u32 where "NR_tgkill = 268"
definition NR_rt_sigreturn :: u32 where "NR_rt_sigreturn = 173"
definition NR_sigreturn :: u32 where "NR_sigreturn = 119"
definition NR_clock_gettime :: u32 where "NR_clock_gettime = 263"
definition NR_clock_getres :: u32 where "NR_clock_getres = 264"
definition NR_clock_gettime64 :: u32 where "NR_clock_gettime64 = 403"
definition NR_clock_getres_time64 :: u32 where "NR_clock_getres_time64 = 406"
definition NR_gettimeofday :: u32 where "NR_gettimeofday = 78"
definition NR_nanosleep :: u32 where "NR_nanosleep = 162"
definition NR_clock_nanosleep :: u32 where "NR_clock_nanosleep = 265"
definition NR_clock_nanosleep_time64 :: u32 where "NR_clock_nanosleep_time64 = 407"
definition NR_futex :: u32 where "NR_futex = 240"
definition NR_futex_time64 :: u32 where "NR_futex_time64 = 422"
definition NR_sched_yield :: u32 where "NR_sched_yield = 158"
definition NR_sched_getaffinity :: u32 where "NR_sched_getaffinity = 242"
definition NR_getrandom :: u32 where "NR_getrandom = 384"
definition NR_prctl :: u32 where "NR_prctl = 172"
definition NR_uname :: u32 where "NR_uname = 122"
definition NR_ugetrlimit :: u32 where "NR_ugetrlimit = 191"
definition NR_prlimit64 :: u32 where "NR_prlimit64 = 369"
definition NR_personality :: u32 where "NR_personality = 136"
definition NR_sched_getscheduler :: u32 where "NR_sched_getscheduler = 157"
definition NR_socket :: u32 where "NR_socket = 281"
definition NR_connect :: u32 where "NR_connect = 283"
definition NR_rt_tgsigqueueinfo :: u32 where "NR_rt_tgsigqueueinfo = 363"
definition NR_getdents64 :: u32 where "NR_getdents64 = 217"
definition NR_renameat :: u32 where "NR_renameat = 329"
definition NR_renameat2 :: u32 where "NR_renameat2 = 382"
definition NR_linkat :: u32 where "NR_linkat = 330"
definition NR_symlinkat :: u32 where "NR_symlinkat = 331"
definition NR_fchmodat :: u32 where "NR_fchmodat = 333"
definition NR_fchownat :: u32 where "NR_fchownat = 325"
definition NR_chdir :: u32 where "NR_chdir = 12"
definition NR_truncate64 :: u32 where "NR_truncate64 = 193"
definition NR_ftruncate64 :: u32 where "NR_ftruncate64 = 194"
definition NR_utimensat :: u32 where "NR_utimensat = 348"
definition NR_utimensat_time64 :: u32 where "NR_utimensat_time64 = 412"
definition NR_fchmod :: u32 where "NR_fchmod = 94"
definition NR_fchown32 :: u32 where "NR_fchown32 = 207"
definition NR_fsync :: u32 where "NR_fsync = 118"
definition NR_fdatasync :: u32 where "NR_fdatasync = 148"
definition NR_flock :: u32 where "NR_flock = 143"
definition NR_umask :: u32 where "NR_umask = 60"
definition NR_fchdir :: u32 where "NR_fchdir = 133"
definition NR_dup2 :: u32 where "NR_dup2 = 63"
definition NR_pipe :: u32 where "NR_pipe = 42"
definition NR_memfd_create :: u32 where "NR_memfd_create = 385"
definition NR_msync :: u32 where "NR_msync = 144"
definition NR_mlock :: u32 where "NR_mlock = 150"
definition NR_munlock :: u32 where "NR_munlock = 151"
definition NR_poll :: u32 where "NR_poll = 168"
definition NR_ppoll :: u32 where "NR_ppoll = 336"
definition NR_ppoll_time64 :: u32 where "NR_ppoll_time64 = 414"
definition NR__newselect :: u32 where "NR__newselect = 142"
definition NR_pselect6 :: u32 where "NR_pselect6 = 335"
definition NR_pselect6_time64 :: u32 where "NR_pselect6_time64 = 413"
definition NR_eventfd2 :: u32 where "NR_eventfd2 = 356"
definition NR_epoll_create1 :: u32 where "NR_epoll_create1 = 357"
definition NR_epoll_ctl :: u32 where "NR_epoll_ctl = 251"
definition NR_epoll_wait :: u32 where "NR_epoll_wait = 252"
definition NR_epoll_pwait :: u32 where "NR_epoll_pwait = 346"
definition NR_timerfd_create :: u32 where "NR_timerfd_create = 350"
definition NR_timerfd_settime :: u32 where "NR_timerfd_settime = 353"
definition NR_timerfd_gettime :: u32 where "NR_timerfd_gettime = 354"
definition NR_bind :: u32 where "NR_bind = 282"
definition NR_listen :: u32 where "NR_listen = 284"
definition NR_accept :: u32 where "NR_accept = 285"
definition NR_accept4 :: u32 where "NR_accept4 = 366"
definition NR_getsockname :: u32 where "NR_getsockname = 286"
definition NR_getpeername :: u32 where "NR_getpeername = 287"
definition NR_socketpair :: u32 where "NR_socketpair = 288"
definition NR_send :: u32 where "NR_send = 289"
definition NR_sendto :: u32 where "NR_sendto = 290"
definition NR_recv :: u32 where "NR_recv = 291"
definition NR_recvfrom :: u32 where "NR_recvfrom = 292"
definition NR_shutdown :: u32 where "NR_shutdown = 293"
definition NR_setsockopt :: u32 where "NR_setsockopt = 294"
definition NR_getsockopt :: u32 where "NR_getsockopt = 295"
definition NR_sendmsg :: u32 where "NR_sendmsg = 296"
definition NR_recvmsg :: u32 where "NR_recvmsg = 297"
definition NR_setitimer :: u32 where "NR_setitimer = 104"
definition NR_getitimer :: u32 where "NR_getitimer = 105"
definition NR_times :: u32 where "NR_times = 43"
definition NR_getrusage :: u32 where "NR_getrusage = 77"
definition NR_wait4 :: u32 where "NR_wait4 = 114"
definition NR_sysinfo :: u32 where "NR_sysinfo = 116"
definition NR_getpriority :: u32 where "NR_getpriority = 96"
definition NR_setpriority :: u32 where "NR_setpriority = 97"
definition NR_sched_setaffinity :: u32 where "NR_sched_setaffinity = 241"
definition NR_getpgid :: u32 where "NR_getpgid = 132"
definition NR_setsid :: u32 where "NR_setsid = 66"
definition NR_rt_sigpending :: u32 where "NR_rt_sigpending = 176"

lemmas nr_defs =
  NR_exit_def NR_exit_group_def NR_clone_def NR_read_def NR_write_def NR_pread64_def NR_pwrite64_def
  NR_readv_def NR_writev_def NR_close_def NR_dup_def NR_dup3_def NR_pipe2_def NR_lseek_def NR__llseek_def
  NR_fcntl64_def NR_ioctl_def NR_openat_def NR_faccessat_def NR_faccessat2_def NR_unlinkat_def
  NR_mkdirat_def NR_readlinkat_def NR_getcwd_def NR_fstat64_def NR_fstatat64_def NR_statx_def
  NR_fstatfs64_def NR_statfs64_def NR_brk_def NR_mmap2_def NR_munmap_def NR_mprotect_def NR_madvise_def
  NR_mremap_def NR_ARM_set_tls_def NR_ARM_get_tls_def NR_ARM_cacheflush_def NR_set_tid_address_def
  NR_getpid_def NR_getppid_def NR_gettid_def NR_getuid32_def NR_geteuid32_def NR_getgid32_def
  NR_getegid32_def NR_rt_sigaction_def NR_rt_sigprocmask_def NR_sigaltstack_def NR_kill_def NR_tkill_def
  NR_tgkill_def NR_rt_sigreturn_def NR_sigreturn_def NR_clock_gettime_def NR_clock_getres_def
  NR_clock_gettime64_def NR_clock_getres_time64_def NR_gettimeofday_def NR_nanosleep_def
  NR_clock_nanosleep_def NR_clock_nanosleep_time64_def NR_futex_def NR_futex_time64_def NR_sched_yield_def
  NR_sched_getaffinity_def NR_getrandom_def NR_prctl_def NR_uname_def NR_ugetrlimit_def NR_prlimit64_def
  NR_personality_def NR_sched_getscheduler_def NR_socket_def NR_connect_def NR_rt_tgsigqueueinfo_def
  NR_getdents64_def NR_renameat_def NR_renameat2_def NR_linkat_def NR_symlinkat_def NR_fchmodat_def
  NR_fchownat_def NR_chdir_def NR_truncate64_def NR_ftruncate64_def NR_utimensat_def
  NR_utimensat_time64_def NR_fchmod_def NR_fchown32_def NR_fsync_def NR_fdatasync_def NR_flock_def
  NR_umask_def NR_fchdir_def NR_dup2_def NR_pipe_def NR_memfd_create_def NR_msync_def NR_mlock_def
  NR_munlock_def NR_poll_def NR_ppoll_def NR_ppoll_time64_def NR__newselect_def NR_pselect6_def
  NR_pselect6_time64_def NR_eventfd2_def NR_epoll_create1_def NR_epoll_ctl_def NR_epoll_wait_def
  NR_epoll_pwait_def NR_timerfd_create_def NR_timerfd_settime_def NR_timerfd_gettime_def NR_bind_def
  NR_listen_def NR_accept_def NR_accept4_def NR_getsockname_def NR_getpeername_def NR_socketpair_def
  NR_send_def NR_sendto_def NR_recv_def NR_recvfrom_def NR_shutdown_def NR_setsockopt_def
  NR_getsockopt_def NR_sendmsg_def NR_recvmsg_def NR_setitimer_def NR_getitimer_def NR_times_def
  NR_getrusage_def NR_wait4_def NR_sysinfo_def NR_getpriority_def NR_setpriority_def
  NR_sched_setaffinity_def NR_getpgid_def NR_setsid_def NR_rt_sigpending_def

section \<open>Calls that only pass numbers or one buffer\<close>

type_synonym 'h handler = "'h ctx \<Rightarrow> u32 \<times> 'h ctx"

text \<open>An argument register as an \<open>int\<close> and as an \<open>unsigned\<close>.\<close>

definition si :: "nat \<Rightarrow> 'h ctx \<Rightarrow> int" where "si k c = sint (arg c k)"
definition ui :: "nat \<Rightarrow> 'h ctx \<Rightarrow> int" where "ui k c = uint (arg c k)"

definition plain_call :: "'h env \<Rightarrow> string \<Rightarrow> ('h ctx \<Rightarrow> int) list \<Rightarrow> 'h handler" where
  "plain_call E nm fs c = ret_call E nm (map (\<lambda>f. AInt (f c)) fs) c"

text \<open>A call whose result is not an error code.\<close>

definition raw_call :: "'h env \<Rightarrow> string \<Rightarrow> ('h ctx \<Rightarrow> int) list \<Rightarrow> 'h handler" where
  "raw_call E nm fs c = (case hcall E nm (map (\<lambda>f. AInt (f c)) fs) c of (r, c1) \<Rightarrow> (word_of_int (rc r), c1))"

text \<open>A call with one guest buffer, at address register \<open>a\<close> with the length in register \<open>l\<close>.\<close>

definition buffer_call ::
    "'h env \<Rightarrow> string \<Rightarrow> bool \<Rightarrow> nat \<Rightarrow> nat \<Rightarrow> ('h ctx \<Rightarrow> int) list \<Rightarrow> ('h ctx \<Rightarrow> int) list \<Rightarrow> 'h handler" where
  "buffer_call E nm reads a l before after c =
     (case host_ptr (arg c a) (ucast (arg c l)) (if reads then kPageRead else kPageWrite) (cmem c) of
        None \<Rightarrow> (neg EFAULT, c)
      | Some p \<Rightarrow> ret_call E nm (map (\<lambda>f. AInt (f c)) before @ [io_arg reads p (unat (arg c l))] @ map (\<lambda>f. AInt (f c)) after) c)"

text \<open>A call on the translated path at register \<open>k\<close>, with the given numbers around it.\<close>

definition path_handler :: "'h env \<Rightarrow> nat \<Rightarrow> string \<Rightarrow> ('h ctx \<Rightarrow> int) list \<Rightarrow> ('h ctx \<Rightarrow> int) list \<Rightarrow> 'h handler" where
  "path_handler E k nm before after =
     sys_path_call E k (\<lambda>x p. ret_call E nm (map (\<lambda>f. AInt (f x)) before @ [AStr p] @ map (\<lambda>f. AInt (f x)) after) x)"

definition two_path_handler :: "'h env \<Rightarrow> string \<Rightarrow> ('h ctx \<Rightarrow> int) list \<Rightarrow> 'h handler" where
  "two_path_handler E nm after =
     sys_two_paths E 1 3 (\<lambda>x a b. ret_call E nm ([AInt (si 0 x), AStr a, AInt (si 2 x), AStr b] @ map (\<lambda>f. AInt (f x)) after) x)"

definition guest_tid :: "'h env \<Rightarrow> 'h handler" where
  "guest_tid E c = (if tid (cthread c) \<noteq> 0 then (word_of_int (tid (cthread c)), c) else raw_call E ''gettid'' [] c)"

definition result_const :: "u32 \<Rightarrow> 'h handler" where
  "result_const x c = (x, c)"

section \<open>Cases with their own body\<close>

definition sys_openat :: "'h env \<Rightarrow> 'h handler" where
  "sys_openat E c =
     (case guest_cstr (arg c 1) c of
        None \<Rightarrow> (neg EFAULT, c)
      | Some path \<Rightarrow>
          (case open_synthetic_file E path (arg c 2) c of (res, c1) \<Rightarrow>
             case res of
               Some x \<Rightarrow> (x, c1)
             | None \<Rightarrow> path_handler E 1 ''openat'' [si 0] [si 2, ui 3] c1))"

definition proc_self_exe :: string where "proc_self_exe = ''/proc/self/exe''"

definition sys_readlinkat :: "'h env \<Rightarrow> 'h handler" where
  "sys_readlinkat E c =
     (case guest_cstr (arg c 1) c of
        None \<Rightarrow> (neg EFAULT, c)
      | Some path \<Rightarrow>
          (case host_ptr (arg c 2) (ucast (arg c 3)) kPageWrite (cmem c) of
             None \<Rightarrow> (neg EFAULT, c)
           | Some buf \<Rightarrow>
               if path = proc_self_exe then
                 (let exe = take (unat (arg c 3)) (exe_path (proc c))
                  in (of_nat (length exe), set_mem (store_bytes buf (map (\<lambda>ch. of_nat (of_char ch)) exe) (cmem c)) c))
               else ret_call E ''readlinkat'' [AInt (si 0 c), AStr (translate_path (e_fs E) (proc c) path),
                      AWrite buf (unat (arg c 3)), AInt (ui 3 c)] c))"

definition sys_fstat64 :: "'h env \<Rightarrow> 'h handler" where
  "sys_fstat64 E c = (case hcall E ''fstat'' [AInt (si 0 c), AOut] c of (r, c1) \<Rightarrow> sys_stat_common r (arg c 1) c1)"

text \<open>The two sizes of \<open>statfs64\<close> a caller may give: the structure (84 bytes) and its user-space size.\<close>

definition kStatfs64UserSize :: u32 where "kStatfs64UserSize = 88"

definition statfs_size_ok :: "u32 \<Rightarrow> bool" where
  "statfs_size_ok n \<longleftrightarrow> n = 84 \<or> n = kStatfs64UserSize"

definition sys_fstatfs64 :: "'h env \<Rightarrow> 'h handler" where
  "sys_fstatfs64 E c =
     (if \<not> statfs_size_ok (arg c 1) then (neg EINVAL, c)
      else case hcall E ''fstatfs'' [AInt (si 0 c), AOut] c of (r, c1) \<Rightarrow> sys_statfs_common r (arg c 2) c1)"

definition sys_statfs64 :: "'h env \<Rightarrow> 'h handler" where
  "sys_statfs64 E c =
     (case guest_cstr (arg c 0) c of
        None \<Rightarrow> (neg EFAULT, c)
      | Some path \<Rightarrow>
          if \<not> statfs_size_ok (arg c 1) then (neg EINVAL, c)
          else case hcall E ''statfs'' [AStr (translate_path (e_fs E) (proc c) path), AOut] c of
              (r, c1) \<Rightarrow> sys_statfs_common r (arg c 2) c1)"

definition sys_symlinkat :: "'h env \<Rightarrow> 'h handler" where
  "sys_symlinkat E c =
     (case guest_cstr (arg c 0) c of
        None \<Rightarrow> (neg EFAULT, c)
      | Some target \<Rightarrow>
          (case guest_cstr (arg c 2) c of
             None \<Rightarrow> (neg EFAULT, c)
           | Some link \<Rightarrow>
               ret_call E ''symlinkat'' [AStr target, AInt (si 1 c), AStr (translate_path (e_fs E) (proc c) link)] c))"

definition sys_memfd_create :: "'h env \<Rightarrow> 'h handler" where
  "sys_memfd_create E c =
     (case guest_cstr (arg c 0) c of
        None \<Rightarrow> (neg EFAULT, c)
      | Some nm \<Rightarrow> ret_call E ''memfd_create'' [AStr nm, AInt (ui 1 c)] c)"

definition arm_set_tls :: "'h handler" where
  "arm_set_tls c = (0, set_thread (\<lambda>t. t\<lparr>tls := arg c 0\<rparr>) c)"

definition arm_get_tls :: "'h handler" where
  "arm_get_tls c = (tls (cthread c), c)"

definition arm_cacheflush :: "'h handler" where
  "arm_cacheflush c =
     (0, if arg c 1 > arg c 0 then c\<lparr>proc := invalidate (arg c 0) (arg c 1 - arg c 0) (proc c)\<rparr> else c)"

definition sys_set_tid_address :: "'h env \<Rightarrow> 'h handler" where
  "sys_set_tid_address E c = guest_tid E (set_thread (\<lambda>t. t\<lparr>clear_child_tid := arg c 0\<rparr>) c)"

definition sys_personality :: "'h handler" where
  "sys_personality c =
     (personality (proc c),
      if arg c 0 \<noteq> 0xFFFFFFFF then c\<lparr>proc := (proc c)\<lparr>personality := arg c 0\<rparr>\<rparr> else c)"

definition SI_USER :: int where "SI_USER = 0"
definition SI_QUEUE :: int where "SI_QUEUE = -1"
definition SI_TKILL :: int where "SI_TKILL = -6"

definition sys_kill :: "'h env \<Rightarrow> 'h handler" where
  "sys_kill E c = sys_send_signal E True (si 0 c) 0 (arg c 1) None SI_USER c"

definition sys_tkill :: "'h env \<Rightarrow> 'h handler" where
  "sys_tkill E c = sys_send_signal E False (-1) (si 0 c) (arg c 1) None SI_TKILL c"

definition sys_tgkill :: "'h env \<Rightarrow> 'h handler" where
  "sys_tgkill E c = sys_send_signal E False (si 0 c) (si 1 c) (arg c 2) None SI_TKILL c"

text \<open>\<open>clone\<close>: the host thread starts once a processor id is free; its id is the result.  The address of
  the new thread object is one that no live thread has.\<close>

definition kCloneRequired :: u32 where "kCloneRequired = 0x00000100 OR 0x00010000"

definition fresh_thread :: "'h ctx \<Rightarrow> nat" where
  "fresh_thread c = Suc (fold max (threads (proc c) @ borrowers (proc c)) (thr c))"

definition sys_clone :: "'h env \<Rightarrow> 'h handler" where
  "sys_clone E c =
     (if arg c 0 AND kCloneRequired \<noteq> kCloneRequired then (neg EPERM, note_seen (ucast NR_clone) c)
      else if fst (allocate_processor_id (proc c)) = None then (neg EAGAIN, c)
      else case hcall E ''start_thread'' [] c of (r, c1) \<Rightarrow>
        (case clone_thread (fresh_thread c1) (rc r) (thr c1) (arg c 0) (arg c 1) (arg c 2) (arg c 3) (arg c 4) (proc c1) of
           (t, p') \<Rightarrow> (case t of None \<Rightarrow> neg EAGAIN | Some i \<Rightarrow> word_of_int i, c1\<lparr>proc := p'\<rparr>)))"


section \<open>The switch\<close>

definition file_table :: "'h env \<Rightarrow> (u32 \<times> 'h handler) list" where
  "file_table E =
     [(NR_read, sys_read_write E False), (NR_write, sys_read_write E True),
      (NR_pread64, sys_pread_pwrite E False), (NR_pwrite64, sys_pread_pwrite E True),
      (NR_readv, sys_readv_writev E False), (NR_writev, sys_readv_writev E True),
      (NR_close, plain_call E ''close'' [si 0]), (NR_dup, plain_call E ''dup'' [si 0]),
      (NR_dup3, plain_call E ''dup3'' [si 0, si 1, si 2]),
      (NR_pipe2, sys_pipe2 E), (NR_lseek, sys_lseek E), (NR__llseek, sys_llseek E),
      (NR_fcntl64, sys_fcntl64 E), (NR_ioctl, sys_ioctl E), (NR_openat, sys_openat E),
      (NR_faccessat, path_handler E 1 ''faccessat'' [si 0] [si 2]),
      (NR_faccessat2, path_handler E 1 ''faccessat2'' [si 0] [si 2, si 3]),
      (NR_unlinkat, path_handler E 1 ''unlinkat'' [si 0] [si 2]),
      (NR_mkdirat, path_handler E 1 ''mkdirat'' [si 0] [ui 2]),
      (NR_readlinkat, sys_readlinkat E), (NR_getcwd, buffer_call E ''getcwd'' False 0 1 [] [ui 1]),
      (NR_fstat64, sys_fstat64 E), (NR_fstatat64, sys_fstatat64 E), (NR_statx, sys_statx E),
      (NR_fstatfs64, sys_fstatfs64 E), (NR_statfs64, sys_statfs64 E)]"

definition memory_table :: "'h env \<Rightarrow> (u32 \<times> 'h handler) list" where
  "memory_table E =
     [(NR_brk, sys_brk E), (NR_mmap2, sys_mmap2 E), (NR_munmap, sys_munmap E), (NR_mprotect, sys_mprotect E),
      (NR_madvise, sys_madvise E)]"

definition thread_table :: "'h env \<Rightarrow> (u32 \<times> 'h handler) list" where
  "thread_table E =
     [(NR_mremap, result_const (neg ENOMEM)),
      (NR_ARM_set_tls, arm_set_tls), (NR_ARM_get_tls, arm_get_tls), (NR_ARM_cacheflush, arm_cacheflush),
      (NR_set_tid_address, sys_set_tid_address E), (NR_getpid, plain_call E ''getpid'' []),
      (NR_getppid, plain_call E ''getppid'' []), (NR_gettid, guest_tid E),
      (NR_getuid32, raw_call E ''getuid'' []), (NR_geteuid32, raw_call E ''geteuid'' []),
      (NR_getgid32, raw_call E ''getgid'' []), (NR_getegid32, raw_call E ''getegid'' []),
      (NR_rt_sigaction, sys_rt_sigaction), (NR_rt_sigprocmask, sys_rt_sigprocmask),
      (NR_sigaltstack, sys_sigaltstack), (NR_kill, sys_kill E), (NR_tkill, sys_tkill E), (NR_tgkill, sys_tgkill E),
      (NR_clock_gettime, sys_clock_get E False False), (NR_clock_getres, sys_clock_get E True False),
      (NR_clock_gettime64, sys_clock_get E False True), (NR_clock_getres_time64, sys_clock_get E True True),
      (NR_gettimeofday, sys_gettimeofday E), (NR_nanosleep, sys_nanosleep E),
      (NR_clock_nanosleep, sys_clock_nanosleep E False), (NR_clock_nanosleep_time64, sys_clock_nanosleep E True),
      (NR_futex, sys_futex E False), (NR_futex_time64, sys_futex E True),
      (NR_sched_yield, plain_call E ''sched_yield'' []),
      (NR_sched_getaffinity, buffer_call E ''sched_getaffinity'' False 2 1 [si 0, ui 1] []),
      (NR_getrandom, buffer_call E ''getrandom'' False 0 1 [] [ui 1, ui 2]),
      (NR_prctl, sys_prctl E), (NR_uname, sys_uname E), (NR_ugetrlimit, sys_ugetrlimit E),
      (NR_prlimit64, sys_prlimit64 E), (NR_personality, sys_personality),
      (NR_sched_getscheduler, plain_call E ''sched_getscheduler'' [si 0]),
      (NR_socket, plain_call E ''socket'' [si 0, si 1, si 2]),
      (NR_connect, buffer_call E ''connect'' True 1 2 [si 0] [ui 2]),
      (NR_rt_tgsigqueueinfo, sys_rt_tgsigqueueinfo E SI_QUEUE), (NR_clone, sys_clone E)]"

definition directory_table :: "'h env \<Rightarrow> (u32 \<times> 'h handler) list" where
  "directory_table E =
     [(NR_getdents64, buffer_call E ''getdents64'' False 1 2 [si 0] [ui 2]),
      (NR_renameat, two_path_handler E ''renameat'' []), (NR_renameat2, two_path_handler E ''renameat2'' [ui 4]),
      (NR_linkat, two_path_handler E ''linkat'' [si 4]), (NR_symlinkat, sys_symlinkat E),
      (NR_fchmodat, path_handler E 1 ''fchmodat'' [si 0] [ui 2]),
      (NR_fchownat, path_handler E 1 ''fchownat'' [si 0] [ui 2, ui 3, si 4]),
      (NR_chdir, path_handler E 0 ''chdir'' [] []),
      (NR_truncate64, path_handler E 0 ''truncate'' [] [\<lambda>c. sint (join64 (arg c 2) (arg c 3))]),
      (NR_ftruncate64, plain_call E ''ftruncate'' [si 0, \<lambda>c. sint (join64 (arg c 2) (arg c 3))]),
      (NR_utimensat, sys_utimensat E False), (NR_utimensat_time64, sys_utimensat E True),
      (NR_fchmod, plain_call E ''fchmod'' [si 0, ui 1]), (NR_fchown32, plain_call E ''fchown'' [si 0, ui 1, ui 2]),
      (NR_fsync, plain_call E ''fsync'' [si 0]), (NR_fdatasync, plain_call E ''fdatasync'' [si 0]),
      (NR_flock, plain_call E ''flock'' [si 0, si 1]), (NR_umask, raw_call E ''umask'' [ui 0]),
      (NR_fchdir, plain_call E ''fchdir'' [si 0]), (NR_dup2, plain_call E ''dup2'' [si 0, si 1]),
      (NR_pipe, \<lambda>c. sys_fd_pair E (arg c 0) ''pipe'' [] c), (NR_memfd_create, sys_memfd_create E),
      (NR_msync, sys_msync E), (NR_mlock, result_const 0), (NR_munlock, result_const 0)]"

definition wait_table :: "'h env \<Rightarrow> (u32 \<times> 'h handler) list" where
  "wait_table E =
     [(NR_poll, sys_poll E False False), (NR_ppoll, sys_poll E True False), (NR_ppoll_time64, sys_poll E True True),
      (NR__newselect, sys_select E False False), (NR_pselect6, sys_select E True False),
      (NR_pselect6_time64, sys_select E True True), (NR_eventfd2, plain_call E ''eventfd2'' [ui 0, si 1]),
      (NR_epoll_create1, plain_call E ''epoll_create1'' [si 0]), (NR_epoll_ctl, sys_epoll_ctl E),
      (NR_epoll_wait, sys_epoll_wait E), (NR_epoll_pwait, sys_epoll_wait E),
      (NR_timerfd_create, plain_call E ''timerfd_create'' [si 0, si 1]),
      (NR_timerfd_settime, sys_timerfd_settime E), (NR_timerfd_gettime, sys_timerfd_gettime E)]"

definition socket_table :: "'h env \<Rightarrow> (u32 \<times> 'h handler) list" where
  "socket_table E =
     [(NR_bind, sys_sockaddr_in E ''bind''), (NR_listen, plain_call E ''listen'' [si 0, si 1]),
      (NR_accept, sys_sockaddr_out E ''accept'' False), (NR_accept4, sys_sockaddr_out E ''accept4'' True),
      (NR_getsockname, sys_sockaddr_out E ''getsockname'' False),
      (NR_getpeername, sys_sockaddr_out E ''getpeername'' False),
      (NR_socketpair, \<lambda>c. sys_fd_pair E (arg c 3) ''socketpair'' [AInt (si 0 c), AInt (si 1 c), AInt (si 2 c)] c),
      (NR_send, sys_sendto E 0 0), (NR_sendto, \<lambda>c. sys_sendto E (arg c 4) (arg c 5) c),
      (NR_recv, sys_recvfrom E 0 0), (NR_recvfrom, \<lambda>c. sys_recvfrom E (arg c 4) (arg c 5) c),
      (NR_shutdown, plain_call E ''shutdown'' [si 0, si 1]), (NR_setsockopt, sys_setsockopt E),
      (NR_getsockopt, sys_getsockopt E), (NR_recvmsg, sys_recvmsg E)]"

definition resource_table :: "'h env \<Rightarrow> (u32 \<times> 'h handler) list" where
  "resource_table E =
     [(NR_setitimer, sys_setitimer E), (NR_getitimer, sys_getitimer E), (NR_times, sys_times E),
      (NR_getrusage, sys_getrusage E), (NR_wait4, sys_wait4 E), (NR_sysinfo, sys_sysinfo E),
      (NR_getpriority, plain_call E ''getpriority'' [si 0, si 1]),
      (NR_setpriority, plain_call E ''setpriority'' [si 0, si 1, si 2]),
      (NR_sched_setaffinity, buffer_call E ''sched_setaffinity'' True 2 1 [si 0, ui 1] []),
      (NR_getpgid, plain_call E ''getpgid'' [si 0]), (NR_setsid, plain_call E ''setsid'' []),
      (NR_rt_sigpending, sys_rt_sigpending)]"

definition checked_table :: "'h env \<Rightarrow> (u32 \<times> 'h handler) list" where
  "checked_table E = file_table E @ thread_table E @ directory_table E @ wait_table E @ socket_table E @ resource_table E"

definition syscall_table :: "'h env \<Rightarrow> (u32 \<times> 'h handler) list" where
  "syscall_table E = memory_table E @ checked_table E"

text \<open>The \<open>default\<close> case notes the number and answers \<open>-ENOSYS\<close>.\<close>

definition dispatch :: "'h env \<Rightarrow> u32 \<Rightarrow> 'h handler" where
  "dispatch E nr c =
     (case map_of (syscall_table E) nr of Some f \<Rightarrow> f c | None \<Rightarrow> (neg ENOSYS, note_seen (ucast nr) c))"

datatype sys_outcome = Resume | Finish | HostExit int

definition finish_call :: "u32 \<times> 'h ctx \<Rightarrow> sys_outcome \<times> 'h ctx" where
  "finish_call = (\<lambda>(res, c).
     if stop_flag c then (Finish, c)
     else if no_result c then (Resume, c)
     else (Resume, set_thread (\<lambda>t. t\<lparr>regs := (regs t)[0 := res]\<rparr>) c))"

text \<open>The context of the call: the first six registers are its arguments.\<close>

definition begin_call :: "'h ctx \<Rightarrow> 'h ctx" where
  "begin_call c = c\<lparr>args := take 6 (regs (cthread c)), stop_flag := False, no_result := False\<rparr>"

definition sys_exit :: "'h ctx \<Rightarrow> sys_outcome \<times> 'h ctx" where
  "sys_exit c = (Finish, set_thread (\<lambda>t. t\<lparr>exit_status := uint (arg c 0 AND 0xff)\<rparr>) c)"

definition sys_exit_group :: "'h ctx \<Rightarrow> sys_outcome \<times> 'h ctx" where
  "sys_exit_group c =
     (let status = uint (arg c 0 AND 0xff)
      in if thread_count (proc c) > 1 then (HostExit status, c)
         else (Finish, c\<lparr>proc := request_exit status (proc c)\<rparr>))"

definition sys_sigreturn :: "bool \<Rightarrow> 'h ctx \<Rightarrow> sys_outcome \<times> 'h ctx" where
  "sys_sigreturn rt c =
     (case sigreturn (thr c) rt (proc c) of
        (ok, p') \<Rightarrow> if ok then finish_call (neg ENOSYS, c\<lparr>proc := p', no_result := True\<rparr>)
                    else (Finish, c\<lparr>proc := request_exit (128 + 11) p'\<rparr>))"

text \<open>\<open>handle_syscall\<close>; \<open>None\<close> when \<open>sendmsg\<close> does not return.\<close>

definition handle_syscall :: "'h env \<Rightarrow> 'h ctx \<Rightarrow> (sys_outcome \<times> 'h ctx) option" where
  "handle_syscall E c0 =
     (let c = begin_call c0; nr = regs (cthread c0) ! 7
      in if nr = NR_exit then Some (sys_exit c)
         else if nr = NR_exit_group then Some (sys_exit_group c)
         else if nr = NR_rt_sigreturn \<or> nr = NR_sigreturn then Some (sys_sigreturn (nr = NR_rt_sigreturn) c)
         else if nr = NR_sendmsg then map_option finish_call (sys_sendmsg E c)
         else Some (finish_call (dispatch E nr c)))"


section \<open>Every handler is well behaved\<close>

lemma ints_ok [simp]: "list_all (arg_ok m) (map (\<lambda>f. AInt (f c)) fs)"
  by (induction fs) simp_all

lemma plain_call_ok [handler_ok]: "sys_ok c (snd (plain_call E nm fs c))"
  unfolding plain_call_def by (intro sys_okI) simp

lemma raw_call_ok [handler_ok]: "sys_ok c (snd (raw_call E nm fs c))"
  unfolding raw_call_def by (intro sys_okI) simp

lemma buffer_call_ok [handler_ok]: "sys_ok c (snd (buffer_call E nm rd a l fs gs c))"
  unfolding buffer_call_def by (intro sys_okI) (auto simp: io_arg_def host_ptr_has32)

lemma path_handler_ok [handler_ok]: "sys_ok c (snd (path_handler E k nm fs gs c))"
  unfolding path_handler_def sys_path_call_def by (intro sys_okI) simp

lemma two_path_handler_ok [handler_ok]: "sys_ok c (snd (two_path_handler E nm fs c))"
  unfolding two_path_handler_def sys_two_paths_def by (intro sys_okI) simp

lemma guest_tid_ok [handler_ok]: "sys_ok c (snd (guest_tid E c))"
  unfolding guest_tid_def by (intro sys_okI raw_call_ok)

lemma result_const_ok [handler_ok]: "sys_ok c (snd (result_const x c))"
  by (simp add: result_const_def sys_ok_refl)

lemma sys_openat_ok [handler_ok]: "sys_ok c (snd (sys_openat E c))"
  unfolding sys_openat_def
  by (intro sys_ok_option sys_ok_pair sys_ok_refl path_handler_ok sys_ok_case_pair [OF open_synthetic_file_ok])

lemma readlink_exe_ok:
  "host_ptr a (ucast (n :: u32)) kPageWrite (cmem c) = Some buf \<Longrightarrow>
   sys_ok c (snd (x, set_mem (store_bytes buf (map f (take (unat n) s)) (cmem c)) c))"
  by (rule sys_ok_store_pair) (auto intro: range_has_sub [OF host_ptr_has32])

lemma sys_readlinkat_ok [handler_ok]: "sys_ok c (snd (sys_readlinkat E c))"
  unfolding sys_readlinkat_def Let_def
  by (intro sys_ok_option sys_ok_if readlink_exe_ok sys_ok_ret_call) (simp_all add: sys_ok_refl host_ptr_has32)

lemma sys_fstat64_ok [handler_ok]: "sys_ok c (snd (sys_fstat64 E c))"
  unfolding sys_fstat64_def sys_stat_common_def by (intro sys_okI) simp_all

lemma sys_fstatfs64_ok [handler_ok]: "sys_ok c (snd (sys_fstatfs64 E c))"
  unfolding sys_fstatfs64_def sys_statfs_common_def by (intro sys_okI) simp_all

lemma sys_statfs64_ok [handler_ok]: "sys_ok c (snd (sys_statfs64 E c))"
  unfolding sys_statfs64_def sys_statfs_common_def by (intro sys_okI) simp_all

lemma sys_symlinkat_ok [handler_ok]: "sys_ok c (snd (sys_symlinkat E c))"
  unfolding sys_symlinkat_def by (intro sys_okI) simp

lemma sys_memfd_create_ok [handler_ok]: "sys_ok c (snd (sys_memfd_create E c))"
  unfolding sys_memfd_create_def by (intro sys_okI) simp

lemma arm_set_tls_ok [handler_ok]: "sys_ok c (snd (arm_set_tls c))"
  unfolding arm_set_tls_def by (intro sys_okI) (simp add: thread_ok_def)

lemma arm_get_tls_ok [handler_ok]: "sys_ok c (snd (arm_get_tls c))"
  by (simp add: arm_get_tls_def sys_ok_refl)

lemma arm_cacheflush_ok [handler_ok]: "sys_ok c (snd (arm_cacheflush c))"
  by (rule sys_ok_same) (simp_all add: arm_cacheflush_def invalidate_def)

lemma sys_set_tid_address_ok [handler_ok]: "sys_ok c (snd (sys_set_tid_address E c))"
  unfolding sys_set_tid_address_def
  by (rule sys_ok_trans [OF sys_ok_set_thread guest_tid_ok]) (simp add: thread_ok_def)

lemma sys_personality_ok [handler_ok]: "sys_ok c (snd (sys_personality c))"
  by (rule sys_ok_same) (simp_all add: sys_personality_def)

lemma sys_kill_ok [handler_ok]: "sys_ok c (snd (sys_kill E c))"
  unfolding sys_kill_def by (rule sys_send_signal_ok)

lemma sys_tkill_ok [handler_ok]: "sys_ok c (snd (sys_tkill E c))"
  unfolding sys_tkill_def by (rule sys_send_signal_ok)

lemma sys_tgkill_ok [handler_ok]: "sys_ok c (snd (sys_tgkill E c))"
  unfolding sys_tgkill_def by (rule sys_send_signal_ok)

lemma rounded_accessible_has:
  "accessible a (page_round_up (ucast (x :: u32))) need m \<Longrightarrow> range_has m (unat a) (unat (page_round_up (ucast x))) need"
  by (rule accessible_has, assumption, subst page_round_up_no_wrap) (use unat_less_u32 [of x] in \<open>simp_all\<close>)

lemma sys_msync_ok [handler_ok]: "sys_ok c (snd (sys_msync E c))"
  unfolding sys_msync_def Let_def by (intro sys_okI) (simp add: rounded_accessible_has)

text \<open>\<open>clone\<close> writes the thread id only where the guest may write, and the new thread object is not
  the calling one.\<close>

lemma write_guest_u32_confined: "mem_confined (pmem p) (pmem (write_guest_u32 a v p))"
  using host_ptr_has [of a 4 kPageWrite "pmem p"]
  by (auto simp: write_guest_u32_def intro!: store_confined split: option.splits)

lemma fold_max_ge: "x \<in> set xs \<or> x \<le> a \<Longrightarrow> x \<le> fold max xs (a :: nat)"
  by (induction xs arbitrary: a) (auto simp: le_max_iff_disj)

lemma fresh_thread_new: "fresh_thread c \<noteq> thr c" "fresh_thread c \<notin> set (threads (proc c) @ borrowers (proc c))"
  using fold_max_ge [of _ "threads (proc c) @ borrowers (proc c)" "thr c"]
  unfolding fresh_thread_def by (fastforce simp: Suc_le_eq)+

lemma write_guest_u32_heap [simp]: "theap (write_guest_u32 a v p) = theap p"
  by (simp add: write_guest_u32_def split: option.splits)

lemma clone_thread_confined:
  assumes "clone_thread cp nt parent fl st pta tv cta p = (r, p')"
  shows "mem_confined (pmem p) (pmem p')" "tp \<noteq> cp \<Longrightarrow> theap p' tp = theap p tp"
proof -
  obtain o1 p1 where a: "allocate_processor_id p = (o1, p1)" by fastforce
  then have p1: "pmem p1 = pmem p" "theap p1 = theap p"
    by (auto simp: allocate_processor_id_def split: option.splits)
  have w: "pmem q = pmem p \<Longrightarrow> mem_confined (pmem p) (pmem (write_guest_u32 x v q))" for x v q
    using write_guest_u32_confined [of q] by simp
  have w2: "mem_confined (pmem p) (pmem q) \<Longrightarrow> mem_confined (pmem p) (pmem (write_guest_u32 x v q))" for x v q
    using write_guest_u32_confined mem_confined_trans by blast
  show "mem_confined (pmem p) (pmem p')"
    using assms a p1 by (auto simp: clone_thread_def Let_def register_thread_def upd_thread_def intro!: w w2 split: option.splits if_splits)
  show "tp \<noteq> cp \<Longrightarrow> theap p' tp = theap p tp"
    using assms a p1 by (auto simp: clone_thread_def Let_def register_thread_def upd_thread_def split: option.splits if_splits)
qed

lemma sys_ok_clone_result:
  assumes "clone_thread (fresh_thread c) nt (thr c) fl st pta tv cta (proc c) = (r, p')"
  shows "sys_ok c (c\<lparr>proc := p'\<rparr>)"
  using clone_thread_confined(1) [OF assms] clone_thread_confined(2) [OF assms, of "thr c"] fresh_thread_new(1) [of c]
  by (simp add: sys_ok_def)

lemma sys_clone_ok [handler_ok]: "sys_ok c (snd (sys_clone E c))"
proof -
  have "sys_ok c1 (snd (case clone_thread (fresh_thread c1) nt (thr c1) fl st pta tv cta (proc c1) of
      (t, p') \<Rightarrow> (case t of None \<Rightarrow> neg EAGAIN | Some i \<Rightarrow> word_of_int i, c1\<lparr>proc := p'\<rparr>)))" for c1 :: "'a ctx" and nt fl st pta tv cta
    by (auto intro: sys_ok_clone_result split: prod.splits)
  then show ?thesis unfolding sys_clone_def by (intro sys_okI) simp_all
qed

section \<open>The whole dispatcher\<close>

definition handler_keeps :: "'h handler \<Rightarrow> bool" where
  "handler_keeps f \<longleftrightarrow> (\<forall>c. sys_ok c (snd (f c)))"

lemma tables_keep:
  "list_all (handler_keeps \<circ> snd) (file_table E)" "list_all (handler_keeps \<circ> snd) (thread_table E)"
  "list_all (handler_keeps \<circ> snd) (directory_table E)" "list_all (handler_keeps \<circ> snd) (wait_table E)"
  "list_all (handler_keeps \<circ> snd) (resource_table E)"
  unfolding file_table_def thread_table_def directory_table_def wait_table_def resource_table_def
  by (simp_all only: list.pred_inject comp_apply snd_conv handler_keeps_def handler_ok all_simps simp_thms)

lemma socket_table_keeps: "control_bounded E \<Longrightarrow> list_all (handler_keeps \<circ> snd) (socket_table E)"
  unfolding socket_table_def
  by (simp only: list.pred_inject comp_apply snd_conv handler_keeps_def handler_ok arg_ok.simps all_simps simp_thms)

lemma checked_table_keeps: "control_bounded E \<Longrightarrow> list_all (handler_keeps \<circ> snd) (checked_table E)"
  unfolding checked_table_def by (simp add: tables_keep socket_table_keeps)

lemma dispatch_ok:
  assumes "control_bounded E" "map_of (memory_table E) nr = None"
  shows "sys_ok c (snd (dispatch E nr c))"
proof (cases "map_of (checked_table E) nr")
  case None
  then show ?thesis using assms(2) by (simp add: dispatch_def syscall_table_def map_add_def sys_ok_note_seen)
next
  case (Some f)
  then have "handler_keeps f"
    using checked_table_keeps [OF assms(1)] map_of_SomeD [OF Some] by (auto simp: list_all_iff)
  then show ?thesis using assms(2) Some by (simp add: dispatch_def syscall_table_def map_add_def handler_keeps_def)
qed

text \<open>The host calls and the thread, the memory left open: what also holds of the memory calls.\<close>

definition calls_ok :: "'h ctx \<Rightarrow> 'h ctx \<Rightarrow> bool" where
  "calls_ok c c' \<longleftrightarrow> thr c' = thr c \<and> thread_ok (cthread c) (cthread c') \<and>
     (\<exists>new. hcalls c' = hcalls c @ new \<and> list_all (\<lambda>(nm, as). list_all (arg_ok (cmem c)) as) new)"

lemma sys_ok_calls_ok: "sys_ok c c' \<Longrightarrow> calls_ok c c'"
  unfolding sys_ok_def calls_ok_def by blast

lemma calls_ok_same: "hcalls c' = hcalls c \<Longrightarrow> thr c' = thr c \<Longrightarrow> theap (proc c') = theap (proc c) \<Longrightarrow> calls_ok c c'"
  by (simp add: calls_ok_def)

lemma proc_tables_heap [simp]:
  "theap (invalidate a l p) = theap p" "theap (set_exec_eligibility a k b p) = theap p"
  "theap (forget_mappings a k p) = theap p" "theap (record_file_mapping a l off pth v p) = theap p"
  "theap (add_textrel_range a l pr p) = theap p"
  by (simp_all add: invalidate_def set_exec_eligibility_def forget_mappings_def record_file_mapping_def add_textrel_range_def Let_def)

lemma after_map_heap [simp]: "theap (after_map a k pr tr off x fl pth p) = theap p"
  by (simp add: after_map_def Let_def)

lemma calls_ok_if: "(b \<Longrightarrow> calls_ok c (snd x)) \<Longrightarrow> (\<not> b \<Longrightarrow> calls_ok c (snd y)) \<Longrightarrow> calls_ok c (snd (if b then x else y))"
  by simp

lemma calls_ok_sum:
  "(\<And>e. v = Inl e \<Longrightarrow> calls_ok c (snd (f e))) \<Longrightarrow> (\<And>x. v = Inr x \<Longrightarrow> calls_ok c (snd (g x))) \<Longrightarrow>
   calls_ok c (snd (case v of Inl e \<Rightarrow> f e | Inr x \<Rightarrow> g x))"
  by (cases v) simp_all

lemma calls_ok_answer:
  "(\<And>m. calls_ok c (snd (f m))) \<Longrightarrow> (\<And>m. calls_ok c (snd (g m))) \<Longrightarrow>
   calls_ok c (snd (case v of (True, m) \<Rightarrow> f m | (False, m) \<Rightarrow> g m))"
  by (cases v) (auto split: bool.splits)

lemma calls_ok_pair:
  "hcalls c' = hcalls c \<Longrightarrow> thr c' = thr c \<Longrightarrow> theap (proc c') = theap (proc c) \<Longrightarrow> calls_ok c (snd (x, c'))"
  by (simp add: calls_ok_def)

lemma calls_ok_readlink:
  "calls_ok c (snd (case hcall E nm [AInt fd, AOut] (set_mem m c) of (r, c2) \<Rightarrow> (x, c2\<lparr>proc := after_map a k pr tr off ex fl (nmf r) (proc c2)\<rparr>)))"
  by (auto simp: calls_ok_def hcall_sel split: prod.splits)

lemma sys_brk_calls: "calls_ok c (snd (sys_brk E c))"
  by (rule calls_ok_same) (simp_all add: sys_brk_def Let_def set_mem_def split: prod.splits)

lemma sys_mmap2_calls: "calls_ok c (snd (sys_mmap2 E c))"
  unfolding sys_mmap2_def Let_def
  by (intro calls_ok_if calls_ok_sum calls_ok_answer calls_ok_readlink calls_ok_pair) simp_all

lemma sys_munmap_calls: "calls_ok c (snd (sys_munmap E c))"
  unfolding sys_munmap_def Let_def by (intro calls_ok_if calls_ok_answer calls_ok_pair) simp_all

lemma sys_mprotect_calls: "calls_ok c (snd (sys_mprotect E c))"
  unfolding sys_mprotect_def Let_def by (intro calls_ok_if calls_ok_answer calls_ok_pair) simp_all

lemma sys_madvise_calls: "calls_ok c (snd (sys_madvise E c))"
  unfolding sys_madvise_def Let_def
  by (intro calls_ok_if calls_ok_pair) (auto simp: calls_ok_def hcall_sel rounded_accessible_has split: prod.splits)

lemma dispatch_calls:
  assumes "control_bounded E" shows "calls_ok c (snd (dispatch E nr c))"
proof (cases "map_of (memory_table E) nr")
  case None
  then show ?thesis using dispatch_ok [OF assms] sys_ok_calls_ok by blast
next
  case (Some f)
  have "list_all (\<lambda>(k, f). calls_ok c (snd (f c))) (memory_table E)"
    unfolding memory_table_def
    by (simp add: sys_brk_calls sys_mmap2_calls sys_munmap_calls sys_mprotect_calls sys_madvise_calls)
  then show ?thesis using map_of_SomeD [OF Some] Some
    by (auto simp: list_all_iff dispatch_def syscall_table_def map_add_def)
qed


text \<open>The switch has no case twice: the tables have distinct numbers, and none is a call handled
  apart.\<close>

lemma syscall_numbers_distinct:
  "distinct (NR_exit # NR_exit_group # NR_rt_sigreturn # NR_sigreturn # NR_sendmsg # map fst (syscall_table E))"
  unfolding syscall_table_def checked_table_def file_table_def memory_table_def thread_table_def directory_table_def
    wait_table_def socket_table_def resource_table_def nr_defs
  by simp

section \<open>Calls as a whole\<close>

lemma begin_call_sel [simp]:
  "proc (begin_call c) = proc c" "thr (begin_call c) = thr c" "hcalls (begin_call c) = hcalls c"
  by (simp_all add: begin_call_def)

lemma set_thread_heap [simp]: "theap (proc (set_thread f c)) (thr c) = f (cthread c)"
  by (simp add: set_thread_def upd_thread_def)

lemma finish_call_sel:
  "finish_call v = (r, c') \<Longrightarrow> cmem c' = cmem (snd v) \<and> hcalls c' = hcalls (snd v) \<and> thr c' = thr (snd v) \<and>
     (\<exists>x. regs (cthread c') = (regs (cthread (snd v)))[0 := x]) \<and> sigmask (cthread c') = sigmask (cthread (snd v))"
  by (cases v) (auto simp: finish_call_def split: if_splits intro: exI [of _ "regs (cthread (snd v)) ! 0"])

lemma sigreturn_sel:
  "sigreturn tp rt p = (ok, p') \<Longrightarrow> pmem p' = pmem p \<and>
     (sigmask (theap p tp) AND kUnblockable = 0 \<longrightarrow> sigmask (theap p' tp) AND kUnblockable = 0)"
  by (auto simp: sigreturn_def upd_thread_def Let_def and.assoc split: option.splits if_splits)

text \<open>The calls that do not go through the tables touch neither the memory nor the host.\<close>

lemma sys_exit_sel:
  "(r, c') = sys_exit c \<or> (r, c') = sys_exit_group c \<Longrightarrow> cmem c' = cmem c \<and> hcalls c' = hcalls c \<and> thr c' = thr c \<and>
     regs (cthread c') = regs (cthread c) \<and> sigmask (cthread c') = sigmask (cthread c)"
  by (auto simp: sys_exit_def sys_exit_group_def request_exit_def Let_def split: if_splits)

lemma sys_sigreturn_sel:
  assumes "(r, c') = sys_sigreturn rt c"
  shows "cmem c' = cmem c \<and> hcalls c' = hcalls c \<and> thr c' = thr c \<and>
     (sigmask (cthread c) AND kUnblockable = 0 \<longrightarrow> sigmask (cthread c') AND kUnblockable = 0)"
proof -
  obtain ok p' where p: "sigreturn (thr c) rt (proc c) = (ok, p')" by fastforce
  then show ?thesis using assms sigreturn_sel [OF p]
    by (auto simp: sys_sigreturn_def finish_call_def request_exit_def split: if_splits)
qed

text \<open>The result of a call: either one of the calls handled apart, or a handler's result finished.\<close>

lemma handle_syscall_cases:
  assumes "handle_syscall E c = Some (r, c')"
  obtains "regs (cthread c) ! 7 = NR_exit" "(r, c') = sys_exit (begin_call c)"
    | "regs (cthread c) ! 7 = NR_exit_group" "(r, c') = sys_exit_group (begin_call c)"
    | "regs (cthread c) ! 7 \<in> {NR_rt_sigreturn, NR_sigreturn}" "(r, c') = sys_sigreturn (regs (cthread c) ! 7 = NR_rt_sigreturn) (begin_call c)"
    | v where "regs (cthread c) ! 7 = NR_sendmsg" "sys_sendmsg E (begin_call c) = Some v" "finish_call v = (r, c')"
    | "regs (cthread c) ! 7 \<notin> {NR_exit, NR_exit_group, NR_rt_sigreturn, NR_sigreturn, NR_sendmsg}"
      "finish_call (dispatch E (regs (cthread c) ! 7) (begin_call c)) = (r, c')"
  using assms that unfolding handle_syscall_def Let_def by (auto split: if_splits)


text \<open>What a call that neither ends nor returns from a signal does is what its handler does.\<close>

lemma finish_ok:
  assumes "finish_call v = (r, c')" "sys_ok (begin_call c) (snd v)"
  shows "mem_confined (cmem c) (cmem c')" "\<exists>new. hcalls c' = hcalls c @ new \<and> list_all (\<lambda>(nm, as). list_all (arg_ok (cmem c)) as) new"
  using finish_call_sel [OF assms(1)] assms(2) by (auto simp: sys_ok_def)

lemma finish_calls:
  assumes "finish_call v = (r, c')" "calls_ok (begin_call c) (snd v)"
  shows "\<exists>new. hcalls c' = hcalls c @ new \<and> list_all (\<lambda>(nm, as). list_all (arg_ok (cmem c)) as) new"
    and "thr c' = thr c \<and> (\<exists>x. regs (cthread c') = (regs (cthread c))[0 := x]) \<and>
      (sigmask (cthread c) AND kUnblockable = 0 \<longrightarrow> sigmask (cthread c') AND kUnblockable = 0)"
  using finish_call_sel [OF assms(1)] assms(2) by (auto simp: calls_ok_def thread_ok_def)

text \<open>A thread of a new process about to make the system call \<open>nr\<close>.\<close>

definition call_demo :: "u32 \<Rightarrow> unit ctx" where
  "call_demo nr = plain_ctx\<lparr>proc := upd_thread 0 (\<lambda>t. t\<lparr>regs := (regs t)[7 := nr]\<rparr>) new_process\<rparr>"

lemma call_demo_nr: "regs (cthread (call_demo nr)) ! 7 = nr" "sigmask (cthread (call_demo nr)) = 0"
  by (simp_all add: call_demo_def plain_ctx_def upd_thread_def new_process_def new_thread_def)

lemma plain_env_bounded: "control_bounded plain_env"
  by (simp add: control_bounded_def plain_env_def plain_host_def ctl_size_def)

lemma call_demo_returns: "nr \<noteq> NR_sendmsg \<Longrightarrow> \<exists>r c'. handle_syscall plain_env (call_demo nr) = Some (r, c')"
  by (simp add: handle_syscall_def call_demo_nr Let_def)

text \<open>
  C1: No system call reaches outside the guest.  Whatever the guest puts in its registers and its
  memory, every host call made on its behalf is given only guest ranges that lie in the guest space,
  in mapped pages that have the permission for the use the host makes of them; and every system
  call but the five that manage the address space leaves the page table and the host protections as
  they are and changes no byte outside the guest's writable pages.  The host returns control messages of less than
  2 GiB (\<open>control_bounded\<close>).
\<close>

theorem syscall_confined:
  assumes "control_bounded E" and "handle_syscall E c = Some (r, c')"
  shows "(\<exists>new. hcalls c' = hcalls c @ new \<and> list_all (\<lambda>(nm, as). list_all (arg_ok (cmem c)) as) new) \<and>
    (regs (cthread c) ! 7 \<notin> {NR_brk, NR_mmap2, NR_munmap, NR_mprotect, NR_madvise} \<longrightarrow> mem_confined (cmem c) (cmem c'))"
  using assms(2)
proof (cases rule: handle_syscall_cases)
  case 1
  then show ?thesis using sys_exit_sel [of r c' "begin_call c"] by simp
next
  case 2
  then show ?thesis using sys_exit_sel [of r c' "begin_call c"] by simp
next
  case 3
  then show ?thesis using sys_sigreturn_sel [OF 3(2)] by simp
next
  case (4 v)
  then show ?thesis using finish_ok [OF 4(3)] sys_sendmsg_ok [of E "begin_call c" "fst v" "snd v"] by simp
next
  case 5
  have "map_of (memory_table E) (regs (cthread c) ! 7) = None"
    if "regs (cthread c) ! 7 \<notin> {NR_brk, NR_mmap2, NR_munmap, NR_mprotect, NR_madvise}"
    using that by (simp add: memory_table_def)
  then show ?thesis using finish_calls(1) [OF 5(2) dispatch_calls [OF assms(1)]] finish_ok [OF 5(2) dispatch_ok [OF assms(1)]] by blast
qed

theorem syscall_confined_witness:
  "\<exists>r c'. handle_syscall plain_env (call_demo NR_getpid) = Some (r, c') \<and> mem_confined (cmem (call_demo NR_getpid)) (cmem c')"
proof -
  obtain r c' where h: "handle_syscall plain_env (call_demo NR_getpid) = Some (r, c')"
    using call_demo_returns [of NR_getpid] by (auto simp: nr_defs)
  with syscall_confined [OF plain_env_bounded h] show ?thesis by (auto simp: call_demo_nr nr_defs)
qed

text \<open>
  C5: A system call preserves the thread that makes it.  The caller keeps all its registers but \<open>r0\<close>,
  unless it returned from a signal, and if its signal mask does not block \<open>SIGKILL\<close> and \<open>SIGSTOP\<close>
  before the call it does not after it, whatever masks the guest asked for.
\<close>

theorem syscall_preserves_thread:
  assumes "control_bounded E" and "handle_syscall E c = Some (r, c')"
  shows "(regs (cthread c) ! 7 \<notin> {NR_rt_sigreturn, NR_sigreturn} \<longrightarrow>
      (\<exists>x. regs (cthread c') = (regs (cthread c))[0 := x])) \<and>
    (sigmask (cthread c) AND kUnblockable = 0 \<longrightarrow> sigmask (cthread c') AND kUnblockable = 0)"
  using assms(2)
proof (cases rule: handle_syscall_cases)
  case 1
  then show ?thesis using sys_exit_sel [of r c' "begin_call c"] by (metis begin_call_sel list_update_id)
next
  case 2
  then show ?thesis using sys_exit_sel [of r c' "begin_call c"] by (metis begin_call_sel list_update_id)
next
  case 3
  then show ?thesis using sys_sigreturn_sel [OF 3(2)] by auto
next
  case (4 v)
  then have "sys_ok (begin_call c) (snd v)" using sys_sendmsg_ok [of E "begin_call c" "fst v" "snd v"] by simp
  then show ?thesis using finish_calls(2) [OF 4(3) sys_ok_calls_ok] by blast
next
  case 5
  then show ?thesis using finish_calls(2) [OF 5(2) dispatch_calls [OF assms(1)]] by blast
qed


theorem syscall_preserves_thread_witness:
  "\<exists>r c'. handle_syscall plain_env (call_demo NR_rt_sigprocmask) = Some (r, c') \<and> sigmask (cthread c') AND kUnblockable = 0"
proof -
  obtain r c' where h: "handle_syscall plain_env (call_demo NR_rt_sigprocmask) = Some (r, c')"
    using call_demo_returns [of NR_rt_sigprocmask] by (auto simp: nr_defs)
  with syscall_preserves_thread [OF plain_env_bounded h] show ?thesis by (auto simp: call_demo_nr)
qed

end
