(* ===== verification/Elf_Loader.thy ===== *)
theory Elf_Loader
  imports Elf_Files
begin

text \<open>
  The program loader \<open>core/src/elf_loader.cpp\<close>: it validates an ARM ELF32 file, places it in the guest
  address space, copies the segments and gives each page the union of the permissions of the
  segments on it.

  The content of the file is a parameter (\<open>None\<close> when it cannot be opened, \<open>file_ok\<close> whether the read succeeds).
  Sums that the source computes in 64 bits over 32-bit fields are natural numbers here; they stay
  below \<open>2 ^ 34\<close>.

  The result: a successful load touches no page that was mapped before, every page of the image has
  exactly the permissions its segments ask for, the pages between segments are unmapped, and every
  byte of the image is the byte of the file the segments put there, or zero.
\<close>

section \<open>Loading\<close>

datatype load_error = CannotOpen | SizeRange | CannotRead | TooSmall | NotArmElf | UnsupportedType | BadPhdrTable
  | BadInterp | BadLoad | NoSegments | NoSpace | InvalidBias | RangeInUse | BadEntry | CannotMap | CannotProtect
  | PhdrsNotReadable

record loaded_elf =
  le_bias :: u32
  le_entry :: u32
  le_phdr :: u32
  le_phnum :: u32
  le_load_start :: u32
  le_load_end :: u32
  le_is_dyn :: bool
  le_interp :: "u8 list"

definition ET_EXEC :: u16 where "ET_EXEC = 2"
definition ET_DYN :: u16 where "ET_DYN = 3"
definition PF_X :: u32 where "PF_X = 1"
definition PF_W :: u32 where "PF_W = 2"
definition PF_R :: u32 where "PF_R = 4"

definition valid_load_header :: "elf32_ehdr \<Rightarrow> bool" where
  "valid_load_header eh \<longleftrightarrow> take 4 (e_ident eh) = ELFMAG \<and> e_ident eh ! 4 = 1 \<and> e_ident eh ! 5 = 1 \<and> e_ident eh ! 6 = 1 \<and>
     e_version eh = 1 \<and> e_machine eh = EM_ARM \<and> e_ehsize eh = 52"

definition bad_interp :: "u8 list \<Rightarrow> elf32_phdr \<Rightarrow> bool" where
  "bad_interp f p \<longleftrightarrow>
     (let off = unat (p_offset p); sz = unat (p_filesz p)
      in sz < 2 \<or> off + sz > length f \<or> f ! (off + sz - 1) \<noteq> 0 \<or> 0 \<in> set (take (sz - 1) (drop off f)))"

definition bad_load :: "u8 list \<Rightarrow> elf32_phdr \<Rightarrow> bool" where
  "bad_load f p \<longleftrightarrow>
     p_filesz p > p_memsz p \<or> unat (p_offset p) + unat (p_filesz p) > length f \<or>
     unat (p_vaddr p) + unat (p_memsz p) \<ge> 4294967296 \<or>
     (p_align p \<noteq> 0 \<and> p_align p AND (p_align p - 1) \<noteq> 0) \<or>
     (p_align p > 1 \<and> p_offset p mod p_align p \<noteq> p_vaddr p mod p_align p)"

definition seg_end :: "elf32_phdr \<Rightarrow> nat" where
  "seg_end p = unat (page_round_up (ucast (p_vaddr p) + ucast (p_memsz p)))"

text \<open>The first loop over the program headers, with \<open>lo\<close>, \<open>hi\<close> and the two counters.\<close>

fun scan_segments :: "u8 list \<Rightarrow> elf32_phdr list \<Rightarrow> nat \<Rightarrow> nat \<Rightarrow> nat \<Rightarrow> nat \<Rightarrow> load_error + nat \<times> nat \<times> nat" where
  "scan_segments f [] lo hi nloads interps = Inr (lo, hi, nloads)"
| "scan_segments f (p # ps) lo hi nloads interps =
     (let interps' = (if p_type p = PT_INTERP then interps + 1 else interps)
      in if p_type p = PT_INTERP \<and> (interps' > 1 \<or> bad_interp f p) then Inl BadInterp
         else if p_type p \<noteq> PT_LOAD then scan_segments f ps lo hi nloads interps'
         else if bad_load f p then Inl BadLoad
         else if p_memsz p = 0 then scan_segments f ps lo hi (nloads + 1) interps'
         else scan_segments f ps (min lo (unat (page_round_down (p_vaddr p)))) (max hi (seg_end p)) (nloads + 1) interps')"

definition place_image :: "u16 \<Rightarrow> nat \<Rightarrow> nat \<Rightarrow> u32 \<Rightarrow> guest_memory \<Rightarrow> load_error + u32" where
  "place_image type lo sp dyn_limit m =
     (if type = ET_DYN then
        (let at = find_free (of_nat sp) dyn_limit m
         in if at = 0 then Inl NoSpace
            else if unat at < lo \<or> unat at + sp \<ge> 4294967296 then Inl InvalidBias
            else Inr (at - of_nat lo))
      else if \<not> range_free (of_nat lo) (of_nat sp) m then Inl RangeInUse
      else Inr 0)"

definition entry_in_load :: "u32 \<Rightarrow> elf32_phdr \<Rightarrow> bool" where
  "entry_in_load e p \<longleftrightarrow> p_type p = PT_LOAD \<and> p_flags p AND PF_X \<noteq> 0 \<and> e \<ge> p_vaddr p \<and>
     unat e < unat (p_vaddr p) + unat (p_memsz p)"

text \<open>The copies of the segments, in the order of the program headers.\<close>

definition is_copied :: "elf32_phdr \<Rightarrow> bool" where
  "is_copied p \<longleftrightarrow> p_type p = PT_LOAD \<and> p_filesz p \<noteq> 0"

definition copy_segment :: "u8 list \<Rightarrow> u32 \<Rightarrow> elf32_phdr \<Rightarrow> guest_memory \<Rightarrow> guest_memory" where
  "copy_segment f bias p m =
     (if is_copied p
      then store_bytes (unat (p_vaddr p) + unat bias) (take (unat (p_filesz p)) (drop (unat (p_offset p)) f)) m
      else m)"

definition copy_segments :: "u8 list \<Rightarrow> u32 \<Rightarrow> elf32_phdr list \<Rightarrow> guest_memory \<Rightarrow> guest_memory" where
  "copy_segments f bias ps m = fold (copy_segment f bias) ps m"

definition interp_of :: "u8 list \<Rightarrow> elf32_phdr list \<Rightarrow> u8 list" where
  "interp_of f ps =
     fold (\<lambda>p s. if p_type p = PT_INTERP then take (unat (p_filesz p) - 1) (drop (unat (p_offset p)) f) else s) ps []"

definition seg_prot :: "elf32_phdr \<Rightarrow> u32" where
  "seg_prot p = (if p_flags p AND PF_R \<noteq> 0 then PROT_READ else 0) OR (if p_flags p AND PF_W \<noteq> 0 then PROT_WRITE else 0) OR
     (if p_flags p AND PF_X \<noteq> 0 then PROT_EXEC else 0)"

definition is_mapped_segment :: "elf32_phdr \<Rightarrow> bool" where
  "is_mapped_segment p \<longleftrightarrow> p_type p = PT_LOAD \<and> p_memsz p \<noteq> 0"

text \<open>The pages of a segment, as indices into \<open>page_prot\<close>.\<close>

definition seg_first :: "u32 \<Rightarrow> u32 \<Rightarrow> elf32_phdr \<Rightarrow> nat" where
  "seg_first start bias p = unat (page_round_down (p_vaddr p + bias) - start) div 4096"

definition seg_last :: "u32 \<Rightarrow> u32 \<Rightarrow> elf32_phdr \<Rightarrow> nat" where
  "seg_last start bias p =
     unat (page_round_up (ucast (p_vaddr p) + ucast bias + ucast (p_memsz p)) - ucast start) div 4096"

definition add_prot :: "u32 \<Rightarrow> u32 option \<Rightarrow> u32 option" where
  "add_prot prot x = (case x of None \<Rightarrow> Some prot | Some y \<Rightarrow> Some (y OR prot))"

definition mark_segment :: "u32 \<Rightarrow> u32 \<Rightarrow> elf32_phdr \<Rightarrow> u32 option list \<Rightarrow> u32 option list" where
  "mark_segment start bias p pp =
     (if is_mapped_segment p
      then map (\<lambda>i. if seg_first start bias p \<le> i \<and> i < seg_last start bias p then add_prot (seg_prot p) (pp ! i) else pp ! i)
             [0..<length pp]
      else pp)"

definition page_prots :: "u32 \<Rightarrow> u32 \<Rightarrow> nat \<Rightarrow> elf32_phdr list \<Rightarrow> u32 option list" where
  "page_prots start bias n ps = fold (mark_segment start bias) ps (replicate n None)"

text \<open>\<open>while (next < size && page_prot[next] == page_prot[i]) ++next\<close>\<close>

function same_prot_end :: "u32 option list \<Rightarrow> nat \<Rightarrow> nat \<Rightarrow> nat" where
  "same_prot_end pp i nx = (if nx < length pp \<and> pp ! nx = pp ! i then same_prot_end pp i (nx + 1) else nx)"
  by pat_completeness auto
termination
  by (relation "measure (\<lambda>(pp, i, nx). length pp - nx)") auto

declare same_prot_end.simps [simp del]

lemma same_prot_end_ge: "nx \<le> same_prot_end pp i nx"
proof (induction pp i nx rule: same_prot_end.induct)
  case (1 pp i nx)
  then show ?case using same_prot_end.simps [of pp i nx] by (cases "nx < length pp \<and> pp ! nx = pp ! i") auto
qed

function protect_runs :: "kernel \<Rightarrow> u32 \<Rightarrow> u32 option list \<Rightarrow> nat \<Rightarrow> guest_memory \<Rightarrow> bool \<times> guest_memory" where
  "protect_runs K start pp i m =
     (if i < length pp then
        let nx = same_prot_end pp i (i + 1);
            at = start + of_nat (i * 4096);
            len = of_nat ((nx - i) * 4096)
        in (case (case pp ! i of None \<Rightarrow> unmap K at len m | Some prot \<Rightarrow> protect K at len prot m) of
              (ok, m1) \<Rightarrow> if ok then protect_runs K start pp nx m1 else (False, m1))
      else (True, m))"
  by pat_completeness auto
termination
proof (relation "measure (\<lambda>(K, start, pp, i, m). length pp - i)", simp)
  fix K start m nx at len and pp :: "u32 option list" and i :: nat and x ok m1
  assume "i < length pp" and nx: "nx = same_prot_end pp i (i + 1)"
  then show "((K, start, pp, nx, m1), (K, start, pp, i, m)) \<in> measure (\<lambda>(K, start, pp, i, m). length pp - i)"
    using same_prot_end_ge [of "i + 1" pp i] by auto
qed

declare protect_runs.simps [simp del]

text \<open>The address of the program headers: the last \<open>PT_PHDR\<close>, otherwise the segment that holds them.\<close>

definition phdr_address :: "elf32_ehdr \<Rightarrow> elf32_phdr list \<Rightarrow> u32 \<Rightarrow> u32" where
  "phdr_address eh ps bias =
     (let a = fold (\<lambda>p a. if p_type p = PT_PHDR \<and> unat (p_vaddr p) + unat bias < 4294967296 then p_vaddr p + bias else a) ps 0
      in if a \<noteq> 0 then a
         else case find (\<lambda>p. p_type p = PT_LOAD \<and> e_phoff eh \<ge> p_offset p \<and>
                            unat (e_phoff eh) < unat (p_offset p) + unat (p_filesz p)) ps of
             Some p \<Rightarrow> p_vaddr p + (e_phoff eh - p_offset p) + bias
           | None \<Rightarrow> 0)"

text \<open>Mapping, copying and protecting an image whose place is fixed.\<close>

definition install_image ::
    "kernel \<Rightarrow> u8 list \<Rightarrow> elf32_ehdr \<Rightarrow> elf32_phdr list \<Rightarrow> nat \<Rightarrow> nat \<Rightarrow> u32 \<Rightarrow> guest_memory \<Rightarrow> (load_error + loaded_elf) \<times> guest_memory" where
  "install_image K f eh ps lo hi bias m =
     (let start = of_nat lo + bias; e = hi + unat bias; sp = hi - lo;
          entry = unat (e_entry eh AND NOT 1) + unat bias
      in if e \<ge> 4294967296 \<or> entry \<ge> 4294967296 \<or> \<not> list_ex (entry_in_load (e_entry eh AND NOT 1)) ps then (Inl BadEntry, m)
         else case map_anon K start (of_nat sp) (PROT_READ OR PROT_WRITE) m of (ok, m1) \<Rightarrow>
           if \<not> ok then (Inl CannotMap, m1)
           else case protect_runs K start (page_prots start bias (sp div 4096) ps) 0 (copy_segments f bias ps m1) of (ok2, m2) \<Rightarrow>
             if \<not> ok2 then (Inl CannotProtect, snd (unmap K start (of_nat sp) m2))
             else let ph = phdr_address eh ps bias; phdr_end = unat ph + unat (e_phnum eh) * 32
                  in if ph = 0 \<or> ph < start \<or> phdr_end > e \<or> \<not> accessible ph (of_nat (phdr_end - unat ph)) kPageRead m2
                     then (Inl PhdrsNotReadable, snd (unmap K start (of_nat sp) m2))
                     else (Inr \<lparr>le_bias = bias, le_entry = of_nat entry OR (e_entry eh AND 1), le_phdr = ph,
                                le_phnum = ucast (e_phnum eh), le_load_start = start, le_load_end = of_nat e,
                                le_is_dyn = (e_type eh = ET_DYN), le_interp = interp_of f ps\<rparr>, m2))"

definition load_elf ::
    "kernel \<Rightarrow> u8 list option \<Rightarrow> bool \<Rightarrow> u32 \<Rightarrow> guest_memory \<Rightarrow> (load_error + loaded_elf) \<times> guest_memory" where
  "load_elf K file file_ok dyn_limit m =
     (case file of
        None \<Rightarrow> (Inl CannotOpen, m)
      | Some f \<Rightarrow>
          if length f > kMaxFileSize then (Inl SizeRange, m)
          else if f \<noteq> [] \<and> \<not> file_ok then (Inl CannotRead, m)
          else if length f < 52 then (Inl TooSmall, m)
          else let eh = ehdr_of (take 52 f)
               in if \<not> valid_load_header eh then (Inl NotArmElf, m)
                  else if e_type eh \<noteq> ET_EXEC \<and> e_type eh \<noteq> ET_DYN then (Inl UnsupportedType, m)
                  else if e_phnum eh = 0 \<or> e_phnum eh > 1024 \<or> e_phentsize eh \<noteq> 32 \<or>
                          unat (e_phoff eh) + unat (e_phnum eh) * 32 > length f then (Inl BadPhdrTable, m)
                  else let ps = phdr_table f (unat (e_phoff eh)) (unat (e_phnum eh))
                       in case scan_segments f ps 18446744073709551615 0 0 0 of
                            Inl er \<Rightarrow> (Inl er, m)
                          | Inr (lo, hi, nloads) \<Rightarrow>
                              if nloads = 0 \<or> hi = 0 \<or> hi \<ge> 4294967296 then (Inl NoSegments, m)
                              else case place_image (e_type eh) lo (hi - lo) dyn_limit m of
                                  Inl er \<Rightarrow> (Inl er, m)
                                | Inr bias \<Rightarrow> install_image K f eh ps lo hi bias m)"


section \<open>What the image is\<close>

text \<open>Segment \<open>p\<close> has bytes on page \<open>j\<close>; the flags the segments ask for on a page; the byte the segments
  put at an address, the last one winning.\<close>

definition seg_covers :: "u32 \<Rightarrow> nat \<Rightarrow> elf32_phdr \<Rightarrow> bool" where
  "seg_covers bias j p \<longleftrightarrow> is_mapped_segment p \<and> (unat (p_vaddr p) + unat bias) div 4096 \<le> j \<and>
     j * 4096 < unat (p_vaddr p) + unat bias + unat (p_memsz p)"

definition page_wants :: "elf32_phdr list \<Rightarrow> u32 \<Rightarrow> nat \<Rightarrow> u32 \<Rightarrow> bool" where
  "page_wants ps bias j pf \<longleftrightarrow> list_ex (\<lambda>p. seg_covers bias j p \<and> p_flags p AND pf \<noteq> 0) ps"

definition image_flags :: "elf32_phdr list \<Rightarrow> u32 \<Rightarrow> nat \<Rightarrow> u8" where
  "image_flags ps bias j =
     (if list_ex (seg_covers bias j) ps
      then kPageMapped OR (if page_wants ps bias j PF_R then kPageRead else 0) OR
             (if page_wants ps bias j PF_W then kPageWrite else 0) OR (if page_wants ps bias j PF_X then kPageExec else 0)
      else 0)"

definition file_covers :: "u32 \<Rightarrow> nat \<Rightarrow> elf32_phdr \<Rightarrow> bool" where
  "file_covers bias a p \<longleftrightarrow> is_copied p \<and> unat (p_vaddr p) + unat bias \<le> a \<and>
     a < unat (p_vaddr p) + unat bias + unat (p_filesz p)"

definition image_byte :: "u8 list \<Rightarrow> elf32_phdr list \<Rightarrow> u32 \<Rightarrow> nat \<Rightarrow> u8" where
  "image_byte f ps bias a =
     (case find (file_covers bias a) (rev ps) of
        None \<Rightarrow> 0
      | Some p \<Rightarrow> f ! (unat (p_offset p) + (a - (unat (p_vaddr p) + unat bias))))"

section \<open>Steps of the loader\<close>

subsection \<open>Operations on whole pages\<close>

lemma page_range_unat:
  assumes "unat start = s * 4096" "(s + i + k) * 4096 \<le> 4294967296" "0 < k"
  shows "unat (start + of_nat (i * 4096)) = (s + i) * 4096" "unat (of_nat (k * 4096) :: u64) = k * 4096"
    "unat (page_round_up (of_nat (k * 4096))) = k * 4096"
    "touches (start + of_nat (i * 4096)) (page_round_up (of_nat (k * 4096))) j \<longleftrightarrow> s + i \<le> j \<and> j < s + i + k"
proof -
  have i: "i * 4096 < 4294967296" "s * 4096 + i * 4096 < 4294967296" "k * 4096 \<le> 4294967296"
    using assms(2,3) by (simp_all add: add_mult_distrib)
  have "unat (of_nat (i * 4096) :: u32) = i * 4096" using i(1) by (intro unat_eq_of_nat) simp
  then have "unat (start + of_nat (i * 4096)) = (s * 4096 + i * 4096) mod 2 ^ 32"
    using assms(1) by (simp only: unat_word_ariths len_of_numeral_defs) simp
  also have "\<dots> = (s + i) * 4096" using i(2) by (simp only: add_mult_distrib) (intro mod_less, simp)
  finally show a: "unat (start + of_nat (i * 4096)) = (s + i) * 4096" .
  show l: "unat (of_nat (k * 4096) :: u64) = k * 4096" using i(3) by (intro unat_eq_of_nat) simp
  have "unat (page_round_up (of_nat (k * 4096))) = (k * 4096 + 4095) div 4096 * 4096"
    using i(3) l by (subst page_round_up_no_wrap) (simp_all only: l, simp)
  also have "\<dots> = k * 4096" by simp
  finally show r: "unat (page_round_up (of_nat (k * 4096))) = k * 4096" .
  show "touches (start + of_nat (i * 4096)) (page_round_up (of_nat (k * 4096))) j \<longleftrightarrow> s + i \<le> j \<and> j < s + i + k"
    by (rule touches_page_range [OF a r])
qed

text \<open>An operation that succeeds sets the flags of its pages; nothing outside them changes either way.\<close>

lemma page_ops_outside:
  assumes "unat start = s * 4096" "(s + i + k) * 4096 \<le> 4294967296" "0 < k"
    and "op = unmap K (start + of_nat (i * 4096)) (of_nat (k * 4096)) \<or> op = protect K (start + of_nat (i * 4096)) (of_nat (k * 4096)) prot"
    and "op m = (ok, m')" "j < s + i \<or> s + i + k \<le> j"
  shows "pages m' j = pages m j" "a div 4096 = j \<Longrightarrow> bytes m' a = bytes m a"
proof -
  note u = page_range_unat [OF assms(1-3)]
  have d: "4096 dvd unat (start + of_nat (i * 4096))" unfolding u(1) by simp
  have t: "\<not> touches (start + of_nat (i * 4096)) (page_round_up (of_nat (k * 4096))) j" unfolding u(4) using assms(6) by auto
  show "pages m' j = pages m j"
    using assms(4,5) t by (auto simp: unmap_def protect_def Let_def pages_set_flags [OF d] split: if_splits simp del: of_nat_mult)
  assume "a div 4096 = j"
  then have "a < (s + i) * 4096 \<or> (s + i + k) * 4096 \<le> a"
    using assms(6) by (auto simp: div_less_iff_less_mult [symmetric] less_eq_div_iff_mult_less_eq [symmetric])
  then have n: "\<not> (unat (start + of_nat (i * 4096)) \<le> a \<and> a < unat (start + of_nat (i * 4096)) + unat (page_round_up (of_nat (k * 4096))))"
    unfolding u(1,3) by (auto simp: algebra_simps)
  then show "bytes m' a = bytes m a"
    using assms(4,5) by (auto simp: unmap_def protect_def Let_def set_range_def split: if_splits simp del: of_nat_mult)
qed

lemma page_ops_true:
  assumes "unat start = s * 4096" "(s + i + k) * 4096 \<le> 4294967296" "0 < k" "s + i \<le> j" "j < s + i + k"
  shows "unmap K (start + of_nat (i * 4096)) (of_nat (k * 4096)) m = (True, m') \<Longrightarrow> pages m' j = 0"
    "protect K (start + of_nat (i * 4096)) (of_nat (k * 4096)) prot m = (True, m') \<Longrightarrow> pages m' j = flags_from_prot prot"
    "protect K (start + of_nat (i * 4096)) (of_nat (k * 4096)) prot m = (ok, m') \<Longrightarrow> bytes m' = bytes m"
proof -
  note u = page_range_unat [OF assms(1-3)]
  have d: "4096 dvd unat (start + of_nat (i * 4096))" unfolding u(1) by simp
  have t: "touches (start + of_nat (i * 4096)) (page_round_up (of_nat (k * 4096))) j" unfolding u(4) using assms(4,5) by auto
  show "unmap K (start + of_nat (i * 4096)) (of_nat (k * 4096)) m = (True, m') \<Longrightarrow> pages m' j = 0"
    using t by (auto simp: unmap_def Let_def pages_set_flags [OF d] split: if_splits simp del: of_nat_mult)
  show "protect K (start + of_nat (i * 4096)) (of_nat (k * 4096)) prot m = (True, m') \<Longrightarrow> pages m' j = flags_from_prot prot"
    using t by (auto simp: protect_def Let_def pages_set_flags [OF d] split: if_splits simp del: of_nat_mult)
  show "protect K (start + of_nat (i * 4096)) (of_nat (k * 4096)) prot m = (ok, m') \<Longrightarrow> bytes m' = bytes m"
    by (auto simp: protect_def Let_def split: if_splits)
qed

subsection \<open>The runs of equal pages\<close>

lemma same_prot_end_spec:
  "nx \<le> length pp \<Longrightarrow> same_prot_end pp i nx \<le> length pp \<and> (\<forall>x. nx \<le> x \<and> x < same_prot_end pp i nx \<longrightarrow> pp ! x = pp ! i)"
proof (induction pp i nx rule: same_prot_end.induct)
  case (1 pp i nx)
  show ?case
  proof (cases "nx < length pp \<and> pp ! nx = pp ! i")
    case True
    then have r: "same_prot_end pp i nx = same_prot_end pp i (nx + 1)" by (simp add: same_prot_end.simps [of pp i nx])
    have ih: "same_prot_end pp i (nx + 1) \<le> length pp"
      "\<And>x. nx + 1 \<le> x \<Longrightarrow> x < same_prot_end pp i (nx + 1) \<Longrightarrow> pp ! x = pp ! i"
      using 1(1) True by auto
    have "pp ! x = pp ! i" if "nx \<le> x" "x < same_prot_end pp i (nx + 1)" for x
      using that True ih(2) by (cases "x = nx") auto
    then show ?thesis using ih(1) unfolding r by blast
  next
    case False
    then have "same_prot_end pp i nx = nx" by (subst same_prot_end.simps) (rule if_not_P)
    then show ?thesis using 1(2) by auto
  qed
qed

definition prot_flags :: "u32 option \<Rightarrow> u8" where
  "prot_flags x = (case x of None \<Rightarrow> 0 | Some prot \<Rightarrow> flags_from_prot prot)"

lemma protect_runs_spec:
  assumes "unat start = s * 4096" "(s + length pp) * 4096 \<le> 4294967296" "protect_runs K start pp i m = (ok, m')"
  shows "(j < s + i \<or> s + length pp \<le> j \<longrightarrow> pages m' j = pages m j \<and> (\<forall>a. a div 4096 = j \<longrightarrow> bytes m' a = bytes m a)) \<and>
    (ok \<and> s + i \<le> j \<and> j < s + length pp \<longrightarrow> pages m' j = prot_flags (pp ! (j - s)) \<and>
       (pp ! (j - s) \<noteq> None \<longrightarrow> (\<forall>a. a div 4096 = j \<longrightarrow> bytes m' a = bytes m a)))"
  using assms(3)
proof (induction "length pp - i" arbitrary: i m rule: less_induct)
  case less
  show ?case
  proof (cases "i < length pp")
    case False
    then show ?thesis using less(2) by (auto simp: protect_runs.simps [of K start pp i])
  next
    case True
    define nx where "nx = same_prot_end pp i (i + 1)"
    define k where "k = nx - i"
    have nx: "i < nx" "nx \<le> length pp" "\<And>x. i \<le> x \<Longrightarrow> x < nx \<Longrightarrow> pp ! x = pp ! i"
    proof -
      show "i < nx" using same_prot_end_ge [of "i + 1" pp i] by (simp add: nx_def)
      show "nx \<le> length pp" using same_prot_end_spec [of "i + 1" pp i] True by (simp add: nx_def)
      fix x assume "i \<le> x" "x < nx"
      then show "pp ! x = pp ! i" using same_prot_end_spec [of "i + 1" pp i] True by (cases "x = i") (auto simp: nx_def)
    qed
    have k: "0 < k" "i + k = nx" "(s + i + k) * 4096 \<le> 4294967296" using nx(1,2) assms(2) by (simp_all add: k_def)
    let ?op = "case pp ! i of None \<Rightarrow> unmap K (start + of_nat (i * 4096)) (of_nat (k * 4096))
      | Some prot \<Rightarrow> protect K (start + of_nat (i * 4096)) (of_nat (k * 4096)) prot"
    obtain ok1 m1 where o: "?op m = (ok1, m1)" by fastforce
    have step: "protect_runs K start pp i m = (if ok1 then protect_runs K start pp nx m1 else (False, m1))"
    proof -
      have "same_prot_end pp i (Suc i) = nx" by (simp add: nx_def)
      then show ?thesis using True o unfolding k_def by (simp add: protect_runs.simps [of K start pp i] Let_def
            option.case_distrib [of "\<lambda>g. g m"] del: of_nat_mult)
    qed
    have out: "pages m1 j = pages m j \<and> (\<forall>a. a div 4096 = j \<longrightarrow> bytes m1 a = bytes m a)" if "j < s + i \<or> s + nx \<le> j" for j
    proof -
      have op: "?op = unmap K (start + of_nat (i * 4096)) (of_nat (k * 4096)) \<or>
          ?op = protect K (start + of_nat (i * 4096)) (of_nat (k * 4096)) (the (pp ! i))" by (cases "pp ! i") auto
      have "j < s + i \<or> s + i + k \<le> j" using that k(2) by (simp add: add.assoc)
      from page_ops_outside [of start s i k ?op K "the (pp ! i)" m ok1 m1 j, OF assms(1) k(3,1) op o this]
      show ?thesis by blast
    qed
    have ins: "pages m1 j = prot_flags (pp ! i) \<and> (pp ! i \<noteq> None \<longrightarrow> bytes m1 = bytes m)" if "ok1" "s + i \<le> j" "j < s + nx" for j
      using o that k page_ops_true [OF assms(1) k(3,1), of j] by (cases "pp ! i") (auto simp: prot_flags_def add.assoc)
    show ?thesis
    proof (cases ok1)
      case False
      then show ?thesis using less(2) out [of j] nx(1,2) unfolding step by auto
    next
      case True
      then have "protect_runs K start pp nx m1 = (ok, m')" using less(2) unfolding step by simp
      note ih = less(1) [OF _ this]
      show ?thesis
      proof (cases "j < s + nx")
        case jn: True
        then have "pages m' j = pages m1 j" "\<forall>a. a div 4096 = j \<longrightarrow> bytes m' a = bytes m1 a" using ih nx(1) \<open>i < length pp\<close> by auto
        then show ?thesis using out [of j] ins [OF True, of j] jn nx(1,2) nx(3) [of "j - s"] by (cases "s + i \<le> j") auto
      next
        case False
        then show ?thesis using ih nx(1) \<open>i < length pp\<close> out [of j] by auto
      qed
    qed
  qed
qed

subsection \<open>Copies and permissions\<close>

lemma copy_segments_pages [simp]: "pages (copy_segments f bias ps m) = pages m"
  unfolding copy_segments_def by (induction ps arbitrary: m) (simp_all add: copy_segment_def)

lemma copy_segment_bytes:
  assumes "is_copied p \<Longrightarrow> unat (p_offset p) + unat (p_filesz p) \<le> length f"
  shows "bytes (copy_segment f bias p m) a =
    (if file_covers bias a p then f ! (unat (p_offset p) + (a - (unat (p_vaddr p) + unat bias))) else bytes m a)"
  using assms by (auto simp: copy_segment_def file_covers_def store_bytes_def)

lemma copy_segments_bytes:
  assumes "\<forall>p \<in> set ps. is_copied p \<longrightarrow> unat (p_offset p) + unat (p_filesz p) \<le> length f" "bytes m a = 0"
  shows "bytes (copy_segments f bias ps m) a = image_byte f ps bias a"
  using assms
proof (induction ps rule: rev_induct)
  case (snoc p ps)
  have "bytes (copy_segments f bias (ps @ [p]) m) a = bytes (copy_segment f bias p (copy_segments f bias ps m)) a"
    by (simp add: copy_segments_def)
  also have "\<dots> = (if file_covers bias a p then f ! (unat (p_offset p) + (a - (unat (p_vaddr p) + unat bias)))
      else bytes (copy_segments f bias ps m) a)" using snoc(2) by (intro copy_segment_bytes) simp
  finally show ?case using snoc by (simp add: image_byte_def)
qed (simp add: copy_segments_def image_byte_def)

lemma copy_segments_outside:
  assumes "\<forall>p \<in> set ps. \<not> file_covers bias a p"
  shows "bytes (copy_segments f bias ps m) a = bytes m a"
  using assms unfolding copy_segments_def
proof (induction ps arbitrary: m)
  case (Cons p ps)
  have "bytes (copy_segment f bias p m) a = bytes m a"
    using Cons.prems by (auto simp: copy_segment_def store_bytes_def file_covers_def)
  then show ?case using Cons by simp
qed simp

lemma length_page_prots [simp]: "length (page_prots start bias n ps) = n"
proof -
  have "length (fold (mark_segment start bias) ps pp) = length pp" for pp
    by (induction ps arbitrary: pp) (simp_all add: mark_segment_def)
  then show ?thesis by (simp add: page_prots_def)
qed

lemma page_prots_nth:
  assumes "i < n"
  shows "page_prots start bias n ps ! i =
    fold (\<lambda>p. if is_mapped_segment p \<and> seg_first start bias p \<le> i \<and> i < seg_last start bias p then add_prot (seg_prot p) else id) ps None"
proof -
  have "length pp = n \<Longrightarrow> fold (mark_segment start bias) ps pp ! i =
    fold (\<lambda>p. if is_mapped_segment p \<and> seg_first start bias p \<le> i \<and> i < seg_last start bias p then add_prot (seg_prot p) else id) ps (pp ! i)" for pp
  proof (induction ps arbitrary: pp)
    case (Cons p ps)
    have "length (mark_segment start bias p pp) = n" using Cons.prems by (simp add: mark_segment_def)
    then show ?case using Cons assms by (simp add: mark_segment_def)
  qed simp
  then show ?thesis using assms by (simp add: page_prots_def)
qed

text \<open>The union of permissions, as flags.\<close>

lemma fold_add_prot:
  "fold (\<lambda>p. if c p then add_prot (seg_prot p) else id) ps x =
     (if list_ex c ps \<or> x \<noteq> None then Some (fold (\<lambda>p w. if c p then w OR seg_prot p else w) ps (case x of None \<Rightarrow> 0 | Some w \<Rightarrow> w)) else None)"
  by (induction ps arbitrary: x) (auto simp: add_prot_def split: option.splits)

lemma fold_or_bit:
  "bit (fold (\<lambda>p w. if c p then w OR seg_prot p else w) ps w0) b \<longleftrightarrow> bit w0 b \<or> list_ex (\<lambda>p. c p \<and> bit (seg_prot p) b) ps"
  by (induction ps arbitrary: w0) (auto simp: bit_or_iff)

lemma seg_prot_bits:
  "bit (seg_prot p) 0 \<longleftrightarrow> p_flags p AND PF_R \<noteq> 0" "bit (seg_prot p) 1 \<longleftrightarrow> p_flags p AND PF_W \<noteq> 0"
  "bit (seg_prot p) 2 \<longleftrightarrow> p_flags p AND PF_X \<noteq> 0"
  by (auto simp: seg_prot_def prot_defs bit_or_iff)

lemma and_power_nonzero: "(w :: u32) AND 1 \<noteq> 0 \<longleftrightarrow> bit w 0" "w AND 2 \<noteq> 0 \<longleftrightarrow> bit w 1" "w AND 4 \<noteq> 0 \<longleftrightarrow> bit w 2"
  using and_exp_eq_0_iff_not_bit [of w 0] and_exp_eq_0_iff_not_bit [of w 1] and_exp_eq_0_iff_not_bit [of w 2] by simp_all

lemma flags_of_bits:
  "flags_from_prot w = kPageMapped OR (if bit w 0 then kPageRead else 0) OR (if bit w 1 then kPageWrite else 0) OR (if bit w 2 then kPageExec else 0)"
  unfolding flags_from_prot_def prot_defs and_power_nonzero ..

lemma prot_flags_union:
  assumes "\<And>p. p \<in> set ps \<Longrightarrow> c p \<longleftrightarrow> seg_covers bias j p"
  shows "prot_flags (fold (\<lambda>p. if c p then add_prot (seg_prot p) else id) ps None) = image_flags ps bias j"
proof -
  have e: "list_ex c ps \<longleftrightarrow> list_ex (seg_covers bias j) ps" using assms by (auto simp: list_ex_iff)
  have w: "bit (fold (\<lambda>p w. if c p then w OR seg_prot p else w) ps 0) b \<longleftrightarrow>
      list_ex (\<lambda>p. seg_covers bias j p \<and> bit (seg_prot p) b) ps" for b
    using assms unfolding fold_or_bit by (auto simp: list_ex_iff)
  show ?thesis unfolding fold_add_prot e prot_flags_def image_flags_def page_wants_def
      option.case flags_of_bits w seg_prot_bits by (simp add: flags_of_bits w seg_prot_bits [unfolded One_nat_def])
qed

subsection \<open>The place of the image\<close>

lemma unat_seg_sum: "unat (ucast (v :: u32) + ucast (b :: u32) + ucast (n :: u32) :: u64) = unat v + unat b + unat n"
  using unat_less_u32 [of v] unat_less_u32 [of b] unat_less_u32 [of n] by (simp add: unat_word_ariths word_nat)

lemma seg_end_eq: "seg_end p = (unat (p_vaddr p) + unat (p_memsz p) + 4095) div 4096 * 4096"
proof -
  have "unat (ucast (p_vaddr p) + ucast (p_memsz p) :: u64) = unat (p_vaddr p) + unat (p_memsz p)"
    using unat_seg_sum [of "p_vaddr p" 0 "p_memsz p"] by simp
  then show ?thesis unfolding seg_end_def using unat_less_u32 [of "p_vaddr p"] unat_less_u32 [of "p_memsz p"]
    by (subst page_round_up_no_wrap) simp_all
qed

definition bounds_ok :: "nat \<Rightarrow> nat \<Rightarrow> bool" where
  "bounds_ok lo hi \<longleftrightarrow> (lo = 18446744073709551615 \<and> hi = 0) \<or> (4096 dvd lo \<and> 4096 dvd hi \<and> lo < hi)"

lemma bounds_ok_step:
  assumes "bounds_ok lo hi" "p_memsz p \<noteq> 0"
  shows "bounds_ok (min lo (unat (page_round_down (p_vaddr p)))) (max hi (seg_end p))"
proof -
  let ?a = "unat (p_vaddr p) div 4096 * 4096"
  have "0 < unat (p_memsz p)" using assms(2) by (simp add: unat_gt_0)
  then have lt: "?a < seg_end p" unfolding seg_end_eq
    using div_times_less_eq_dividend [of "unat (p_vaddr p)" 4096] dividend_less_times_div [of 4096 "unat (p_vaddr p) + unat (p_memsz p) + 4095 - 4096"] by (simp add: algebra_simps)
  have "?a < 18446744073709551615" using unat_less_u32 [of "p_vaddr p"] div_times_less_eq_dividend [of "unat (p_vaddr p)" 4096] by linarith
  moreover have "4096 dvd seg_end p" unfolding seg_end_eq by simp
  ultimately show ?thesis using assms(1) lt unfolding bounds_ok_def unat_page_round_down
    by (auto simp: min_def max_def)
qed

definition segments_within :: "u8 list \<Rightarrow> nat \<Rightarrow> nat \<Rightarrow> elf32_phdr list \<Rightarrow> bool" where
  "segments_within f lo hi ps \<longleftrightarrow> (\<forall>p \<in> set ps. (p_type p = PT_LOAD \<longrightarrow> \<not> bad_load f p) \<and>
     (is_mapped_segment p \<longrightarrow> lo \<le> unat (p_vaddr p) div 4096 * 4096 \<and> seg_end p \<le> hi))"

lemma scan_segments_spec:
  "scan_segments f ps lo hi l t = Inr (lo', hi', l') \<Longrightarrow> bounds_ok lo hi \<Longrightarrow>
   bounds_ok lo' hi' \<and> lo' \<le> lo \<and> hi \<le> hi' \<and> segments_within f lo' hi' ps"
proof (induction f ps lo hi l t rule: scan_segments.induct)
  case (2 f p ps lo hi l t)
  let ?t = "if p_type p = PT_INTERP then t + 1 else t"
  consider "p_type p \<noteq> PT_LOAD" "scan_segments f ps lo hi l ?t = Inr (lo', hi', l')"
    | "p_type p = PT_LOAD" "\<not> bad_load f p" "p_memsz p = 0" "scan_segments f ps lo hi (l + 1) ?t = Inr (lo', hi', l')"
    | "p_type p = PT_LOAD" "\<not> bad_load f p" "p_memsz p \<noteq> 0"
      "scan_segments f ps (min lo (unat (page_round_down (p_vaddr p)))) (max hi (seg_end p)) (l + 1) ?t = Inr (lo', hi', l')"
    using 2(4) by (auto simp: Let_def split: if_splits)
  then show ?case
  proof cases
    case 1
    then show ?thesis using 2(1) [OF refl] 2(4,5) by (auto simp: segments_within_def is_mapped_segment_def Let_def split: if_splits)
  next
    case 2
    then show ?thesis using "2.IH"(2) [OF refl] "2.prems" by (auto simp: segments_within_def is_mapped_segment_def Let_def split: if_splits)
  next
    case 3
    then show ?thesis using "2.IH"(3) [OF refl] "2.prems" bounds_ok_step [of lo hi p]
      by (auto simp: segments_within_def is_mapped_segment_def unat_page_round_down Let_def split: if_splits)
  qed
qed (auto simp: segments_within_def)

lemma place_image_spec:
  assumes "place_image ty lo (hi - lo) lim m = Inr bias" "4096 dvd lo" "lo < hi" "hi < 4294967296"
  shows "4096 dvd unat bias \<and> unat (of_nat lo + bias :: u32) = lo + unat bias \<and> range_free (of_nat lo + bias) (of_nat (hi - lo)) m"
proof -
  have lo: "unat (of_nat lo :: u32) = lo" using assms(3,4) by (intro unat_eq_of_nat) simp
  have sp: "unat (of_nat (hi - lo) :: u64) = hi - lo" using assms(4) by (intro unat_eq_of_nat) simp
  show ?thesis
  proof (cases "ty = ET_DYN")
    case True
    let ?at = "find_free (of_nat (hi - lo)) lim m"
    have a: "?at \<noteq> 0" "lo \<le> unat ?at" "bias = ?at - of_nat lo"
      using assms(1) True by (auto simp: place_image_def Let_def split: if_splits)
    have fr: "free_candidate (of_nat (hi - lo)) lim m ?at"
      using find_free_spec [of "of_nat (hi - lo)" lim m] a(1) assms(3,4) sp by simp
    have b: "unat bias = unat ?at - lo" using a(2,3) lo by (simp add: unat_sub word_le_nat_alt)
    have "of_nat lo + bias = ?at" using a(3) by simp
    then show ?thesis using fr b a(2) assms(2) by (auto simp: free_candidate_def dvd_diff_nat)
  qed (use assms(1) lo in \<open>auto simp: place_image_def split: if_splits\<close>)
qed

lemma page_before_end: "j < (x + 4095) div 4096 \<longleftrightarrow> j * 4096 < (x :: nat)"
  using div_less_iff_less_mult [of 4096 "x + 4095" "j + 1"] by (auto simp: less_eq_div_iff_mult_less_eq Suc_le_eq [symmetric])

text \<open>The pages a segment marks are the pages it covers.\<close>

lemma seg_marks_covered:
  assumes "is_mapped_segment p" "unat start = s * 4096" "s * 4096 = lo + unat bias"
    and "lo \<le> unat (p_vaddr p) div 4096 * 4096" "seg_end p \<le> hi" "hi + unat bias < 4294967296" "s \<le> j" "4096 dvd unat bias"
  shows "seg_first start bias p \<le> j - s \<and> j - s < seg_last start bias p \<longleftrightarrow> seg_covers bias j p"
proof -
  let ?v = "unat (p_vaddr p)" and ?b = "unat bias" and ?n = "unat (p_memsz p)"
  have e: "?v + ?n \<le> hi" using assms(5) dividend_less_times_div [of 4096 "?v + ?n + 4095"] unfolding seg_end_eq by simp
  have vb: "unat (p_vaddr p + bias) = ?v + ?b" using e assms(6) by (simp add: unat_word_ariths)
  obtain q where q: "?b = q * 4096" using assms(8) by (auto simp: dvd_def mult.commute)
  have lo: "s * 4096 \<le> (?v + ?b) div 4096 * 4096" using assms(3,4) unfolding q by simp
  then have s: "s \<le> (?v + ?b) div 4096" by simp
  have f: "seg_first start bias p = (?v + ?b) div 4096 - s"
  proof -
    have "start \<le> page_round_down (p_vaddr p + bias)" using lo assms(2) vb by (simp add: word_le_nat_alt unat_page_round_down)
    then have "unat (page_round_down (p_vaddr p + bias) - start) = (?v + ?b) div 4096 * 4096 - s * 4096"
      using assms(2) vb by (simp add: unat_sub unat_page_round_down)
    also have "\<dots> = ((?v + ?b) div 4096 - s) * 4096" by (simp add: diff_mult_distrib)
    finally show ?thesis by (simp add: seg_first_def)
  qed
  have l: "seg_last start bias p = (?v + ?b + ?n + 4095) div 4096 - s"
  proof -
    let ?w = "ucast (p_vaddr p) + ucast bias + ucast (p_memsz p) :: u64"
    have w: "unat ?w = ?v + ?b + ?n" by (rule unat_seg_sum)
    have r: "unat (page_round_up ?w) = (?v + ?b + ?n + 4095) div 4096 * 4096"
      using e assms(6) w by (subst page_round_up_no_wrap) simp_all
    have "(?v + ?b) div 4096 * 4096 \<le> (?v + ?b + ?n + 4095) div 4096 * 4096" by (intro mult_le_mono1 div_le_mono) simp
    then have "s * 4096 \<le> (?v + ?b + ?n + 4095) div 4096 * 4096" using lo by linarith
    then have "(ucast start :: u64) \<le> page_round_up ?w" using r assms(2) by (simp add: word_le_nat_alt word_nat)
    then have "unat (page_round_up ?w - ucast start) = (?v + ?b + ?n + 4095) div 4096 * 4096 - s * 4096"
      using r assms(2) by (simp add: unat_sub word_nat)
    also have "\<dots> = ((?v + ?b + ?n + 4095) div 4096 - s) * 4096" by (simp add: diff_mult_distrib)
    finally show ?thesis by (simp add: seg_last_def)
  qed
  have "j - s < (?v + ?b + ?n + 4095) div 4096 - s \<longleftrightarrow> j < (?v + ?b + ?n + 4095) div 4096" using assms(7) by linarith
  moreover have "(?v + ?b) div 4096 - s \<le> j - s \<longleftrightarrow> (?v + ?b) div 4096 \<le> j" using assms(7) s by linarith
  ultimately show ?thesis unfolding f l seg_covers_def using assms(1) page_before_end [of j "?v + ?b + ?n"] by simp
qed

lemma file_covers_range:
  assumes "file_covers bias a p" "p_filesz p \<le> p_memsz p" "lo \<le> unat (p_vaddr p) div 4096 * 4096" "seg_end p \<le> hi"
  shows "lo + unat bias \<le> a \<and> a < hi + unat bias"
proof -
  have "unat (p_filesz p) \<le> unat (p_memsz p)" using assms(2) by (simp add: word_le_nat_alt)
  moreover have "unat (p_vaddr p) + unat (p_memsz p) \<le> hi"
    using assms(4) dividend_less_times_div [of 4096 "unat (p_vaddr p) + unat (p_memsz p) + 4095"] unfolding seg_end_eq by simp
  moreover have "unat (p_vaddr p) div 4096 * 4096 \<le> unat (p_vaddr p)" by simp
  ultimately show ?thesis using assms(1,3) unfolding file_covers_def by linarith
qed

subsection \<open>The effect of the installation\<close>

text \<open>The image is placed on free pages: \<open>s\<close> is its first page, \<open>n\<close> the number of pages.\<close>

definition placed :: "u8 list \<Rightarrow> elf32_phdr list \<Rightarrow> nat \<Rightarrow> nat \<Rightarrow> u32 \<Rightarrow> nat \<Rightarrow> nat \<Rightarrow> guest_memory \<Rightarrow> bool" where
  "placed f ps lo hi bias s n m \<longleftrightarrow> s * 4096 = lo + unat bias \<and> hi - lo = n * 4096 \<and> lo < hi \<and> hi + unat bias < 4294967296 \<and>
     4096 dvd unat bias \<and> unat (of_nat lo + bias :: u32) = s * 4096 \<and> segments_within f lo hi ps \<and>
     (\<forall>j. s \<le> j \<and> j < s + n \<longrightarrow> pages m j = 0)"

lemma placed_range:
  assumes "placed f ps lo hi bias s n m"
  shows "0 < n" "(s + n) * 4096 \<le> 4294967296" "hi + unat bias = (s + n) * 4096"
    "unat (page_round_up (of_nat (hi - lo))) = n * 4096"
    "touches (of_nat lo + bias) (page_round_up (of_nat (hi - lo))) j \<longleftrightarrow> s \<le> j \<and> j < s + n"
proof -
  show e: "hi + unat bias = (s + n) * 4096" and n: "0 < n" using assms by (auto simp: placed_def algebra_simps)
  show b: "(s + n) * 4096 \<le> 4294967296" using assms e by (simp add: placed_def)
  have "(s + 0 + n) * 4096 \<le> 4294967296" using b by simp
  from page_range_unat [OF _ this n, of "of_nat lo + bias"] assms
  show "unat (page_round_up (of_nat (hi - lo))) = n * 4096"
    "touches (of_nat lo + bias) (page_round_up (of_nat (hi - lo))) j \<longleftrightarrow> s \<le> j \<and> j < s + n"
    by (simp_all add: placed_def del: of_nat_mult of_nat_diff)
qed

lemma install_effect:
  assumes "placed f ps lo hi bias s n m" "kernel_bounded K" "map_anon K (of_nat lo + bias) (of_nat (hi - lo)) prot m = (True, m1)"
    and "protect_runs K (of_nat lo + bias) (page_prots (of_nat lo + bias) bias n ps) 0 (copy_segments f bias ps m1) = (ok, m2)"
  shows "\<not> (s \<le> j \<and> j < s + n) \<Longrightarrow> pages m2 j = pages m j \<and> (\<forall>a. a div 4096 = j \<longrightarrow> bytes m2 a = bytes m a)"
    "ok \<Longrightarrow> s \<le> j \<Longrightarrow> j < s + n \<Longrightarrow> pages m2 j = image_flags ps bias j \<and>
      (image_flags ps bias j \<noteq> 0 \<longrightarrow> (\<forall>a. a div 4096 = j \<longrightarrow> bytes m2 a = image_byte f ps bias a))"
proof -
  let ?start = "of_nat lo + bias :: u32" and ?pp = "page_prots (of_nat lo + bias) bias n ps"
  note pr = placed_range [OF assms(1)]
  have st: "unat ?start = s * 4096" "s * 4096 = lo + unat bias" "hi + unat bias < 4294967296" "4096 dvd unat bias"
    using assms(1) by (simp_all add: placed_def)
  have sw: "(p_type p = PT_LOAD \<longrightarrow> \<not> bad_load f p) \<and> (is_mapped_segment p \<longrightarrow> lo \<le> unat (p_vaddr p) div 4096 * 4096 \<and> seg_end p \<le> hi)"
    if "p \<in> set ps" for p using that assms(1) by (simp add: placed_def segments_within_def)
  note ma = map_anon_trueD(4,5) [OF assms(3,2)]
  have m1: "pages m1 j = (if s \<le> j \<and> j < s + n then flags_from_prot prot else pages m j)" for j
    unfolding ma(1) pr(5) ..
  have m1b: "bytes m1 a = (if s * 4096 \<le> a \<and> a < (s + n) * 4096 then 0 else bytes m a)" for a
    unfolding ma(2) pr(4) st(1) add_mult_distrib ..
  have copied: "is_mapped_segment p" "p_filesz p \<le> p_memsz p" "unat (p_offset p) + unat (p_filesz p) \<le> length f"
    if "p \<in> set ps" "is_copied p" for p
    using that sw [OF that(1)] by (auto simp: is_copied_def is_mapped_segment_def bad_load_def not_less)
  have nocov: "\<not> file_covers bias a p" if "p \<in> set ps" "\<not> (s * 4096 \<le> a \<and> a < (s + n) * 4096)" for a p
  proof
    assume f: "file_covers bias a p"
    then have "is_copied p" by (simp add: file_covers_def)
    then have m: "is_mapped_segment p" "p_filesz p \<le> p_memsz p" using copied [OF that(1)] by auto
    have "lo + unat bias \<le> a \<and> a < hi + unat bias"
      using sw [OF that(1)] m(1) by (intro file_covers_range [OF f m(2)]) auto
    then show False using that(2) unfolding st(2) [symmetric] pr(3) by blast
  qed
  have "(s + length ?pp) * 4096 \<le> 4294967296" using pr(2) by simp
  note runs = protect_runs_spec [OF st(1) this assms(4), of j, simplified]
  show "pages m2 j = pages m j \<and> (\<forall>a. a div 4096 = j \<longrightarrow> bytes m2 a = bytes m a)" if "\<not> (s \<le> j \<and> j < s + n)"
  proof -
    have "\<not> (s * 4096 \<le> a \<and> a < (s + n) * 4096)" if "a div 4096 = j" for a
      using that \<open>\<not> (s \<le> j \<and> j < s + n)\<close> by (auto simp: less_eq_div_iff_mult_less_eq div_less_iff_less_mult)
    then have "bytes (copy_segments f bias ps m1) a = bytes m a" if "a div 4096 = j" for a
      using that copy_segments_outside [of ps bias a f m1] nocov m1b [of a] by auto
    then show ?thesis using runs that m1 [of j] by auto
  qed
  show "pages m2 j = image_flags ps bias j \<and> (image_flags ps bias j \<noteq> 0 \<longrightarrow> (\<forall>a. a div 4096 = j \<longrightarrow> bytes m2 a = image_byte f ps bias a))"
    if "ok" "s \<le> j" "j < s + n"
  proof -
    have "(is_mapped_segment p \<and> seg_first ?start bias p \<le> j - s \<and> j - s < seg_last ?start bias p) \<longleftrightarrow> seg_covers bias j p" if "p \<in> set ps" for p
      using seg_marks_covered [OF _ st(1,2) _ _ st(3) \<open>s \<le> j\<close> st(4)] sw [OF that] by (auto simp: seg_covers_def)
    note cov = this
    have "j - s < n" using that(2,3) by simp
    then have fl: "prot_flags (?pp ! (j - s)) = image_flags ps bias j"
      unfolding page_prots_nth [OF \<open>j - s < n\<close>] by (intro prot_flags_union cov)
    have "bytes (copy_segments f bias ps m1) a = image_byte f ps bias a" if "a div 4096 = j" for a
    proof (rule copy_segments_bytes)
      have "s * 4096 \<le> a \<and> a < (s + n) * 4096" using that \<open>s \<le> j\<close> \<open>j < s + n\<close>
        by (auto simp: less_eq_div_iff_mult_less_eq [symmetric] div_less_iff_less_mult [symmetric])
      then show "bytes m1 a = 0" unfolding m1b by simp
    qed (use copied(3) in blast)
    moreover have "?pp ! (j - s) \<noteq> None" if "image_flags ps bias j \<noteq> 0" using fl that by (cases "?pp ! (j - s)") (auto simp: prot_flags_def)
    ultimately show ?thesis using runs that fl by auto
  qed
qed

lemma placed_load:
  assumes "scan_segments f ps 18446744073709551615 0 0 0 = Inr (lo, hi, k)" "0 < hi" "hi < 4294967296"
    and "place_image ty lo (hi - lo) lim m = Inr bias" "hi + unat bias < 4294967296"
  shows "placed f ps lo hi bias ((lo + unat bias) div 4096) ((hi - lo) div 4096) m"
proof -
  have s: "bounds_ok lo hi" "segments_within f lo hi ps"
    using scan_segments_spec [OF assms(1)] by (simp_all add: bounds_ok_def)
  then have d: "4096 dvd lo" "4096 dvd hi" "lo < hi" using assms(2) by (auto simp: bounds_ok_def)
  note pl = place_image_spec [OF assms(4) d(1,3) assms(3)]
  obtain a b c where q: "lo = a * 4096" "hi = b * 4096" "unat bias = c * 4096" using d pl by (auto simp: dvd_def mult.commute)
  have n: "hi - lo = (b - a) * 4096" "lo + unat bias = (a + c) * 4096" unfolding q by (simp_all add: diff_mult_distrib add_mult_distrib)
  then have e: "(hi - lo) div 4096 = b - a" "(lo + unat bias) div 4096 = a + c" by simp_all
  have "unat (of_nat (hi - lo) :: u64) = hi - lo" using assms(3) by (intro unat_eq_of_nat) simp
  then have sz: "unat (of_nat (hi - lo) :: u64) \<le> 2 ^ 33" and rd: "unat (page_round_up (of_nat (hi - lo))) = (b - a) * 4096"
    using assms(3) n(1) by (simp, subst page_round_up_no_wrap) simp_all
  have "range_free (of_nat lo + bias) (of_nat (hi - lo)) m" "unat (of_nat lo + bias :: u32) = (a + c) * 4096" using pl n(2) by simp_all
  note rf = this(1) [unfolded range_free_iff [OF sz] Let_def] and t = touches_page_range [OF this(2) rd]
  have "pages m j = 0" if "a + c \<le> j" "j < a + c + (b - a)" for j
  proof -
    have "touches (of_nat lo + bias) (page_round_up (of_nat (hi - lo))) j" unfolding t using that by blast
    then show ?thesis using rf by blast
  qed
  then show ?thesis unfolding placed_def e using n d pl s(2) assms(5) by simp
qed

text \<open>The program headers of a file.\<close>

definition program_headers :: "u8 list \<Rightarrow> elf32_phdr list" where
  "program_headers f = (let eh = ehdr_of (take 52 f) in phdr_table f (unat (e_phoff eh)) (unat (e_phnum eh)))"

text \<open>The load either stops before it touches memory, or installs an image that is placed.\<close>

lemma load_elf_cases:
  assumes "load_elf K (Some f) ok lim m = (res, m')"
  obtains e where "res = Inl e" "m' = m"
    | lo hi bias where "hi + unat bias < 4294967296"
      "placed f (program_headers f) lo hi bias ((lo + unat bias) div 4096) ((hi - lo) div 4096) m"
      "install_image K f (ehdr_of (take 52 f)) (program_headers f) lo hi bias m = (res, m')"
proof -
  let ?eh = "ehdr_of (take 52 f)"
  show ?thesis
  proof (cases "\<exists>e. res = Inl e \<and> m' = m")
    case False
    then have "\<exists>lo hi k bias. scan_segments f (program_headers f) 18446744073709551615 0 0 0 = Inr (lo, hi, k) \<and> 0 < hi \<and> hi < 4294967296 \<and>
        place_image (e_type ?eh) lo (hi - lo) lim m = Inr bias \<and> install_image K f ?eh (program_headers f) lo hi bias m = (res, m')"
      using assms by (auto simp: load_elf_def program_headers_def Let_def not_less split: if_splits sum.splits)
    then obtain lo hi k bias where h: "scan_segments f (program_headers f) 18446744073709551615 0 0 0 = Inr (lo, hi, k)" "0 < hi"
      "hi < 4294967296" "place_image (e_type ?eh) lo (hi - lo) lim m = Inr bias"
      "install_image K f ?eh (program_headers f) lo hi bias m = (res, m')" by blast
    have "hi + unat bias < 4294967296"
      using h(5) False by (auto simp: install_image_def Let_def not_le split: if_splits)
    then show ?thesis using that(2) placed_load [OF h(1-4)] h(5) by blast
  qed (use that in blast)
qed

lemma unmap_image_outside:
  assumes "placed f ps lo hi bias s n m" "\<not> (s \<le> j \<and> j < s + n)"
  shows "pages (snd (unmap K (of_nat lo + bias) (of_nat (hi - lo)) m2)) j = pages m2 j"
    "a div 4096 = j \<Longrightarrow> bytes (snd (unmap K (of_nat lo + bias) (of_nat (hi - lo)) m2)) a = bytes m2 a"
proof -
  note pr = placed_range [OF assms(1)]
  have "(s + 0 + n) * 4096 \<le> 4294967296" "unat (of_nat lo + bias :: u32) = s * 4096" "hi - lo = n * 4096"
    using pr(2) assms(1) by (simp_all add: placed_def)
  note o = page_ops_outside [where i = 0 and op = "unmap K (of_nat lo + bias) (of_nat (hi - lo))" and m = m2 and j = j and prot = 0 and K = K,
      OF this(2,1) pr(1) _ surjective_pairing]
  show "pages (snd (unmap K (of_nat lo + bias) (of_nat (hi - lo)) m2)) j = pages m2 j"
    "a div 4096 = j \<Longrightarrow> bytes (snd (unmap K (of_nat lo + bias) (of_nat (hi - lo)) m2)) a = bytes m2 a"
    using o assms(2) \<open>hi - lo = n * 4096\<close> by (auto simp del: of_nat_mult of_nat_diff)
qed

section \<open>Loading is correct\<close>

definition image_loaded :: "u8 list \<Rightarrow> elf32_phdr list \<Rightarrow> loaded_elf \<Rightarrow> guest_memory \<Rightarrow> guest_memory \<Rightarrow> bool" where
  "image_loaded f ps r m m' \<longleftrightarrow>
     (let s = unat (le_load_start r) div 4096; e = unat (le_load_end r) div 4096
      in (\<forall>j. if s \<le> j \<and> j < e
              then pages m j = 0 \<and> pages m' j = image_flags ps (le_bias r) j \<and>
                (image_flags ps (le_bias r) j \<noteq> 0 \<longrightarrow> (\<forall>a. a div 4096 = j \<longrightarrow> bytes m' a = image_byte f ps (le_bias r) a))
              else pages m' j = pages m j \<and> (\<forall>a. a div 4096 = j \<longrightarrow> bytes m' a = bytes m a)))"

lemma install_image_success:
  assumes "install_image K f eh ps lo hi bias m = (Inr r, m')"
  obtains m1 where "map_anon K (of_nat lo + bias) (of_nat (hi - lo)) (PROT_READ OR PROT_WRITE) m = (True, m1)"
    "protect_runs K (of_nat lo + bias) (page_prots (of_nat lo + bias) bias ((hi - lo) div 4096) ps) 0 (copy_segments f bias ps m1) = (True, m')"
    "le_bias r = bias" "le_load_start r = of_nat lo + bias" "le_load_end r = of_nat (hi + unat bias)"
    "le_entry r = of_nat (unat (e_entry eh AND NOT 1) + unat bias) OR (e_entry eh AND 1)"
    "list_ex (entry_in_load (e_entry eh AND NOT 1)) ps" "unat (e_entry eh AND NOT 1) + unat bias < 4294967296"
    "accessible (le_phdr r) (of_nat (unat (e_phnum eh) * 32)) kPageRead m'"
  using assms that unfolding install_image_def Let_def by (auto simp: not_le split: if_splits prod.splits)

text \<open>The entry point lies on a page of the image that is executable.\<close>

lemma entry_page_executes:
  assumes "placed f ps lo hi bias s n m" "p \<in> set ps" "entry_in_load e p"
  shows "image_flags ps bias ((unat e + unat bias) div 4096) AND kPageExec \<noteq> 0"
    "s \<le> (unat e + unat bias) div 4096 \<and> (unat e + unat bias) div 4096 < s + n"
proof -
  let ?j = "(unat e + unat bias) div 4096"
  have e: "p_type p = PT_LOAD" "p_flags p AND PF_X \<noteq> 0" "unat (p_vaddr p) \<le> unat e" "unat e < unat (p_vaddr p) + unat (p_memsz p)"
    using assms(3) by (simp_all add: entry_in_load_def word_le_nat_alt)
  then have mp: "is_mapped_segment p" by (auto simp: is_mapped_segment_def)
  have "?j * 4096 \<le> unat e + unat bias" by simp
  moreover have "(unat (p_vaddr p) + unat bias) div 4096 \<le> ?j" using e(3) by (intro div_le_mono) simp
  ultimately have c: "seg_covers bias ?j p" unfolding seg_covers_def using mp e(4) by linarith
  then have "page_wants ps bias ?j PF_X" "list_ex (seg_covers bias ?j) ps"
    using assms(2) e(2) by (auto simp: page_wants_def list_ex_iff)
  then show "image_flags ps bias ?j AND kPageExec \<noteq> 0" by (simp add: image_flags_def page_flag_defs)
  have sw: "lo \<le> unat (p_vaddr p) div 4096 * 4096" "seg_end p \<le> hi" "s * 4096 = lo + unat bias"
    using assms(1,2) mp by (auto simp: placed_def segments_within_def)
  have "unat (p_vaddr p) div 4096 * 4096 \<le> unat (p_vaddr p)" by simp
  then have "s * 4096 \<le> unat e + unat bias" using sw e(3) by linarith
  moreover have "unat e + unat bias < (s + n) * 4096"
    using sw(2) e(4) dividend_less_times_div [of 4096 "unat (p_vaddr p) + unat (p_memsz p) + 4095"] placed_range(3) [OF assms(1)]
    unfolding seg_end_eq by simp
  ultimately show "s \<le> ?j \<and> ?j < s + n" by (simp add: less_eq_div_iff_mult_less_eq div_less_iff_less_mult)
qed

lemma page_of_thumb_bit: "drop_bit 12 ((x :: u32) OR (y AND 1)) = drop_bit 12 x"
  by (rule bit_word_eqI) (auto simp: bit_simps)

text \<open>
  C10: Loading a program installs exactly its image.  When \<open>load_elf\<close> succeeds, all pages of the
  load range were free; each of them now has exactly the permissions its segments ask for (the union
  where segments share a page) and is unmapped where no segment lies; every byte on a mapped page is the file byte its
  segment puts there, or zero; and no page or byte outside the range has changed.  The program
  headers are readable at the address handed to the program, and the page of the entry point is
  executable.
\<close>

theorem load_elf_image:
  assumes "kernel_bounded K" and "load_elf K (Some f) ok lim m = (Inr r, m')"
  shows "image_loaded f (program_headers f) r m m' \<and>
    accessible (le_phdr r) (of_nat (unat (e_phnum (ehdr_of (take 52 f))) * 32)) kPageRead m' \<and>
    page_flags m' (le_entry r) AND kPageExec \<noteq> 0"
  using assms(2)
proof (cases rule: load_elf_cases)
  case (2 lo hi bias)
  let ?s = "(lo + unat bias) div 4096" and ?n = "(hi - lo) div 4096"
  from 2(3) obtain m1 where i: "map_anon K (of_nat lo + bias) (of_nat (hi - lo)) (PROT_READ OR PROT_WRITE) m = (True, m1)"
    "protect_runs K (of_nat lo + bias) (page_prots (of_nat lo + bias) bias ?n (program_headers f)) 0 (copy_segments f bias (program_headers f) m1) = (True, m')"
    "le_bias r = bias" "le_load_start r = of_nat lo + bias" "le_load_end r = of_nat (hi + unat bias)"
    "accessible (le_phdr r) (of_nat (unat (e_phnum (ehdr_of (take 52 f))) * 32)) kPageRead m'"
    and en: "le_entry r = of_nat (unat (e_entry (ehdr_of (take 52 f)) AND NOT 1) + unat bias) OR (e_entry (ehdr_of (take 52 f)) AND 1)"
    "list_ex (entry_in_load (e_entry (ehdr_of (take 52 f)) AND NOT 1)) (program_headers f)"
    "unat (e_entry (ehdr_of (take 52 f)) AND NOT 1) + unat bias < 4294967296"
    by (rule install_image_success)
  note eff = install_effect [OF 2(2) assms(1) i(1,2)]
  have "unat (le_load_start r) div 4096 = ?s" using 2(2) unfolding i(4) by (simp add: placed_def)
  moreover have "unat (le_load_end r) div 4096 = ?s + ?n"
  proof -
    have "unat (le_load_end r) = (?s + ?n) * 4096" unfolding i(5) placed_range(3) [OF 2(2), symmetric] using 2(1) by (intro unat_eq_of_nat) simp
    then show ?thesis by simp
  qed
  ultimately have img: "image_loaded f (program_headers f) r m m'" unfolding image_loaded_def Let_def using eff i(3) 2(2) by (auto simp: placed_def)
  have "page_flags m' (le_entry r) AND kPageExec \<noteq> 0"
  proof -
    let ?e = "e_entry (ehdr_of (take 52 f)) AND NOT 1"
    obtain p where p: "p \<in> set (program_headers f)" "entry_in_load ?e p" using en(2) by (auto simp: list_ex_iff)
    have "unat (of_nat (unat ?e + unat bias) :: u32) = unat ?e + unat bias" using en(3) by (intro unat_eq_of_nat) simp
    then have "page_flags m' (le_entry r) = pages m' ((unat ?e + unat bias) div 4096)"
      unfolding page_flags_def en(1) page_of_thumb_bit by (simp add: unat_drop_bit del: of_nat_add)
    then show ?thesis using eff(2) [OF TrueI, of "(unat ?e + unat bias) div 4096"] entry_page_executes [OF 2(2) p] by auto
  qed
  then show ?thesis using img i(6) by blast
qed simp

text \<open>
  C40: Loading disturbs nothing that is mapped.  Whether \<open>load_elf\<close> succeeds or fails, and wherever it
  fails, a page that was mapped before keeps its flags and its bytes.
\<close>

theorem load_elf_preserves_mappings:
  assumes "kernel_bounded K" and "load_elf K fl ok lim m = (res, m')" and "pages m j \<noteq> 0" and "a div 4096 = j"
  shows "pages m' j = pages m j \<and> bytes m' a = bytes m a"
proof (cases fl)
  case (Some f)
  from assms(2) [unfolded Some] show ?thesis
  proof (cases rule: load_elf_cases)
    case (2 lo hi bias)
    let ?s = "(lo + unat bias) div 4096" and ?n = "(hi - lo) div 4096" and ?ps = "program_headers f"
    have out: "\<not> (?s \<le> j \<and> j < ?s + ?n)" using 2(2) assms(3) by (auto simp: placed_def)
    obtain ok1 m1 where m1: "map_anon K (of_nat lo + bias) (of_nat (hi - lo)) (PROT_READ OR PROT_WRITE) m = (ok1, m1)" by fastforce
    show ?thesis
    proof (cases ok1)
      case False
      then have "pages m1 = pages m" "bytes m1 = bytes m" using m1 by (auto simp: map_anon_def Let_def split: if_splits)
      then show ?thesis using 2(3) m1 False by (auto simp: install_image_def Let_def split: if_splits)
    next
      case True
      have m1': "map_anon K (of_nat lo + bias) (of_nat (hi - lo)) (PROT_READ OR PROT_WRITE) m = (True, m1)" using m1 True by simp
      obtain ok2 m2 where m2: "protect_runs K (of_nat lo + bias) (page_prots (of_nat lo + bias) bias ?n ?ps) 0 (copy_segments f bias ?ps m1) = (ok2, m2)" by fastforce
      have "pages m2 j = pages m j" "bytes m2 a = bytes m a"
        using install_effect(1) [OF 2(2) assms(1) m1' m2 out] assms(4) by auto
      moreover have "m' = m \<or> m' = m2 \<or> m' = snd (unmap K (of_nat lo + bias) (of_nat (hi - lo)) m2)"
        using 2(3) m1 m2 True by (auto simp: install_image_def Let_def simp del: of_nat_diff split: if_splits)
      ultimately show ?thesis using unmap_image_outside [OF 2(2) out] assms(4) by auto
    qed
  qed simp
qed (use assms(2) in \<open>simp add: load_elf_def\<close>)


text \<open>A program with one segment of 84 bytes, its headers, at \<open>0x10000\<close>.\<close>

definition tiny_elf :: "u8 list" where
  "tiny_elf =
     ELFMAG @ [1, 1, 1] @ replicate 9 0 @ le16 2 @ le16 40 @ le32 1 @ le32 0x10000 @ le32 52 @ le32 0 @ le32 0 @
     le16 52 @ le16 32 @ le16 1 @ le16 0 @ le16 0 @ le16 0 @
     le32 PT_LOAD @ le32 0 @ le32 0x10000 @ le32 0 @ le32 84 @ le32 84 @ le32 5 @ le32 4096"

lemma tiny_headers:
  "length tiny_elf = 84" "valid_load_header (ehdr_of (take 52 tiny_elf))" "e_type (ehdr_of (take 52 tiny_elf)) = ET_EXEC"
  "e_phnum (ehdr_of (take 52 tiny_elf)) = 1" "e_phentsize (ehdr_of (take 52 tiny_elf)) = 32" "e_phoff (ehdr_of (take 52 tiny_elf)) = 52"
  "e_entry (ehdr_of (take 52 tiny_elf)) = 0x10000"
  by code_simp+

lemma tiny_fields:
  "length (phdr_table tiny_elf 52 1) = 1" "p_type (hd (phdr_table tiny_elf 52 1)) = PT_LOAD" "p_offset (hd (phdr_table tiny_elf 52 1)) = 0"
  "p_vaddr (hd (phdr_table tiny_elf 52 1)) = 0x10000" "p_filesz (hd (phdr_table tiny_elf 52 1)) = 84"
  "p_memsz (hd (phdr_table tiny_elf 52 1)) = 84" "p_flags (hd (phdr_table tiny_elf 52 1)) = 5" "p_align (hd (phdr_table tiny_elf 52 1)) = 4096"
  by code_simp+

lemma tiny_phdrs:
  "phdr_table tiny_elf 52 1 = [\<lparr>p_type = PT_LOAD, p_offset = 0, p_vaddr = 0x10000, p_filesz = 84, p_memsz = 84, p_flags = 5, p_align = 4096\<rparr>]"
proof -
  obtain p where p: "phdr_table tiny_elf 52 1 = [p]" using tiny_fields(1) by (cases "phdr_table tiny_elf 52 1") auto
  then show ?thesis using tiny_fields(2-8) by (cases p) simp
qed

lemma tiny_scan: "scan_segments tiny_elf (phdr_table tiny_elf 52 1) 18446744073709551615 0 0 0 = Inr (0x10000, 0x11000, 1)"
  unfolding tiny_phdrs by (simp add: PT_LOAD_def PT_INTERP_def bad_load_def tiny_headers(1) seg_end_eq unat_page_round_down)

lemma tiny_prots: "page_prots 0x10000 0 1 (phdr_table tiny_elf 52 1) = [Some 5]"
  unfolding tiny_phdrs by code_simp

lemma tiny_phdr_address: "phdr_address (ehdr_of (take 52 tiny_elf)) (phdr_table tiny_elf 52 1) 0 = 0x10034"
  unfolding tiny_phdrs by (simp add: phdr_address_def tiny_headers PT_LOAD_def PT_PHDR_def word_le_nat_alt)

lemma tiny_entry: "list_ex (entry_in_load 0x10000) (phdr_table tiny_elf 52 1)"
  unfolding tiny_phdrs by (simp add: entry_in_load_def PF_X_def)


lemma tiny_free: "range_free 0x10000 4096 (new_guest_memory True)"
  by (simp add: range_free_def mem_eval)

lemma tiny_loads: "\<exists>r m'. load_elf accept_all (Some tiny_elf) True 0xFE000000 (new_guest_memory True) = (Inr r, m')"
proof -
  let ?m0 = "new_guest_memory True" and ?ps = "phdr_table tiny_elf 52 1" and ?eh = "ehdr_of (take 52 tiny_elf)"
  obtain m1 where m1: "map_anon accept_all 0x10000 4096 (PROT_READ OR PROT_WRITE) ?m0 = (True, m1)"
    by (simp add: mem_eval)
  have mo: "mem_ok (copy_segments tiny_elf 0 ?ps m1)" and pg: "pages (copy_segments tiny_elf 0 ?ps m1) 16 AND kPageMapped = kPageMapped"
    using m1 unfolding copy_segments_pages unfolding tiny_phdrs
    by (auto simp: mem_eval copy_segments_def copy_segment_def store_bytes_def PROT_READ_def PROT_WRITE_def)
  let ?mc = "copy_segments tiny_elf 0 ?ps m1"
  obtain m2 where p: "protect accept_all 0x10000 4096 5 ?mc = (True, m2)" "pages m2 16 = 13"
    using mo pg by (simp add: mem_eval)
  have runs: "protect_runs accept_all 0x10000 [Some 5] 0 ?mc = (True, m2)"
    using p(1) by (simp add: protect_runs.simps same_prot_end.simps)
  have acc: "accessible 0x10034 32 kPageRead m2" using p(2) by (simp add: mem_eval)
  have inst: "\<exists>r. install_image accept_all tiny_elf ?eh ?ps 0x10000 0x11000 0 ?m0 = (Inr r, m2)"
    using m1 runs acc tiny_entry by (simp add: install_image_def tiny_headers tiny_prots [unfolded One_nat_def] tiny_phdr_address [unfolded One_nat_def] Let_def)
  have ev: "valid_load_header ?eh" "e_type ?eh = ET_EXEC" "e_phnum ?eh = 1" "e_phentsize ?eh = 32" "e_phoff ?eh = 52" "length tiny_elf = 84"
    using tiny_headers by simp_all
  have pl: "place_image ET_EXEC 0x10000 0x1000 0xFE000000 ?m0 = Inr 0" using tiny_free by (simp add: place_image_def ET_EXEC_def ET_DYN_def)
  show ?thesis using inst tiny_scan pl
    by (simp add: load_elf_def ev kMaxFileSize_def Let_def) blast
qed

theorem load_elf_image_witness:
  "\<exists>r m'. load_elf accept_all (Some tiny_elf) True 0xFE000000 (new_guest_memory True) = (Inr r, m') \<and>
     image_loaded tiny_elf (program_headers tiny_elf) r (new_guest_memory True) m'"
proof -
  obtain r m' where l: "load_elf accept_all (Some tiny_elf) True 0xFE000000 (new_guest_memory True) = (Inr r, m')"
    using tiny_loads by blast
  then show ?thesis using load_elf_image [OF accept_all_bounded l] by blast
qed

theorem load_elf_preserves_mappings_witness:
  "pages (snd (load_elf accept_all (Some tiny_elf) True 0xFE000000 mem_w)) 16 = pages mem_w 16"
proof -
  have "pages mem_w 16 \<noteq> 0" by (simp add: mem_w_def mem_eval)
  then show ?thesis
    using load_elf_preserves_mappings [OF accept_all_bounded surjective_pairing, of mem_w 16 65536] by simp
qed

end
