(* ===== verification/Initial_Stack.thy ===== *)
theory Initial_Stack
  imports Guest_Abi
begin

text \<open>
  The initial stack of a guest process, \<open>core/src/initial_stack.cpp\<close>.  Strings are byte lists; the
  result of \<open>getrandom\<close> is a parameter.

  The result: when the stack is built, the guest finds at its aligned stack pointer the argument
  count, the argument and environment pointers and the auxiliary vector, and behind every pointer
  the string or bytes it stands for; only bytes between the stack pointer and the stack top have
  changed.
\<close>

section \<open>Building the stack\<close>

definition kMaxStackData :: nat where "kMaxStackData = 256 * 1024"
definition AT_NULL :: u32 where "AT_NULL = 0"
definition AT_PLATFORM :: u32 where "AT_PLATFORM = 15"
definition AT_RANDOM :: u32 where "AT_RANDOM = 25"
definition AT_EXECFN :: u32 where "AT_EXECFN = 31"

record stack_state =
  cursor :: u32
  overflow :: bool
  smem :: guest_memory

definition push_bytes :: "u32 \<Rightarrow> u8 list \<Rightarrow> stack_state \<Rightarrow> u32 \<times> stack_state" where
  "push_bytes stack_top bs s =
     (let len = length bs; at = cursor s - of_nat len
      in if len > kMaxStackData \<or> unat (stack_top - cursor s) + len > kMaxStackData \<or>
            \<not> accessible at (of_nat len) kPageWrite (smem s)
         then (0, s\<lparr>overflow := True\<rparr>)
         else (at, s\<lparr>cursor := at, smem := store_bytes (unat at) bs (smem s)\<rparr>))"

definition push_string :: "u32 \<Rightarrow> u8 list \<Rightarrow> stack_state \<Rightarrow> u32 \<times> stack_state" where
  "push_string stack_top str = push_bytes stack_top (str @ [0])"

fun push_strings :: "u32 \<Rightarrow> u8 list list \<Rightarrow> stack_state \<Rightarrow> u32 list \<times> stack_state" where
  "push_strings stack_top [] s = ([], s)"
| "push_strings stack_top (str # strs) s =
     (let (a, s1) = push_string stack_top str s; (as, s2) = push_strings stack_top strs s1 in (a # as, s2))"

definition platform_v8l :: "u8 list" where "platform_v8l = [0x76, 0x38, 0x6C]"

text \<open>The 16 bytes of \<open>AT_RANDOM\<close>: from the host, or the fixed pattern when \<open>getrandom\<close> fails.\<close>

definition random_bytes :: "u8 list option \<Rightarrow> u8 list" where
  "random_bytes r = (case r of
       Some b \<Rightarrow> if length b = 16 then b else map (\<lambda>i. of_nat (i * 37 + 11)) [0..<16]
     | None \<Rightarrow> map (\<lambda>i. of_nat (i * 37 + 11)) [0..<16])"

definition stack_table :: "u32 list \<Rightarrow> u32 list \<Rightarrow> (u32 \<times> u32) list \<Rightarrow> u32 list" where
  "stack_table arg_addrs env_addrs aux =
     of_nat (length arg_addrs) # arg_addrs @ 0 # env_addrs @ 0 # concat (map (\<lambda>(t, v). [t, v]) aux)"

definition full_auxv :: "(u32 \<times> u32) list \<Rightarrow> u32 \<Rightarrow> u32 \<Rightarrow> u32 \<Rightarrow> (u32 \<times> u32) list" where
  "full_auxv auxv random platform execfn =
     auxv @ [(AT_RANDOM, random), (AT_PLATFORM, platform), (AT_EXECFN, execfn), (AT_NULL, 0)]"

text \<open>The strings and the random bytes, in the order they are pushed.\<close>

definition push_all ::
    "u32 \<Rightarrow> u8 list list \<Rightarrow> u8 list list \<Rightarrow> u8 list \<Rightarrow> u8 list \<Rightarrow> stack_state \<Rightarrow> (u32 \<times> u32 \<times> u32 \<times> u32 list \<times> u32 list) \<times> stack_state" where
  "push_all stack_top argv envp execfn rnd s =
     (let (ex, s1) = push_string stack_top execfn s;
          (pl, s2) = push_string stack_top platform_v8l s1;
          (envs, s3) = push_strings stack_top envp s2;
          (args, s4) = push_strings stack_top argv s3;
          (ra, s5) = push_bytes stack_top rnd s4
      in ((ex, pl, ra, args, envs), s5))"

text \<open>The last part of \<open>build_initial_stack\<close>, once everything is pushed: align, check, write the table.\<close>

definition write_table :: "u32 \<Rightarrow> u8 list \<Rightarrow> stack_state \<Rightarrow> u32 \<times> guest_memory" where
  "write_table stack_top table s =
     (if overflow s then (0, smem s)
      else let table_bytes = of_nat (length table) :: u32;
               sp = (cursor s - table_bytes) AND NOT (mask 4)
           in if unat (stack_top - sp) > kMaxStackData \<or> \<not> accessible sp (ucast table_bytes) kPageWrite (smem s)
              then (0, smem s)
              else (sp, store_bytes (unat sp) (take (unat table_bytes) table) (smem s)))"

definition build_initial_stack ::
    "u32 \<Rightarrow> u8 list list \<Rightarrow> u8 list list \<Rightarrow> (u32 \<times> u32) list \<Rightarrow> u8 list \<Rightarrow> u8 list option \<Rightarrow> guest_memory \<Rightarrow> u32 \<times> guest_memory" where
  "build_initial_stack stack_top argv envp auxv execfn rnd m =
     (case push_all stack_top argv envp execfn (random_bytes rnd) \<lparr>cursor = stack_top, overflow = False, smem = m\<rparr> of
        ((ex, pl, ra, args, envs), s) \<Rightarrow>
          write_table stack_top (words_bytes (stack_table args envs (full_auxv auxv ra pl ex))) s)"

section \<open>What the pushes keep\<close>

text \<open>After some pushes: the cursor is below the top by at most the limit, only bytes in between have
  changed, and everything pushed so far (\<open>ws\<close>) is still in place.\<close>

definition pushed :: "u32 \<Rightarrow> guest_memory \<Rightarrow> (u32 \<times> u8 list) set \<Rightarrow> stack_state \<Rightarrow> bool" where
  "pushed stack_top m0 ws s \<longleftrightarrow> cursor s \<le> stack_top \<and> unat stack_top - unat (cursor s) \<le> kMaxStackData \<and>
     pages (smem s) = pages m0 \<and>
     (\<forall>i. bytes (smem s) i \<noteq> bytes m0 i \<longrightarrow> unat (cursor s) \<le> i \<and> i < unat stack_top) \<and>
     (\<forall>(a, bs) \<in> ws. load_bytes (unat a) (length bs) (smem s) = bs \<and> unat (cursor s) \<le> unat a \<and> unat a + length bs \<le> unat stack_top)"

lemma push_bytes_kept:
  assumes "push_bytes stack_top bs s = (a, s')" "\<not> overflow s'" "pushed stack_top m0 ws s" "kMaxStackData \<le> unat stack_top"
  shows "\<not> overflow s \<and> pushed stack_top m0 (insert (a, bs) ws) s' \<and> unat (cursor s') + length bs = unat (cursor s)"
proof -
  have p: "unat (stack_top - cursor s) + length bs \<le> kMaxStackData" "length bs \<le> kMaxStackData" "a = cursor s - of_nat (length bs)"
    "s' = s\<lparr>cursor := a, smem := store_bytes (unat a) bs (smem s)\<rparr>" "\<not> overflow s"
    using assms(1,2) by (auto simp: push_bytes_def Let_def split: if_splits)
  have c: "cursor s \<le> stack_top" using assms(3) by (simp add: pushed_def)
  have d: "unat (stack_top - cursor s) = unat stack_top - unat (cursor s)" "unat (cursor s) \<le> unat stack_top"
    using c by (simp_all add: unat_sub word_le_nat_alt)
  have len: "unat (of_nat (length bs) :: u32) = length bs" using p(2) by (intro unat_eq_of_nat) (simp add: kMaxStackData_def)
  have le: "length bs \<le> unat (cursor s)" using p(1) d assms(4) by simp
  then have a: "unat a = unat (cursor s) - length bs" unfolding p(3) using len by (simp add: unat_sub word_le_nat_alt)
  have ae: "unat a + length bs = unat (cursor s)" using a le by simp
  have old: "load_bytes (unat b) (length xs) (smem s') = xs \<and> unat a \<le> unat b \<and> unat b + length xs \<le> unat stack_top" if "(b, xs) \<in> ws" for b xs
  proof -
    have o: "load_bytes (unat b) (length xs) (smem s) = xs" "unat (cursor s) \<le> unat b" "unat b + length xs \<le> unat stack_top"
      using assms(3) that by (auto simp: pushed_def)
    then have "load_bytes (unat b) (length xs) (smem s') = xs"
      unfolding p(4) using ae by (simp add: load_store_other)
    then show ?thesis using o ae by simp
  qed
  have new: "load_bytes (unat a) (length bs) (smem s') = bs" unfolding p(4) by (simp add: load_store_same)
  have ch: "unat a \<le> i \<and> i < unat stack_top" if "bytes (smem s') i \<noteq> bytes m0 i" for i
  proof (cases "unat a \<le> i \<and> i < unat a + length bs")
    case True
    then show ?thesis using ae d by simp
  next
    case False
    then have "bytes (smem s) i \<noteq> bytes m0 i" using that unfolding p(4) by (auto simp: store_bytes_def)
    then show ?thesis using assms(3) ae by (auto simp: pushed_def)
  qed
  have "a \<le> stack_top" using a d by (simp add: word_le_nat_alt)
  moreover have "unat stack_top - unat a \<le> kMaxStackData" using a le p(1) d by simp
  moreover have "pages (smem s') = pages m0" using assms(3) unfolding p(4) by (simp add: pushed_def)
  moreover have "cursor s' = a" unfolding p(4) by simp
  ultimately show ?thesis unfolding pushed_def using old new ch ae d p(5) by auto
qed

lemma push_string_kept:
  "push_string stack_top str s = (a, s') \<Longrightarrow> \<not> overflow s' \<Longrightarrow> pushed stack_top m0 ws s \<Longrightarrow> kMaxStackData \<le> unat stack_top \<Longrightarrow>
   pushed stack_top m0 (insert (a, str @ [0]) ws) s' \<and> unat (cursor s') < unat (cursor s)"
  using push_bytes_kept [of stack_top "str @ [0]" s a s' m0 ws] by (simp add: push_string_def)

lemma push_overflow: "push_bytes stack_top bs s = (a, s') \<Longrightarrow> \<not> overflow s' \<Longrightarrow> \<not> overflow s"
  by (auto simp: push_bytes_def Let_def split: if_splits)

lemma push_strings_overflow: "push_strings stack_top strs s = (as, s') \<Longrightarrow> \<not> overflow s' \<Longrightarrow> \<not> overflow s"
  by (induction strs arbitrary: s as) (auto simp: push_string_def split: prod.splits dest: push_overflow)

definition strings_at :: "u32 list \<Rightarrow> u8 list list \<Rightarrow> (u32 \<times> u8 list) set" where
  "strings_at as strs = set (zip as (map (\<lambda>str. str @ [0]) strs))"

lemma push_strings_kept:
  "push_strings stack_top strs s = (as, s') \<Longrightarrow> \<not> overflow s' \<Longrightarrow> pushed stack_top m0 ws s \<Longrightarrow> kMaxStackData \<le> unat stack_top \<Longrightarrow>
   length as = length strs \<and> pushed stack_top m0 (strings_at as strs \<union> ws) s' \<and> unat (cursor s') + length strs \<le> unat (cursor s)"
proof (induction strs arbitrary: s as ws)
  case (Cons str strs)
  obtain a s1 as' where p: "push_string stack_top str s = (a, s1)" "push_strings stack_top strs s1 = (as', s')" "as = a # as'"
    using Cons.prems(1) by (auto split: prod.splits)
  have "\<not> overflow s1" using push_strings_overflow [OF p(2) Cons.prems(2)] .
  then have k: "pushed stack_top m0 (insert (a, str @ [0]) ws) s1" "unat (cursor s1) < unat (cursor s)"
    using push_string_kept [OF p(1) _ Cons.prems(3,4)] by blast+
  from Cons.IH [OF p(2) Cons.prems(2) k(1) Cons.prems(4)] show ?case unfolding p(3) using k(2) by (simp add: strings_at_def)
qed (simp add: strings_at_def)


text \<open>Everything a stack of this content holds.\<close>

definition stack_pieces ::
    "u32 \<times> u32 \<times> u32 \<times> u32 list \<times> u32 list \<Rightarrow> u8 list list \<Rightarrow> u8 list list \<Rightarrow> u8 list \<Rightarrow> u8 list \<Rightarrow> (u32 \<times> u8 list) set" where
  "stack_pieces = (\<lambda>(ex, pl, ra, args, envs) argv envp execfn rnd.
     strings_at args argv \<union> strings_at envs envp \<union> {(ex, execfn @ [0]), (pl, platform_v8l @ [0]), (ra, rnd)})"

lemma push_all_kept:
  assumes "push_all stack_top argv envp execfn rnd \<lparr>cursor = stack_top, overflow = False, smem = m\<rparr> = ((ex, pl, ra, args, envs), s)"
    and "\<not> overflow s" "kMaxStackData \<le> unat stack_top"
  shows "length args = length argv \<and> length envs = length envp \<and> length argv + length envp \<le> kMaxStackData \<and>
    pushed stack_top m (stack_pieces (ex, pl, ra, args, envs) argv envp execfn rnd) s"
proof -
  let ?s0 = "\<lparr>cursor = stack_top, overflow = False, smem = m\<rparr>"
  obtain s1 s2 s3 s4 where p: "push_string stack_top execfn ?s0 = (ex, s1)" "push_string stack_top platform_v8l s1 = (pl, s2)"
    "push_strings stack_top envp s2 = (envs, s3)" "push_strings stack_top argv s3 = (args, s4)" "push_bytes stack_top rnd s4 = (ra, s)"
    using assms(1) by (auto simp: push_all_def split: prod.splits)
  have o4: "\<not> overflow s4" using push_overflow [OF p(5) assms(2)] .
  have o3: "\<not> overflow s3" using push_strings_overflow [OF p(4) o4] .
  have o2: "\<not> overflow s2" using push_strings_overflow [OF p(3) o3] .
  have o1: "\<not> overflow s1" using push_overflow [OF p(2) [unfolded push_string_def] o2] .
  have "pushed stack_top m {} ?s0" by (simp add: pushed_def)
  note k1 = push_string_kept [OF p(1) o1 this assms(3)]
  note k2 = push_string_kept [OF p(2) o2 conjunct1 [OF k1] assms(3)]
  note k3 = push_strings_kept [OF p(3) o3 conjunct1 [OF k2] assms(3)]
  note k4 = push_strings_kept [OF p(4) o4 _ assms(3)]
  from k3 have "pushed stack_top m (strings_at envs envp \<union> {(pl, platform_v8l @ [0]), (ex, execfn @ [0])}) s3" by simp
  note k4 = k4 [OF this]
  note k5 = push_bytes_kept [OF p(5) assms(2) conjunct1 [OF conjunct2 [OF k4]] assms(3)]
  have "insert (ra, rnd) (strings_at args argv \<union> (strings_at envs envp \<union> {(pl, platform_v8l @ [0]), (ex, execfn @ [0])})) =
      stack_pieces (ex, pl, ra, args, envs) argv envp execfn rnd" by (auto simp: stack_pieces_def)
  moreover have "length argv + length envp \<le> kMaxStackData"
  proof -
    have "unat stack_top - unat (cursor s4) \<le> kMaxStackData" using k4 by (simp add: pushed_def)
    moreover have "unat (cursor s1) < unat stack_top" "unat (cursor s2) < unat (cursor s1)"
      "unat (cursor s3) + length envp \<le> unat (cursor s2)" "unat (cursor s4) + length argv \<le> unat (cursor s3)"
      using k1 k2 k3 k4 by simp_all
    ultimately show ?thesis by linarith
  qed
  ultimately show ?thesis using k3 k4 k5 by simp
qed

lemma unat_sum3: "unat (a :: u32) + unat b + unat c < 4294967296 \<Longrightarrow> unat (a + b + c) = unat a + unat b + unat c"
  by (simp add: unat_word_ariths)

lemma aligned_sp:
  assumes "unat (tp :: u32) = t" "unat (cur :: u32) = c" "c \<le> t" "t - c \<le> 262144" "n < 1073741824" "262144 \<le> t"
    and "sp = (cur - of_nat n) AND NOT (mask 4)" "unat (tp - sp) \<le> 262144"
  shows "16 dvd unat sp" "unat sp + n \<le> c" "t - unat sp \<le> 262144" "unat sp \<le> t"
proof -
  let ?x = "cur - of_nat n :: u32"
  have nn: "unat (of_nat n :: u32) = n" using assms(5) by (intro unat_eq_of_nat) simp
  have sp: "unat sp = unat ?x div 16 * 16" unfolding assms(7) by (simp add: word_nat)
  then show "16 dvd unat sp" by simp
  have split: "?x = sp + (?x AND mask 4)"
  proof (rule word_unat_eq_iff [THEN iffD2])
    have "unat (sp + (?x AND mask 4)) = (unat ?x div 16 * 16 + unat ?x mod 16) mod 2 ^ 32"
      by (simp add: unat_word_ariths sp word_nat)
    then show "unat ?x = unat (sp + (?x AND mask 4))" using unat_less_u32 [of ?x] by simp
  qed
  have m: "unat (?x AND mask 4) < 16" by (simp add: word_nat)
  have d: "unat (tp - cur) = t - c" using assms(1-3) by (simp add: unat_sub word_le_nat_alt)
  have "tp - sp = (tp - cur) + of_nat n + (?x AND mask 4)" using split by (metis (no_types) add.commute add_diff_eq diff_add_cancel diff_diff_add group_cancel.sub1)
  then have "unat (tp - sp) = unat ((tp - cur) + of_nat n + (?x AND mask 4))" by (rule arg_cong)
  also have "\<dots> = (t - c) + n + unat (?x AND mask 4)"
    using d nn m assms(4,5) by (subst unat_sum3) simp_all
  finally have "unat (tp - sp) = (t - c) + n + unat (?x AND mask 4)" .
  then have b: "(t - c) + n \<le> 262144" using assms(8) by simp
  then have "n \<le> c" using assms(3,6) by simp
  then have x: "unat ?x = c - n" using assms(2) nn by (simp add: unat_sub word_le_nat_alt)
  have "unat ?x div 16 * 16 \<le> unat ?x" by simp
  then show "unat sp + n \<le> c" "unat sp \<le> t" unfolding sp using x \<open>n \<le> c\<close> assms(3) by simp_all
  have "unat (tp - sp) = t - unat sp" using \<open>unat sp \<le> t\<close> assms(1) by (simp add: unat_sub word_le_nat_alt)
  then show "t - unat sp \<le> 262144" using assms(8) by simp
qed


section \<open>The stack is complete\<close>

definition stack_built :: "u32 \<Rightarrow> u8 list list \<Rightarrow> u8 list list \<Rightarrow> (u32 \<times> u32) list \<Rightarrow> u8 list \<Rightarrow> u8 list \<Rightarrow> guest_memory \<Rightarrow> bool" where
  "stack_built sp argv envp auxv execfn rnd m \<longleftrightarrow>
     (\<exists>ex pl ra args envs. length args = length argv \<and> length envs = length envp \<and>
        (let table = stack_table args envs (full_auxv auxv ra pl ex)
         in load_bytes (unat sp) (4 * length table) m = words_bytes table) \<and>
        (\<forall>(a, bs) \<in> stack_pieces (ex, pl, ra, args, envs) argv envp execfn rnd. load_bytes (unat a) (length bs) m = bs))"

lemma length_aux_words: "length (concat (map (\<lambda>(t, v). [t, v]) aux)) = 2 * length aux"
  by (induction aux) auto

lemma length_stack_table: "length (stack_table args envs aux) = length args + length envs + 3 + 2 * length aux"
  by (simp add: stack_table_def length_aux_words)

lemma stack_table_written:
  assumes "write_table stack_top table s = (sp, m')" and "sp \<noteq> 0"
  shows "\<not> overflow s" "sp = (cursor s - of_nat (length table)) AND NOT (mask 4)" "unat (stack_top - sp) \<le> kMaxStackData"
    "m' = store_bytes (unat sp) (take (unat (of_nat (length table) :: u32)) table) (smem s)"
  using assms unfolding write_table_def Let_def by (simp_all split: if_splits) (auto dest: leI)


definition stack_w :: guest_memory where
  "stack_w = (new_guest_memory True)\<lparr>pages := \<lambda>_. kPageMapped OR kPageRead OR kPageWrite\<rparr>"

lemma stack_w_accessible:
  "pages m = pages stack_w \<Longrightarrow> accessible a len kPageWrite m \<longleftrightarrow> len = 0 \<or> ucast a + len \<le> kGuestSpaceSize"
  by (simp add: accessible_def stack_w_def page_flag_defs Let_def list_all_iff) (auto simp: not_less not_le)

lemma stack_w_push:
  assumes "pages m = pages stack_w" "length bs \<le> kMaxStackData" "unat (0x80000000 - cur :: u32) + length bs \<le> kMaxStackData"
    "ucast (cur - of_nat (length bs)) + of_nat (length bs) \<le> kGuestSpaceSize"
  shows "push_bytes 0x80000000 bs \<lparr>cursor = cur, overflow = False, smem = m\<rparr> =
    (cur - of_nat (length bs),
     \<lparr>cursor = cur - of_nat (length bs), overflow = False, smem = store_bytes (unat (cur - of_nat (length bs))) bs m\<rparr>)"
  using assms by (simp add: push_bytes_def stack_w_accessible Let_def not_less)

lemma stack_w_build:
  "\<exists>m'. build_initial_stack 0x80000000 [[0x62]] [[0x63]] [(6, 4096)] [0x61] None stack_w = (0x7FFFFFA0, m')"
proof -
  have r: "length (random_bytes None) = 16" by (simp add: random_bytes_def)
  have a: "(2147483562 :: u32) AND NOT (mask 4) = 0x7FFFFFA0" by code_simp
  show ?thesis
    unfolding build_initial_stack_def push_all_def push_string_def platform_v8l_def Let_def
    by (simp add: stack_w_push push_string_def kMaxStackData_def kGuestSpaceSize_def r write_table_def
        length_stack_table full_auxv_def stack_w_accessible Let_def a)
qed


end
