(* ===== verification/Spec2Isabelle.thy ===== *)
theory Spec2Isabelle
  imports Jni_Reference_Spec Jni_Names Native_Call Native_Slots Syscalls Elf_Loader Initial_Stack
begin

text \<open>
  \<^bold>\<open>A verification development for ZettaBridge.\<close>

  ZettaBridge runs 32-bit ARM Android libraries inside a 64-bit process.  A JIT executes guest
  code in a 4 GiB region; the bridge (\<open>core/\<close>) gives that code an address space, a process with
  threads, signals and system calls, and a JNI environment whose references are 32-bit handles.

  \<^bold>\<open>Theories, in the order of the code they model\<close>

  \<^item> \<open>Zb_Prelude\<close>: machine integers, readings of word operations as arithmetic, vectors.
  \<^item> \<open>Guest_Memory\<close> (\<open>guest_memory.h/.cpp\<close>): page table, bytes and host protections; mapping,
    protection, search for free ranges, access checks.  The host's \<open>mmap\<close>/\<open>mprotect\<close> answers are a
    parameter \<open>kernel\<close>.
  \<^item> \<open>Jni_Handles\<close> (\<open>jni_handles.h/.cpp\<close>): local, global and weak handle tables with serial numbers,
    frames, and interned ids.  The locale \<open>handle_table\<close> proves once that a spent handle never
    revives; both tables interpret it.
  \<^item> \<open>Jni_Names\<close>: JNI descriptors, shorties, export symbols and class names.
  \<^item> \<open>Native_Call\<close>, \<open>Native_Slots\<close>: marshalling of a native call into ARM registers and stack, and the
    pool of native thunks.
  \<^item> \<open>Guest_Abi\<close> (\<open>guest_abi.h\<close>): the byte images of the kernel structures of the 32-bit ABI.
  \<^item> \<open>Guest_Thread\<close> (\<open>guest_thread.h/.cpp\<close>, \<open>cp15\<close>): CPU context, JIT callbacks, guest calls, pending
    signals.
  \<^item> \<open>Process_State\<close> (\<open>process.h/.cpp\<close>): tables of a process: mappings, executable pages, paths,
    thread registry.
  \<^item> \<open>Guest_Signals\<close> (\<open>signals.cpp\<close>): delivery, return, faults, and the retirement of the forwarding
    target as a step relation over interleavings.
  \<^item> \<open>Elf_Files\<close> (\<open>elf_fixups.h/.cpp\<close>): rewriting of a library's dynamic table.
  \<^item> \<open>Proc_Files\<close> (\<open>proc_files.cpp\<close>): the synthesised \<open>/proc\<close> files.
  \<^item> \<open>Syscall_Base\<close>, \<open>Syscall_Io\<close>, \<open>Syscall_Memory\<close>, \<open>Syscall_Proc\<close>, \<open>Syscall_Net\<close>, \<open>Syscalls\<close>
    (\<open>syscalls.cpp\<close>): every system call handler and the dispatcher.
\<close>

end
